(* ===== verification/Prelude.thy ===== *)
theory Prelude
  imports Main "HOL-Library.Word" "HOL-Library.AList"
begin

text \<open>
  What every component shares: the machine integers and durations of the Rust code, the
  shape of a fallible stateful call with its \<open>?\<close> operator, and generic lemmas on words,
  lists and association lists.

  \<^item> A Rust \<open>str\<close> or \<open>String\<close> is its UTF-8 bytes, one \<open>char\<close> per byte, so \<open>length\<close>
    is Rust's \<open>len()\<close>. A \<open>[u8]\<close> is a list of 8-bit words.
  \<^item> \<open>saturating_add\<close>, \<open>saturating_sub\<close> and \<open>u64::try_from(_).unwrap_or(u64::MAX)\<close> are
    written out on words.
  \<^item> A call that reads or changes the outside world takes the world and returns a result
    and the new world. The result is \<open>Inr\<close> of a value, \<open>Inl (Err e)\<close> of a Rust
    \<open>Err(e)\<close>, or \<open>Inl Pending\<close> when the call has not returned, because it waits for
    something nobody will give it.
\<close>

section \<open>Named collections\<close>

named_theorems sat_simps \<open>saturating arithmetic read as natural numbers\<close>
named_theorems calm_simps \<open>what a system call does when nobody interferes\<close>
named_theorems frame_simps \<open>what a call leaves as it was\<close>

section \<open>Machine integers\<close>

type_synonym u8 = "8 word"
type_synonym u16 = "16 word"
type_synonym u32 = "32 word"
type_synonym u64 = "64 word"
type_synonym str = string

definition saturating_add :: "u64 \<Rightarrow> u64 \<Rightarrow> u64" where
  "saturating_add a b = (if unat a + unat b < 2 ^ 64 then a + b else - 1)"

definition saturating_sub :: "u64 \<Rightarrow> u64 \<Rightarrow> u64" where
  "saturating_sub a b = (if a < b then 0 else a - b)"

text \<open>\<open>u64::try_from(n).unwrap_or(u64::MAX)\<close>\<close>

definition u64_or_max :: "nat \<Rightarrow> u64" where
  "u64_or_max n = (if n < 2 ^ 64 then of_nat n else - 1)"

lemma unat_max_u64: "unat (- 1 :: u64) = 2 ^ 64 - 1"
  by (simp add: unsigned_minus_1_eq_mask mask_eq_exp_minus_1)

lemma unat_less_u64: "unat (a :: u64) < 2 ^ 64"
  by (rule order.strict_trans2 [OF unsigned_less]) simp

lemma unat_less_u8: "unat (a :: u8) < 256"
  by (rule order.strict_trans2 [OF unsigned_less]) simp

lemma unat_le_max_u64: "unat (a :: u64) \<le> 2 ^ 64 - 1"
  using unat_less_u64 [of a] by linarith

lemma unat_saturating_add [sat_simps]:
  "unat (saturating_add a b) = min (unat a + unat b) (2 ^ 64 - 1)"
proof (cases "unat a + unat b < 2 ^ 64")
  case True
  then have "unat (a + b) = unat a + unat b"
    by (simp add: unat_word_ariths)
  with True show ?thesis by (simp add: saturating_add_def)
next
  case False
  then show ?thesis by (simp add: saturating_add_def unat_max_u64)
qed

lemma unat_saturating_sub [sat_simps]: "unat (saturating_sub a b) = unat a - unat b"
proof (cases "a < b")
  case True
  then show ?thesis by (simp add: saturating_sub_def word_less_nat_alt)
next
  case False
  then have "b \<le> a" by simp
  then show ?thesis by (auto simp: saturating_sub_def unat_sub word_le_nat_alt word_less_nat_alt)
qed

lemma unat_u64_or_max [sat_simps]: "unat (u64_or_max n) = min n (2 ^ 64 - 1)"
proof (cases "n < 2 ^ 64")
  case True
  then have "unat (of_nat n :: u64) = n"
    by (simp add: unat_of_nat take_bit_nat_eq_self)
  with True show ?thesis by (simp add: u64_or_max_def)
next
  case False
  then show ?thesis by (simp add: u64_or_max_def unat_max_u64)
qed

lemma saturating_add_ge: "a \<le> saturating_add a b"
  using unat_le_max_u64 [of a] by (simp add: word_le_nat_alt sat_simps)

lemma saturating_add_0 [simp]: "saturating_add a 0 = a"
  using unat_less_u64 [of a] by (simp add: saturating_add_def)

section \<open>Durations\<close>

text \<open>\<open>std::time::Duration\<close>: whole seconds and the nanoseconds below one second.\<close>

record duration =
  d_secs :: u64
  d_nanos :: u32

definition from_secs :: "u64 \<Rightarrow> duration" where
  "from_secs s = \<lparr>d_secs = s, d_nanos = 0\<rparr>"

definition from_mins :: "u64 \<Rightarrow> duration" where
  "from_mins m = from_secs (60 * m)"

definition from_hours :: "u64 \<Rightarrow> duration" where
  "from_hours h = from_secs (3600 * h)"

text \<open>\<open>Duration::as_millis\<close>, a \<open>u128\<close> that cannot overflow.\<close>

definition as_millis :: "duration \<Rightarrow> nat" where
  "as_millis d = 1000 * unat (d_secs d) + unat (d_nanos d) div 1000000"

definition as_nanos :: "duration \<Rightarrow> nat" where
  "as_nanos d = 1000000000 * unat (d_secs d) + unat (d_nanos d)"

definition is_zero :: "duration \<Rightarrow> bool" where
  "is_zero d \<longleftrightarrow> d_secs d = 0 \<and> d_nanos d = 0"

definition millis :: "duration \<Rightarrow> u64" where
  "millis d = u64_or_max (as_millis d)"

section \<open>Fallible calls\<close>

datatype 'e stop = Err 'e | Pending

type_synonym ('w, 'e, 'a) io = "'w \<Rightarrow> ('e stop + 'a) \<times> 'w"

definition ok :: "'a \<Rightarrow> ('w, 'e, 'a) io" where
  "ok x w = (Inr x, w)"

definition fail :: "'e \<Rightarrow> ('w, 'e, 'a) io" where
  "fail e w = (Inl (Err e), w)"

text \<open>\<open>f()?\<close>: stop at the first error, else go on with the value.\<close>

definition andThen :: "('w, 'e, 'a) io \<Rightarrow> ('a \<Rightarrow> ('w, 'e, 'b) io) \<Rightarrow> ('w, 'e, 'b) io" where
  "andThen m k w = (case m w of
     (Inl e, w') \<Rightarrow> (Inl e, w')
   | (Inr x, w') \<Rightarrow> k x w')"

text \<open>\<open>Result::map_err\<close>\<close>

definition map_err :: "('e \<Rightarrow> 'f) \<Rightarrow> ('w, 'e, 'a) io \<Rightarrow> ('w, 'f, 'a) io" where
  "map_err f m w = (case m w of
     (Inl (Err e), w') \<Rightarrow> (Inl (Err (f e)), w')
   | (Inl Pending, w') \<Rightarrow> (Inl Pending, w')
   | (Inr x, w') \<Rightarrow> (Inr x, w'))"

text \<open>\<open>let _ = f();\<close>: the result is dropped. A call that never returns still never returns.\<close>

definition ignore :: "('w, 'e, 'a) io \<Rightarrow> ('w, 'f, unit) io" where
  "ignore m w = (case m w of
     (Inl Pending, w') \<Rightarrow> (Inl Pending, w')
   | (Inl (Err e), w') \<Rightarrow> (Inr (), w')
   | (Inr x, w') \<Rightarrow> (Inr (), w'))"

text \<open>
  The end of a scope: whatever the body did, its local is dropped. A body that never
  returned drops nothing.
\<close>

definition scoped :: "('w, 'e, 'a) io \<Rightarrow> ('w \<Rightarrow> 'w) \<Rightarrow> ('w, 'e, 'a) io" where
  "scoped m d w = (case m w of
     (Inl Pending, w') \<Rightarrow> (Inl Pending, w')
   | (r, w') \<Rightarrow> (r, d w'))"

text \<open>An early return on an error drops the local; a value keeps it (it moves out).\<close>

definition on_error :: "('w, 'e, 'a) io \<Rightarrow> ('w \<Rightarrow> 'w) \<Rightarrow> ('w, 'e, 'a) io" where
  "on_error m d w = (case m w of
     (Inl (Err e), w') \<Rightarrow> (Inl (Err e), d w')
   | (r, w') \<Rightarrow> (r, w'))"

lemma andThen_Inr [simp]: "m w = (Inr x, w') \<Longrightarrow> andThen m k w = k x w'"
  by (simp add: andThen_def)

lemma andThen_Inl [simp]: "m w = (Inl e, w') \<Longrightarrow> andThen m k w = (Inl e, w')"
  by (simp add: andThen_def)

lemma andThen_eq_Inr_iff:
  "andThen m k w = (Inr y, w'') \<longleftrightarrow> (\<exists>x w'. m w = (Inr x, w') \<and> k x w' = (Inr y, w''))"
  by (auto simp: andThen_def split: prod.splits sum.splits)

lemma map_err_Inr [simp]: "m w = (Inr x, w') \<Longrightarrow> map_err f m w = (Inr x, w')"
  by (simp add: map_err_def)

lemma map_err_Err [simp]: "m w = (Inl (Err e), w') \<Longrightarrow> map_err f m w = (Inl (Err (f e)), w')"
  by (simp add: map_err_def)

lemma map_err_Pending [simp]: "m w = (Inl Pending, w') \<Longrightarrow> map_err f m w = (Inl Pending, w')"
  by (simp add: map_err_def)

lemma map_err_eq_Inr_iff: "map_err f m w = (Inr x, w') \<longleftrightarrow> m w = (Inr x, w')"
  by (auto simp: map_err_def split: prod.splits sum.splits stop.splits)

lemma scoped_Inr [simp]: "m w = (Inr x, w') \<Longrightarrow> scoped m d w = (Inr x, d w')"
  by (simp add: scoped_def)

lemma scoped_Err [simp]: "m w = (Inl (Err e), w') \<Longrightarrow> scoped m d w = (Inl (Err e), d w')"
  by (simp add: scoped_def)

lemma on_error_Inr [simp]: "m w = (Inr x, w') \<Longrightarrow> on_error m d w = (Inr x, w')"
  by (simp add: on_error_def)

lemma ok_apply [simp]: "ok x w = (Inr x, w)"
  by (simp add: ok_def)

lemma fail_apply [simp]: "fail e w = (Inl (Err e), w)"
  by (simp add: fail_def)

section \<open>Association lists as directories\<close>

lemma map_of_filter_key: "map_of (filter (\<lambda>(q, i). P q) xs) p = (if P p then map_of xs p else None)"
  by (induction xs) auto

lemma distinct_map_fst_filter: "distinct (map fst xs) \<Longrightarrow> distinct (map fst (filter P xs))"
  by (induction xs) auto

end
