(* ===== verification/Os.thy ===== *)
theory Os
  imports Prelude
begin

unbundle bit_operations_syntax

text \<open>
  The operating system as the code sees it through \<open>std::fs\<close>, \<open>std::fs::File\<close> and the
  \<open>open(2)\<close> and \<open>fchmod(2)\<close> calls of \<open>rustix\<close>: directories, inodes, advisory file locks
  and the clocks. A path is the list of its components, as \<open>path::absolute\<close> leaves it; an
  inode number stands for a device and an inode together.

  The state \<open>os\<close> is shared by every process. A \<open>world\<close> is that state, the identity of
  the calling process, and a \<open>script\<close>: what the rest of the machine does between the calls
  of this process. Each system call first takes the next move of the script, which changes
  the shared state in any way and may make the call fail with any error kind; when the
  script is empty nobody interferes and no call fails for a reason outside the model. So a
  theorem that holds for every script holds under every finite interference.

  Simplifications: the components above the last one are not resolved through symbolic
  links (a link is followed only as the last component); permission bits are recorded but
  a call the kernel would refuse for them is one the script makes fail.
\<close>

section \<open>State\<close>

type_synonym path = "str list"

datatype error_kind =
    NotFound | PermissionDenied | ConnectionRefused | ConnectionReset | ConnectionAborted
  | AlreadyExists | WouldBlock | TimedOut | Interrupted | NotADirectory | IsADirectory
  | DirectoryNotEmpty | FilesystemLoop | InvalidInput | InvalidData | BrokenPipe
  | UnexpectedEof | OtherKind

datatype ftype = Regular | Directory | Symlink path | Fifo | Socket | Device

record inode =
  kind :: ftype
  uid :: u32
  mode :: u32
  mtime :: int  \<comment> \<open>nanoseconds since the Unix epoch\<close>
  data :: "u8 list"

record metadata =
  m_ino :: nat
  m_node :: inode

text \<open>An open file: the open file description, and the inode it is open on.\<close>

record handle =
  fd :: nat
  f_ino :: nat

datatype lock_mode = Shared | Exclusive

record os =
  dirents :: "(path \<times> nat) list"
  inodes :: "nat \<Rightarrow> inode"
  locks :: "(nat \<times> nat \<times> lock_mode) list"  \<comment> \<open>description, inode, mode\<close>
  next_ino :: nat
  next_fd :: nat
  ktime :: int  \<comment> \<open>the kernel's clock\<close>
  clock :: u64  \<comment> \<open>the cache's \<open>Clock\<close>, milliseconds since the epoch\<close>

type_synonym move = "(os \<Rightarrow> os) \<times> error_kind option"

record world =
  fs :: os
  script :: "move list"
  euid :: u32
  umask :: u32

type_synonym 'a syscall = "(world, error_kind, 'a) io"
type_synonym 'a effect = "os \<Rightarrow> (error_kind stop + 'a) \<times> os"

definition calm :: "world \<Rightarrow> bool" where
  "calm w \<longleftrightarrow> script w = []"

definition sys :: "'a effect \<Rightarrow> 'a syscall" where
  "sys f w = (case script w of
     [] \<Rightarrow> (case f (fs w) of (r, s) \<Rightarrow> (r, w\<lparr>fs := s\<rparr>))
   | (g, failure) # rest \<Rightarrow>
       (case failure of
          Some e \<Rightarrow> (Inl (Err e), w\<lparr>fs := g (fs w), script := rest\<rparr>)
        | None \<Rightarrow> (case f (g (fs w)) of (r, s) \<Rightarrow> (r, w\<lparr>fs := s, script := rest\<rparr>))))"

section \<open>Paths\<close>

definition ino_at :: "os \<Rightarrow> path \<Rightarrow> nat option" where
  "ino_at s p = map_of (dirents s) p"

definition node_at :: "os \<Rightarrow> path \<Rightarrow> inode option" where
  "node_at s p = map_option (inodes s) (ino_at s p)"

definition child_of :: "path \<Rightarrow> path \<Rightarrow> bool" where
  "child_of d p \<longleftrightarrow> p \<noteq> [] \<and> butlast p = d"

definition children :: "os \<Rightarrow> path \<Rightarrow> path list" where
  "children s d = map fst (filter (\<lambda>(p, i). child_of d p) (dirents s))"

definition under :: "path \<Rightarrow> path \<Rightarrow> bool" where
  "under d p \<longleftrightarrow> take (length d) p = d"

text \<open>The last component's symbolic links, followed at most \<open>n\<close> times.\<close>

fun resolve :: "nat \<Rightarrow> os \<Rightarrow> path \<Rightarrow> error_kind + path" where
  "resolve n s p = (case node_at s p of
     None \<Rightarrow> Inr p
   | Some m \<Rightarrow> (case kind m of
       Symlink t \<Rightarrow> (case n of 0 \<Rightarrow> Inl FilesystemLoop | Suc n' \<Rightarrow> resolve n' s t)
     | _ \<Rightarrow> Inr p))"

declare resolve.simps [simp del]

definition max_links :: nat where
  "max_links = 40"

text \<open>Why a new name cannot be made at \<open>p\<close>: its directory is missing, or is no directory.\<close>

definition parent_error :: "os \<Rightarrow> path \<Rightarrow> error_kind option" where
  "parent_error s p = (case node_at s (butlast p) of
     None \<Rightarrow> Some NotFound
   | Some m \<Rightarrow> if kind m = Directory then None else Some NotADirectory)"

definition add_node :: "path \<Rightarrow> inode \<Rightarrow> os \<Rightarrow> os" where
  "add_node p m s = s\<lparr>dirents := dirents s @ [(p, next_ino s)],
     inodes := (inodes s)(next_ino s := m), next_ino := Suc (next_ino s)\<rparr>"

definition new_node :: "ftype \<Rightarrow> u32 \<Rightarrow> u32 \<Rightarrow> os \<Rightarrow> inode" where
  "new_node k u perm s = \<lparr>kind = k, uid = u, mode = perm, mtime = ktime s, data = []\<rparr>"

definition remove_name :: "path \<Rightarrow> os \<Rightarrow> os" where
  "remove_name p s = s\<lparr>dirents := filter (\<lambda>(q, i). q \<noteq> p) (dirents s)\<rparr>"

definition remove_tree :: "path \<Rightarrow> os \<Rightarrow> os" where
  "remove_tree p s = s\<lparr>dirents := filter (\<lambda>(q, i). \<not> under p q) (dirents s)\<rparr>"

definition set_node :: "nat \<Rightarrow> inode \<Rightarrow> os \<Rightarrow> os" where
  "set_node i m s = s\<lparr>inodes := (inodes s)(i := m)\<rparr>"

section \<open>What each call does to the shared state\<close>

definition stat_os :: "path \<Rightarrow> metadata effect" where
  "stat_os p s = (case ino_at s p of
     None \<Rightarrow> (Inl (Err NotFound), s)
   | Some i \<Rightarrow> (Inr \<lparr>m_ino = i, m_node = inodes s i\<rparr>, s))"

definition mkdir_os :: "u32 \<Rightarrow> u32 \<Rightarrow> path \<Rightarrow> unit effect" where
  "mkdir_os u perm p s = (case ino_at s p of
     Some i \<Rightarrow> (Inl (Err AlreadyExists), s)
   | None \<Rightarrow> (case parent_error s p of
       Some e \<Rightarrow> (Inl (Err e), s)
     | None \<Rightarrow> (Inr (), add_node p (new_node Directory u perm s) s)))"

text \<open>\<open>create_dir_all\<close>: every missing directory of the path, outermost first.\<close>

fun mkdirs_os :: "u32 \<Rightarrow> u32 \<Rightarrow> path list \<Rightarrow> unit effect" where
  "mkdirs_os u perm [] s = (Inr (), s)"
| "mkdirs_os u perm (p # ps) s = (case node_at s p of
     Some m \<Rightarrow> if kind m = Directory then mkdirs_os u perm ps s
                else (Inl (Err AlreadyExists), s)
   | None \<Rightarrow> (case mkdir_os u perm p s of
       (Inl e, s') \<Rightarrow> (Inl e, s')
     | (Inr _, s') \<Rightarrow> mkdirs_os u perm ps s'))"

definition prefixes_of :: "path \<Rightarrow> path list" where
  "prefixes_of p = map (\<lambda>n. take n p) [0..<Suc (length p)]"

definition chmod_os :: "u32 \<Rightarrow> path \<Rightarrow> unit effect" where
  "chmod_os m p s = (case resolve max_links s p of
     Inl e \<Rightarrow> (Inl (Err e), s)
   | Inr q \<Rightarrow> (case ino_at s q of
       None \<Rightarrow> (Inl (Err NotFound), s)
     | Some i \<Rightarrow> (Inr (), set_node i ((inodes s i)\<lparr>mode := m\<rparr>) s)))"

record open_flags =
  o_rdwr :: bool
  o_create :: bool
  o_nofollow :: bool
  o_nonblock :: bool

definition open_os :: "open_flags \<Rightarrow> u32 \<Rightarrow> u32 \<Rightarrow> path \<Rightarrow> handle effect" where
  "open_os fl u perm p s =
    (case (if o_nofollow fl then Inr p else resolve max_links s p) of
       Inl e \<Rightarrow> (Inl (Err e), s)
     | Inr q \<Rightarrow> (case ino_at s q of
         None \<Rightarrow>
           if \<not> o_create fl then (Inl (Err NotFound), s)
           else (case parent_error s q of
               Some e \<Rightarrow> (Inl (Err e), s)
             | None \<Rightarrow> (Inr \<lparr>fd = next_fd s, f_ino = next_ino s\<rparr>,
                 (add_node q (new_node Regular u perm s) s)\<lparr>next_fd := Suc (next_fd s)\<rparr>))
       | Some i \<Rightarrow>
           let opened = (Inr \<lparr>fd = next_fd s, f_ino = i\<rparr>, s\<lparr>next_fd := Suc (next_fd s)\<rparr>)
           in (case kind (inodes s i) of
               Regular \<Rightarrow> opened
             | Directory \<Rightarrow>
                 if o_rdwr fl \<or> o_create fl then (Inl (Err IsADirectory), s) else opened
             | Symlink t \<Rightarrow> (Inl (Err FilesystemLoop), s)
             | Fifo \<Rightarrow> if o_rdwr fl \<or> o_nonblock fl then opened else (Inl Pending, s)
             | Socket \<Rightarrow> (Inl (Err OtherKind), s)
             | Device \<Rightarrow> opened)))"

definition fstat_os :: "handle \<Rightarrow> metadata effect" where
  "fstat_os f s = (Inr \<lparr>m_ino = f_ino f, m_node = inodes s (f_ino f)\<rparr>, s)"

definition fchmod_os :: "u32 \<Rightarrow> handle \<Rightarrow> unit effect" where
  "fchmod_os m f s = (Inr (), set_node (f_ino f) ((inodes s (f_ino f))\<lparr>mode := m\<rparr>) s)"

text \<open>At most \<open>n\<close> bytes from the start of the file.\<close>

definition read_os :: "handle \<Rightarrow> nat \<Rightarrow> u8 list effect" where
  "read_os f n s = (let m = inodes s (f_ino f) in
     if kind m = Directory then (Inl (Err IsADirectory), s) else (Inr (take n (data m)), s))"

definition write_os :: "handle \<Rightarrow> u8 list \<Rightarrow> unit effect" where
  "write_os f bs s = (let m = inodes s (f_ino f) in
     (Inr (), set_node (f_ino f) (m\<lparr>data := data m @ bs, mtime := ktime s\<rparr>) s))"

definition set_modified_os :: "handle \<Rightarrow> int \<Rightarrow> unit effect" where
  "set_modified_os f t s =
     (Inr (), set_node (f_ino f) ((inodes s (f_ino f))\<lparr>mtime := t\<rparr>) s)"

definition sync_os :: "handle \<Rightarrow> unit effect" where
  "sync_os f s = (Inr (), s)"

definition unlink_os :: "path \<Rightarrow> unit effect" where
  "unlink_os p s = (case node_at s p of
     None \<Rightarrow> (Inl (Err NotFound), s)
   | Some m \<Rightarrow> if kind m = Directory then (Inl (Err IsADirectory), s)
                else (Inr (), remove_name p s))"

definition rmdir_os :: "path \<Rightarrow> unit effect" where
  "rmdir_os p s = (case node_at s p of
     None \<Rightarrow> (Inl (Err NotFound), s)
   | Some m \<Rightarrow> if kind m \<noteq> Directory then (Inl (Err NotADirectory), s)
                else if children s p \<noteq> [] then (Inl (Err DirectoryNotEmpty), s)
                else (Inr (), remove_name p s))"

definition rmtree_os :: "path \<Rightarrow> unit effect" where
  "rmtree_os p s = (case node_at s p of
     None \<Rightarrow> (Inl (Err NotFound), s)
   | Some m \<Rightarrow> if kind m = Directory then (Inr (), remove_tree p s)
                else (Inl (Err NotADirectory), s))"

text \<open>A new \<open>0600\<close> file at a name that must not exist yet.\<close>

definition create_new_os :: "u32 \<Rightarrow> u32 \<Rightarrow> path \<Rightarrow> handle effect" where
  "create_new_os u perm p s = (case ino_at s p of
     Some i \<Rightarrow> (Inl (Err AlreadyExists), s)
   | None \<Rightarrow> (case parent_error s p of
       Some e \<Rightarrow> (Inl (Err e), s)
     | None \<Rightarrow> (Inr \<lparr>fd = next_fd s, f_ino = next_ino s\<rparr>,
         (add_node p (new_node Regular u perm s) s)\<lparr>next_fd := Suc (next_fd s)\<rparr>)))"

text \<open>\<open>rename(2)\<close> of a file over \<open>q\<close>, replacing what is there but a directory.\<close>

definition rename_os :: "path \<Rightarrow> path \<Rightarrow> unit effect" where
  "rename_os p q s = (case ino_at s p of
     None \<Rightarrow> (Inl (Err NotFound), s)
   | Some i \<Rightarrow> (case parent_error s q of
       Some e \<Rightarrow> (Inl (Err e), s)
     | None \<Rightarrow>
         if map_option kind (node_at s q) = Some Directory then (Inl (Err IsADirectory), s)
         else (Inr (), s\<lparr>dirents :=
                filter (\<lambda>(r, j). r \<noteq> p \<and> r \<noteq> q) (dirents s) @ [(q, i)]\<rparr>)))"

text \<open>As \<open>rename_os\<close>, refusing to replace anything (\<open>persist_noclobber\<close>).\<close>

definition rename_new_os :: "path \<Rightarrow> path \<Rightarrow> unit effect" where
  "rename_new_os p q s =
     (if ino_at s q \<noteq> None then (Inl (Err AlreadyExists), s) else rename_os p q s)"

definition read_dir_os :: "path \<Rightarrow> path list effect" where
  "read_dir_os p s = (case resolve max_links s p of
     Inl e \<Rightarrow> (Inl (Err e), s)
   | Inr q \<Rightarrow> (case node_at s q of
       None \<Rightarrow> (Inl (Err NotFound), s)
     | Some m \<Rightarrow> if kind m = Directory
                  then (Inr (map (\<lambda>c. p @ [last c]) (children s q)), s)
                  else (Inl (Err NotADirectory), s)))"

section \<open>Advisory locks\<close>

text \<open>
  A lock belongs to an open file description and is on an inode. Closing the description
  releases it. A description that already holds a lock on the inode does not conflict with
  itself.
\<close>

definition conflict :: "handle \<Rightarrow> lock_mode \<Rightarrow> os \<Rightarrow> bool" where
  "conflict f m s \<longleftrightarrow> (\<exists>(d, i, m') \<in> set (locks s).
     d \<noteq> fd f \<and> i = f_ino f \<and> (m = Exclusive \<or> m' = Exclusive))"

definition grant :: "handle \<Rightarrow> lock_mode \<Rightarrow> os \<Rightarrow> os" where
  "grant f m s = s\<lparr>locks := (fd f, f_ino f, m) # locks s\<rparr>"

definition holds :: "os \<Rightarrow> handle \<Rightarrow> lock_mode \<Rightarrow> bool" where
  "holds s f m \<longleftrightarrow> (fd f, f_ino f, m) \<in> set (locks s)"

text \<open>\<open>TryLockError\<close>\<close>

datatype try_lock_error = TryWouldBlock | TryError error_kind

definition try_flock_os :: "handle \<Rightarrow> lock_mode \<Rightarrow> bool effect" where
  "try_flock_os f m s = (if conflict f m s then (Inr False, s) else (Inr True, grant f m s))"

fun flock_wait :: "handle \<Rightarrow> lock_mode \<Rightarrow> move list \<Rightarrow> os \<Rightarrow>
    (error_kind stop + unit) \<times> os \<times> move list" where
  "flock_wait f m [] s =
     (if conflict f m s then (Inl Pending, s, []) else (Inr (), grant f m s, []))"
| "flock_wait f m ((g, failure) # rest) s = (case failure of
     Some e \<Rightarrow> (Inl (Err e), g s, rest)
   | None \<Rightarrow> if conflict f m (g s) then flock_wait f m rest (g s)
              else (Inr (), grant f m (g s), rest))"

definition drop_file :: "handle \<Rightarrow> world \<Rightarrow> world" where
  "drop_file f w = w\<lparr>fs := (fs w)\<lparr>locks := filter (\<lambda>(d, i, m). d \<noteq> fd f) (locks (fs w))\<rparr>\<rparr>"

section \<open>The calls\<close>

definition symlink_metadata :: "path \<Rightarrow> metadata syscall" where
  "symlink_metadata p = sys (stat_os p)"

definition create_dir :: "path \<Rightarrow> unit syscall" where
  "create_dir p w = sys (mkdir_os (euid w) (511 AND NOT (umask w)) p) w"

definition create_dir_all :: "path \<Rightarrow> unit syscall" where
  "create_dir_all p w =
     sys (mkdirs_os (euid w) (511 AND NOT (umask w)) (prefixes_of p)) w"

definition set_permissions :: "path \<Rightarrow> u32 \<Rightarrow> unit syscall" where
  "set_permissions p m = sys (chmod_os m p)"

definition open_with :: "open_flags \<Rightarrow> u32 \<Rightarrow> path \<Rightarrow> handle syscall" where
  "open_with fl perm p w = sys (open_os fl (euid w) (perm AND NOT (umask w)) p) w"

text \<open>\<open>File::open\<close>\<close>

definition file_open :: "path \<Rightarrow> handle syscall" where
  "file_open p = open_with
     \<lparr>o_rdwr = False, o_create = False, o_nofollow = False, o_nonblock = False\<rparr> 438 p"

definition file_metadata :: "handle \<Rightarrow> metadata syscall" where
  "file_metadata f = sys (fstat_os f)"

definition fchmod :: "handle \<Rightarrow> u32 \<Rightarrow> unit syscall" where
  "fchmod f m = sys (fchmod_os m f)"

definition read_up_to :: "handle \<Rightarrow> nat \<Rightarrow> u8 list syscall" where
  "read_up_to f n = sys (read_os f n)"

definition write_all :: "handle \<Rightarrow> u8 list \<Rightarrow> unit syscall" where
  "write_all f bs = sys (write_os f bs)"

definition set_modified :: "handle \<Rightarrow> int \<Rightarrow> unit syscall" where
  "set_modified f t = sys (set_modified_os f t)"

definition sync_all :: "handle \<Rightarrow> unit syscall" where
  "sync_all f = sys (sync_os f)"

definition remove_file :: "path \<Rightarrow> unit syscall" where
  "remove_file p = sys (unlink_os p)"

definition remove_dir :: "path \<Rightarrow> unit syscall" where
  "remove_dir p = sys (rmdir_os p)"

definition remove_dir_all :: "path \<Rightarrow> unit syscall" where
  "remove_dir_all p = sys (rmtree_os p)"

definition create_new :: "path \<Rightarrow> handle syscall" where
  "create_new p w = sys (create_new_os (euid w) (384 AND NOT (umask w)) p) w"

definition rename :: "path \<Rightarrow> path \<Rightarrow> unit syscall" where
  "rename p q = sys (rename_os p q)"

definition rename_new :: "path \<Rightarrow> path \<Rightarrow> unit syscall" where
  "rename_new p q = sys (rename_new_os p q)"

definition read_dir :: "path \<Rightarrow> path list syscall" where
  "read_dir p = sys (read_dir_os p)"

definition file_lock :: "handle \<Rightarrow> lock_mode \<Rightarrow> unit syscall" where
  "file_lock f m w = (case flock_wait f m (script w) (fs w) of
     (r, s, rest) \<Rightarrow> (r, w\<lparr>fs := s, script := rest\<rparr>))"

definition file_try_lock :: "handle \<Rightarrow> lock_mode \<Rightarrow> (world, try_lock_error, unit) io" where
  "file_try_lock f m w = (case sys (try_flock_os f m) w of
     (Inr True, w') \<Rightarrow> (Inr (), w')
   | (Inr False, w') \<Rightarrow> (Inl (Err TryWouldBlock), w')
   | (Inl Pending, w') \<Rightarrow> (Inl Pending, w')
   | (Inl (Err e), w') \<Rightarrow> (Inl (Err (TryError e)), w'))"

text \<open>\<open>Clock::now_ms\<close>: a reading, no system call of the model.\<close>

definition now_ms :: "world \<Rightarrow> u64" where
  "now_ms w = clock (fs w)"

section \<open>The script only gets shorter\<close>

definition spends :: "(world, 'e, 'a) io \<Rightarrow> bool" where
  "spends m \<longleftrightarrow> (\<forall>w. length (script (snd (m w))) \<le> length (script w))"

named_theorems spends_intros \<open>calls that never lengthen the script\<close>

lemma spendsD: "spends m \<Longrightarrow> m w = (r, w') \<Longrightarrow> length (script w') \<le> length (script w)"
  by (metis spends_def snd_conv)

lemma spendsI: "(\<And>w r w'. m w = (r, w') \<Longrightarrow> length (script w') \<le> length (script w)) \<Longrightarrow> spends m"
  by (metis spends_def prod.collapse)

lemma script_sys: "sys f w = (r, w') \<Longrightarrow> script w' = tl (script w)"
  by (auto simp: sys_def split: list.splits prod.splits option.splits)

lemma spends_sys [spends_intros]: "spends (sys f)"
  by (rule spendsI) (drule script_sys, simp)

lemma spends_sys_at [spends_intros]: "spends (\<lambda>w. sys (f w) w)"
  by (rule spendsI) (drule script_sys, simp)

lemma spends_ok [spends_intros]: "spends (ok x)"
  by (simp add: spends_def)

lemma spends_fail [spends_intros]: "spends (fail e)"
  by (simp add: spends_def)

lemma spends_andThen [spends_intros]:
  assumes m: "spends m" and k: "\<And>x. spends (k x)"
  shows "spends (andThen m k)"
proof (rule spendsI)
  fix w r w'
  assume a: "andThen m k w = (r, w')"
  obtain x w1 where x: "m w = (x, w1)" by (cases "m w")
  with m have w1: "length (script w1) \<le> length (script w)" by (rule spendsD)
  show "length (script w') \<le> length (script w)"
  proof (cases x)
    case (Inl e)
    with a x w1 show ?thesis by simp
  next
    case (Inr y)
    with a x have "k y w1 = (r, w')" by simp
    with k have "length (script w') \<le> length (script w1)" by (rule spendsD)
    with w1 show ?thesis by simp
  qed
qed

lemma spends_on_error [spends_intros]:
  assumes m: "spends m" and d: "\<And>w. script (d w) = script w"
  shows "spends (on_error m d)"
  by (rule spendsI)
    (auto simp: on_error_def d split: prod.splits sum.splits stop.splits dest: spendsD [OF m])

lemma script_drop_file [simp]: "script (drop_file f w) = script w"
  by (simp add: drop_file_def)

lemma spends_if_world [spends_intros]:
  "spends a \<Longrightarrow> spends b \<Longrightarrow> spends (\<lambda>w. if c w then a w else b w)"
  by (simp add: spends_def)

lemma spends_map_err [spends_intros]: "spends m \<Longrightarrow> spends (map_err f m)"
  by (rule spendsI) (auto simp: map_err_def split: prod.splits sum.splits stop.splits dest: spendsD)

lemma flock_wait_script: "flock_wait f m sc s = (r, s', sc') \<Longrightarrow> length sc' \<le> length sc"
proof (induction f m sc s arbitrary: r s' sc' rule: flock_wait.induct)
  case (1 f m s)
  then show ?case by (auto split: if_splits)
next
  case (2 f m g failure rest s)
  then show ?case
    by (fastforce split: option.splits if_splits)
qed

lemma spends_file_lock [spends_intros]: "spends (file_lock f m)"
  by (rule spendsI) (auto simp: file_lock_def split: prod.splits dest!: flock_wait_script)

end
