(* ===== verification/Errors.thy ===== *)
theory Errors
  imports Os
begin

text \<open>
  The cache's error type (\<open>crates/unixd-cache/src/error.rs\<close>). \<open>Error::io\<close> keeps the kind
  of an OS error and nothing else, so it is the constructor \<open>Io\<close>. The text of an OS error
  kind is the standard library's and is an argument of \<open>error_display\<close>.
\<close>

datatype error =
    UnsafeRoot
  | Io error_kind
  | Lock
  | DuplicateKeyPart str
  | Encode

type_synonym 'a cache_io = "(world, error, 'a) io"

definition error_io :: "error_kind \<Rightarrow> error" where
  "error_io k = Io k"

definition error_display :: "(error_kind \<Rightarrow> str) \<Rightarrow> error \<Rightarrow> str" where
  "error_display kind_text e = (case e of
     UnsafeRoot \<Rightarrow> ''cache root is not a private directory''
   | Io k \<Rightarrow> ''cache I/O failed: '' @ kind_text k
   | Lock \<Rightarrow> ''cache lock could not be taken''
   | DuplicateKeyPart name \<Rightarrow> ''key part `'' @ name @ ''` given twice''
   | Encode \<Rightarrow> ''value could not be serialized'')"

text \<open>\<open>.map_err(|error| Error::io(&error))\<close>\<close>

definition io :: "'a syscall \<Rightarrow> 'a cache_io" where
  "io m = map_err error_io m"

end
