(* ===== verification/Private.thy ===== *)
theory Private
  imports Errors
begin

text \<open>
  \<open>crates/unixd-cache/src/private.rs\<close>: private directories, private lock files, and reads
  that never follow a symbolic link. Every function has the source's name (\<open>read\<close> and
  \<open>remove\<close> carry the module's name); each early return closes the files it opened, which
  releases their locks, as the drops of the source do. The two loops, \<open>ensure_dir\<close> when
  another caller makes the directory first and \<open>lock_exclusive\<close> when the lock file it
  waited for was deleted, stop because each further round uses up a move of the script.
\<close>

section \<open>Directories\<close>

definition owned :: "metadata \<Rightarrow> world \<Rightarrow> bool" where
  "owned m w \<longleftrightarrow> uid (m_node m) = euid w"

definition is_dir :: "metadata \<Rightarrow> bool" where
  "is_dir m \<longleftrightarrow> kind (m_node m) = Directory"

definition is_file :: "metadata \<Rightarrow> bool" where
  "is_file m \<longleftrightarrow> kind (m_node m) = Regular"

text \<open>\<open>Metadata::len\<close>\<close>

definition m_len :: "metadata \<Rightarrow> u64" where
  "m_len m = u64_or_max (length (data (m_node m)))"

definition set_mode :: "path \<Rightarrow> u32 \<Rightarrow> unit cache_io" where
  "set_mode p m = io (set_permissions p m)"

text \<open>\<open>0o700\<close> and \<open>0o600\<close>\<close>

definition mode_dir :: u32 where
  "mode_dir = 448"

definition mode_file :: u32 where
  "mode_file = 384"

definition validate_root :: "path \<Rightarrow> unit cache_io" where
  "validate_root root w = (case symlink_metadata root w of
     (Inl Pending, w1) \<Rightarrow> (Inl Pending, w1)
   | (Inl (Err e), w1) \<Rightarrow> fail UnsafeRoot w1
   | (Inr m, w1) \<Rightarrow>
       if \<not> is_dir m \<or> \<not> owned m w1 then fail UnsafeRoot w1
       else set_mode root mode_dir w1)"

definition ensure_root :: "path \<Rightarrow> unit cache_io" where
  "ensure_root root w = (case symlink_metadata root w of
     (Inl Pending, w1) \<Rightarrow> (Inl Pending, w1)
   | (Inr m, w1) \<Rightarrow> validate_root root w1
   | (Inl (Err e), w1) \<Rightarrow>
       if e = NotFound
       then andThen (io (create_dir_all root)) (\<lambda>_. validate_root root) w1
       else fail (error_io e) w1)"

lemma mkdir_race:
  assumes "symlink_metadata p w = (Inl (Err NotFound), w1)"
    and "create_dir p w1 = (Inl (Err AlreadyExists), w2)"
  shows "length (script w2) < length (script w)"
proof (cases "script w")
  case Nil
  with assms(1) have "w1 = w" and "ino_at (fs w) p = None"
    by (auto simp: symlink_metadata_def sys_def stat_os_def split: option.splits)
  with assms(2) Nil have False
    by (auto simp: create_dir_def sys_def mkdir_os_def parent_error_def
        split: option.splits prod.splits if_splits)
  then show ?thesis ..
next
  case (Cons mv rest)
  from assms have "script w1 = tl (script w)" and "script w2 = tl (script w1)"
    by (auto simp: symlink_metadata_def create_dir_def dest: script_sys)
  with Cons show ?thesis by simp
qed

function ensure_dir :: "path \<Rightarrow> unit cache_io" where
  "ensure_dir p w = (case symlink_metadata p w of
     (Inl Pending, w1) \<Rightarrow> (Inl Pending, w1)
   | (Inr m, w1) \<Rightarrow>
       if is_dir m \<and> owned m w1 then set_mode p mode_dir w1 else fail UnsafeRoot w1
   | (Inl (Err e), w1) \<Rightarrow>
       if e = NotFound
       then (case create_dir p w1 of
           (Inr _, w2) \<Rightarrow> set_mode p mode_dir w2
         | (Inl Pending, w2) \<Rightarrow> (Inl Pending, w2)
         | (Inl (Err e'), w2) \<Rightarrow>
             if e' = AlreadyExists then ensure_dir p w2 else fail (error_io e') w2)
       else fail (error_io e) w1)"
  by pat_completeness auto
termination
  by (relation "measure (\<lambda>(p, w). length (script w))") (auto intro: mkdir_race [OF sym sym])

declare ensure_dir.simps [simp del]

section \<open>Lock files\<close>

definition lock_flags :: open_flags where
  "lock_flags = \<lparr>o_rdwr = True, o_create = True, o_nofollow = True, o_nonblock = False\<rparr>"

text \<open>The checks on the opened lock file, and its mode.\<close>

definition secure_lock :: "handle \<Rightarrow> handle cache_io" where
  "secure_lock f = andThen (io (file_metadata f)) (\<lambda>m w.
     if \<not> is_file m \<or> \<not> owned m w then fail UnsafeRoot w
     else andThen (io (fchmod f mode_file)) (\<lambda>_. ok f) w)"

definition open_lock :: "path \<Rightarrow> handle cache_io" where
  "open_lock p w = (case open_with lock_flags mode_file p w of
     (Inl Pending, w1) \<Rightarrow> (Inl Pending, w1)
   | (Inl (Err errno), w1) \<Rightarrow> (case symlink_metadata p w1 of
       (Inl Pending, w2) \<Rightarrow> (Inl Pending, w2)
     | (Inl (Err _), w2) \<Rightarrow> fail (error_io errno) w2
     | (Inr m, w2) \<Rightarrow> fail (if \<not> is_file m then UnsafeRoot else error_io errno) w2)
   | (Inr f, w1) \<Rightarrow>
on_error (secure_lock f) (drop_file f) w1)"

record held =
  h_path :: path
  h_file :: handle

text \<open>\<open>Drop for Held\<close>: the file is deleted first, then the lock is released.\<close>

definition drop_held :: "held \<Rightarrow> world \<Rightarrow> world" where
  "drop_held h w = drop_file (h_file h) (snd (remove_file (h_path h) w))"

definition names :: "path \<Rightarrow> handle \<Rightarrow> bool cache_io" where
  "names p f = andThen (io (file_metadata f)) (\<lambda>held w. case symlink_metadata p w of
     (Inl Pending, w1) \<Rightarrow> (Inl Pending, w1)
   | (Inr named, w1) \<Rightarrow> (Inr (m_ino named = m_ino held), w1)
   | (Inl (Err e), w1) \<Rightarrow>
       if e = NotFound then (Inr False, w1) else fail (error_io e) w1)"

text \<open>\<open>file.lock().map_err(|_| Error::Lock)\<close>\<close>

definition take_lock :: "handle \<Rightarrow> lock_mode \<Rightarrow> unit cache_io" where
  "take_lock f m = map_err (\<lambda>_. Lock) (file_lock f m)"

lemma open_lock_ino:
  assumes "open_lock p w = (Inr f, w1)" and "calm w"
  shows "calm w1 \<and> ino_at (fs w1) p = Some (f_ino f)"
proof -
  from assms obtain f' w0 where o: "open_with lock_flags mode_file p w = (Inr f', w0)"
    and f: "secure_lock f' w0 = (Inr f, w1)"
    by (auto simp: open_lock_def on_error_def
        split: prod.splits sum.splits stop.splits if_splits)
  from o assms(2) have "calm w0" and "ino_at (fs w0) p = Some (f_ino f')"
    by (auto simp: open_with_def sys_def calm_def open_os_def lock_flags_def Let_def
        add_node_def ino_at_def map_add_def
        split: option.splits prod.splits if_splits ftype.splits)
  with f show ?thesis
    by (auto simp: secure_lock_def andThen_eq_Inr_iff io_def map_err_eq_Inr_iff file_metadata_def
        fchmod_def sys_def calm_def fstat_os_def fchmod_os_def set_node_def ino_at_def
        split: if_splits)
qed

lemma spends_take_lock [spends_intros]: "spends (take_lock f m)"
  by (simp add: take_lock_def spends_intros)

lemma spends_names [spends_intros]: "spends (names p f)"
  unfolding names_def io_def file_metadata_def symlink_metadata_def
  by (intro spends_intros spendsI)
    (auto simp: fail_def split: prod.splits sum.splits stop.splits if_splits dest!: script_sys)

lemma spends_secure_lock [spends_intros]: "spends (secure_lock f)"
  unfolding secure_lock_def io_def file_metadata_def fchmod_def
  by (intro spends_intros)

lemma spends_open_lock:
  assumes "open_lock p w = (r, w1)" and "script w \<noteq> []"
  shows "length (script w1) < length (script w)"
proof -
  obtain x w0 where o: "open_with lock_flags mode_file p w = (x, w0)"
    by (cases "open_with lock_flags mode_file p w")
  then have w0: "length (script w0) < length (script w)"
    using assms(2) by (cases "script w") (auto simp: open_with_def dest!: script_sys)
  have secured: "spends (on_error (secure_lock f) (drop_file f))" for f
    by (intro spends_intros) simp
  have "length (script w1) \<le> length (script w0)"
    using assms(1) o
    by (auto simp: open_lock_def symlink_metadata_def fail_def
        split: prod.splits sum.splits stop.splits
        dest!: script_sys spendsD [OF secured])
  with w0 show ?thesis by simp
qed

lemma lock_race:
  assumes "open_lock p w = (Inr f, w1)" and "take_lock f Exclusive w1 = (Inr u, w2)"
    and "names p f w2 = (Inr False, w3)"
  shows "length (script w3) < length (script w)"
proof (cases "script w")
  case Nil
  with assms(1) have w1: "script w1 = []" "ino_at (fs w1) p = Some (f_ino f)"
    by (auto dest!: open_lock_ino simp: calm_def)
  with assms(2) have w2: "script w2 = []" "ino_at (fs w2) p = Some (f_ino f)"
    by (auto simp: take_lock_def map_err_eq_Inr_iff file_lock_def grant_def ino_at_def
        split: prod.splits if_splits)
  with assms(3) have False
    by (auto simp: names_def andThen_eq_Inr_iff io_def map_err_eq_Inr_iff file_metadata_def
        symlink_metadata_def sys_def fstat_os_def stat_os_def)
  then show ?thesis ..
next
  case (Cons mv rest)
  from assms(1) have "length (script w1) < length (script w)"
    by (rule spends_open_lock) (simp add: Cons)
  moreover from assms(2) have "length (script w2) \<le> length (script w1)"
    by (rule spendsD [OF spends_take_lock])
  moreover from assms(3) have "length (script w3) \<le> length (script w2)"
    by (rule spendsD [OF spends_names])
  ultimately show ?thesis by simp
qed

function lock_exclusive :: "path \<Rightarrow> held cache_io" where
  "lock_exclusive p w = (case open_lock p w of
     (Inl e, w1) \<Rightarrow> (Inl e, w1)
   | (Inr f, w1) \<Rightarrow> (case take_lock f Exclusive w1 of
       (Inl Pending, w2) \<Rightarrow> (Inl Pending, w2)
     | (Inl (Err e), w2) \<Rightarrow> (Inl (Err e), drop_file f w2)
     | (Inr _, w2) \<Rightarrow> (case names p f w2 of
         (Inl Pending, w3) \<Rightarrow> (Inl Pending, w3)
       | (Inl (Err e), w3) \<Rightarrow> (Inl (Err e), drop_file f w3)
       | (Inr same, w3) \<Rightarrow>
           if same then (Inr \<lparr>h_path = p, h_file = f\<rparr>, w3)
           else lock_exclusive p (drop_file f w3))))"
  by pat_completeness auto
termination
  by (relation "measure (\<lambda>(p, w). length (script w))") (auto intro: lock_race [OF sym sym sym])

declare lock_exclusive.simps [simp del]

definition try_lock_exclusive :: "path \<Rightarrow> held option cache_io" where
  "try_lock_exclusive p = andThen (open_lock p) (\<lambda>f w1. case file_try_lock f Exclusive w1 of
     (Inl Pending, w2) \<Rightarrow> (Inl Pending, w2)
   | (Inl (Err TryWouldBlock), w2) \<Rightarrow> (Inr None, drop_file f w2)
   | (Inl (Err (TryError e)), w2) \<Rightarrow> (Inl (Err (error_io e)), drop_file f w2)
   | (Inr _, w2) \<Rightarrow> (case names p f w2 of
       (Inl Pending, w3) \<Rightarrow> (Inl Pending, w3)
     | (Inl (Err e), w3) \<Rightarrow> (Inl (Err e), drop_file f w3)
     | (Inr same, w3) \<Rightarrow>
         if same then (Inr (Some \<lparr>h_path = p, h_file = f\<rparr>), w3)
         else (Inr None, drop_file f w3)))"

section \<open>Files\<close>

text \<open>Removes whatever is at \<open>p\<close>; nothing there is no error.\<close>

definition private_remove :: "path \<Rightarrow> unit cache_io" where
  "private_remove p w =
    (let result = (case symlink_metadata p w of
        (Inr m, w1) \<Rightarrow> if is_dir m then remove_dir_all p w1 else remove_file p w1
      | (Inl e, w1) \<Rightarrow> (Inl e, w1))
     in (case result of
        (Inl Pending, w2) \<Rightarrow> (Inl Pending, w2)
      | (Inl (Err e), w2) \<Rightarrow> if e \<noteq> NotFound then fail (error_io e) w2 else (Inr (), w2)
      | (Inr _, w2) \<Rightarrow> (Inr (), w2)))"

definition regular :: "path \<Rightarrow> metadata option cache_io" where
  "regular p w = (case symlink_metadata p w of
     (Inl Pending, w1) \<Rightarrow> (Inl Pending, w1)
   | (Inr m, w1) \<Rightarrow>
       if is_file m then (Inr (Some m), w1)
       else andThen (private_remove p) (\<lambda>_. ok None) w1
   | (Inl (Err e), w1) \<Rightarrow> if e = NotFound then (Inr None, w1) else fail (error_io e) w1)"

definition read_flags :: open_flags where
  "read_flags = \<lparr>o_rdwr = False, o_create = False, o_nofollow = True, o_nonblock = True\<rparr>"

definition private_read :: "path \<Rightarrow> u64 \<Rightarrow> (u8 list \<times> metadata) option cache_io" where
  "private_read p limit w = (case open_with read_flags 0 p w of
     (Inl Pending, w1) \<Rightarrow> (Inl Pending, w1)
   | (Inl (Err errno), w1) \<Rightarrow>
       if errno = NotFound then (Inr None, w1)
       else (case symlink_metadata p w1 of
           (Inl Pending, w2) \<Rightarrow> (Inl Pending, w2)
         | (Inr m, w2) \<Rightarrow> if \<not> is_file m then (Inr None, w2) else fail (error_io errno) w2
         | (Inl (Err e), w2) \<Rightarrow> if e = NotFound then (Inr None, w2) else fail (error_io errno) w2)
   | (Inr f, w1) \<Rightarrow> scoped
       (andThen (io (file_metadata f)) (\<lambda>m.
          if \<not> is_file m \<or> m_len m > limit then ok None
          else andThen (io (read_up_to f (unat (saturating_add limit 1)))) (\<lambda>bytes.
            if u64_or_max (length bytes) > limit then ok None
            else ok (Some (bytes, m)))))
       (drop_file f) w1)"

text \<open>
  \<open>tempfile\<close>: a new file under a name the library picks (\<open>temp\<close>, an argument here), deleted
  when its handle is dropped before it is persisted.
\<close>

definition drop_temp :: "path \<Rightarrow> handle \<Rightarrow> world \<Rightarrow> world" where
  "drop_temp p f w = drop_file f (snd (remove_file p w))"

definition create_private :: "str \<Rightarrow> path \<Rightarrow> str \<Rightarrow> u8 list \<Rightarrow> unit cache_io" where
  "create_private temp dir name bytes w = (let target = dir @ [name]; tmp = dir @ [temp] in
     (case symlink_metadata target w of
        (Inl Pending, w1) \<Rightarrow> (Inl Pending, w1)
      | (Inr _, w1) \<Rightarrow> (Inr (), w1)
      | (Inl (Err _), w1) \<Rightarrow>
          andThen (io (create_new tmp)) (\<lambda>f w2.
            case io (write_all f bytes) w2 of
              (Inl Pending, w3) \<Rightarrow> (Inl Pending, w3)
            | (Inl (Err e), w3) \<Rightarrow> (Inl (Err e), drop_temp tmp f w3)
            | (Inr _, w3) \<Rightarrow> (case rename_new tmp target w3 of
                (Inl Pending, w4) \<Rightarrow> (Inl Pending, w4)
              | (Inr _, w4) \<Rightarrow> (Inr (), drop_file f w4)
              | (Inl (Err e), w4) \<Rightarrow>
                  if e = AlreadyExists then (Inr (), drop_temp tmp f w4)
                  else (Inl (Err (error_io e)), drop_temp tmp f w4))) w1))"

definition touch :: "path \<Rightarrow> int \<Rightarrow> unit cache_io" where
  "touch p t = andThen (io (open_with read_flags 0 p)) (\<lambda>f.
     scoped (io (set_modified f t)) (drop_file f))"

definition sync_dir :: "path \<Rightarrow> unit cache_io" where
  "sync_dir p = andThen (io (file_open p)) (\<lambda>d. scoped (io (sync_all d)) (drop_file d))"

end
