(* ===== verification/Key.thy ===== *)
theory Key
  imports Errors "HOL-Library.Char_ord" "HOL-Library.List_Lexorder"
begin

unbundle bit_operations_syntax

text \<open>
  \<open>crates/unixd-cache/src/key.rs\<close>: a cache key is a namespace and the hex SHA-256 digest of
  the format version, the namespace and the named parts, each field length-prefixed. The
  parts live in a \<open>BTreeMap\<close>, here the association list of its entries in ascending order of
  the names (a Rust string compares by its bytes). SHA-256 itself is an argument.
\<close>

section \<open>Definitions\<close>

definition format_version :: u8 where
  "format_version = 1"

record key =
  namespace :: str
  digest :: str

record key_builder =
  b_namespace :: str
  parts :: "(str \<times> str) list"

definition builder :: "str \<Rightarrow> key_builder" where
  "builder ns = \<lparr>b_namespace = ns, parts = []\<rparr>"

text \<open>\<open>BTreeMap::insert\<close>: the new entries, and the value the name had before.\<close>

fun btree_insert :: "str \<Rightarrow> str \<Rightarrow> (str \<times> str) list \<Rightarrow> str option \<times> (str \<times> str) list" where
  "btree_insert k v [] = (None, [(k, v)])"
| "btree_insert k v ((k', v') # xs) =
     (if k < k' then (None, (k, v) # (k', v') # xs)
      else if k = k' then (Some v', (k, v) # xs)
      else (case btree_insert k v xs of (old, ys) \<Rightarrow> (old, (k', v') # ys)))"

definition part :: "str \<Rightarrow> str \<Rightarrow> key_builder \<Rightarrow> error + key_builder" where
  "part name value b = (case btree_insert name value (parts b) of
     (Some _, _) \<Rightarrow> Inl (DuplicateKeyPart name)
   | (None, ps) \<Rightarrow> Inr (b\<lparr>parts := ps\<rparr>))"

text \<open>A chain of \<open>.part(..)?\<close> calls.\<close>

fun add_parts :: "(str \<times> str) list \<Rightarrow> key_builder \<Rightarrow> error + key_builder" where
  "add_parts [] b = Inr b"
| "add_parts ((n, v) # nvs) b = (case part n v b of
     Inl e \<Rightarrow> Inl e
   | Inr b' \<Rightarrow> add_parts nvs b')"

text \<open>\<open>u64::to_le_bytes\<close>\<close>

definition to_le_bytes :: "u64 \<Rightarrow> u8 list" where
  "to_le_bytes w = map (\<lambda>i. ucast (drop_bit (8 * i) w)) [0..<8]"

definition as_bytes :: "str \<Rightarrow> u8 list" where
  "as_bytes s = map (\<lambda>c. of_nat (of_char c)) s"

text \<open>What \<open>feed\<close> gives the hasher for one field.\<close>

definition feed :: "str \<Rightarrow> u8 list" where
  "feed field = to_le_bytes (u64_or_max (length field)) @ as_bytes field"

definition hash_input :: "key_builder \<Rightarrow> u8 list" where
  "hash_input b = format_version # feed (b_namespace b) @
     concat (map (\<lambda>(name, value). feed name @ feed value) (parts b))"

definition digits :: str where
  "digits = ''0123456789abcdef''"

definition hex_byte :: "u8 \<Rightarrow> str" where
  "hex_byte byte = [digits ! unat (drop_bit 4 byte), digits ! unat (byte AND 15)]"

definition hex :: "u8 list \<Rightarrow> str" where
  "hex bytes = concat (map hex_byte bytes)"

definition build :: "(u8 list \<Rightarrow> u8 list) \<Rightarrow> key_builder \<Rightarrow> key" where
  "build sha256 b = \<lparr>namespace = b_namespace b, digest = hex (sha256 (hash_input b))\<rparr>"

section \<open>The parts of a builder\<close>

definition parts_ok :: "key_builder \<Rightarrow> bool" where
  "parts_ok b \<longleftrightarrow> sorted_wrt (<) (map fst (parts b))"

lemma btree_insert_old: "sorted_wrt (<) (map fst xs) \<Longrightarrow> fst (btree_insert k v xs) = map_of xs k"
proof (induction xs)
  case Nil
  then show ?case by simp
next
  case (Cons x xs)
  obtain k' v' where x: "x = (k', v')" by (cases x)
  show ?case
  proof (cases "k < k'")
    case True
    with Cons.prems x have "k \<notin> fst ` set xs" by fastforce
    with True x show ?thesis by (auto simp: map_of_eq_None_iff [symmetric])
  next
    case False
    with Cons x show ?thesis by (auto split: prod.splits)
  qed
qed

lemma btree_insert_set:
  "fst (btree_insert k v xs) = None \<Longrightarrow> set (snd (btree_insert k v xs)) = insert (k, v) (set xs)"
  by (induction xs) (auto split: prod.splits if_splits)

lemma btree_insert_keys: "fst ` set (snd (btree_insert k v xs)) = insert k (fst ` set xs)"
proof (induction xs)
  case Nil
  then show ?case by simp
next
  case (Cons x xs)
  then show ?case
    by (cases x; cases "btree_insert k v xs") (auto simp: insert_commute)
qed

lemma btree_insert_sorted:
  "sorted_wrt (<) (map fst xs) \<Longrightarrow> sorted_wrt (<) (map fst (snd (btree_insert k v xs)))"
proof (induction xs)
  case Nil
  then show ?case by simp
next
  case (Cons x xs)
  obtain k' v' where x: "x = (k', v')" by (cases x)
  show ?case
  proof (cases "k < k' \<or> k = k'")
    case True
    with Cons.prems x show ?thesis by (auto intro: order.strict_trans)
  next
    case False
    then have "k' < k" by auto
    moreover from Cons have "sorted_wrt (<) (map fst (snd (btree_insert k v xs)))" by simp
    moreover from Cons.prems x \<open>k' < k\<close>
    have "\<forall>y \<in> fst ` set (snd (btree_insert k v xs)). k' < y"
      by (auto simp: btree_insert_keys)
    ultimately show ?thesis
      using x False by (auto split: prod.splits)
  qed
qed

lemma part_eq:
  assumes "parts_ok b"
  shows "part n v b = (if n \<in> fst ` set (parts b) then Inl (DuplicateKeyPart n)
           else Inr (b\<lparr>parts := snd (btree_insert n v (parts b))\<rparr>))"
proof (cases "map_of (parts b) n")
  case None
  with assms btree_insert_old [of "parts b" n v] have "fst (btree_insert n v (parts b)) = None"
    by (simp add: parts_ok_def)
  with None show ?thesis
    by (auto simp: part_def map_of_eq_None_iff split: prod.splits)
next
  case (Some v')
  with assms btree_insert_old [of "parts b" n v] have "fst (btree_insert n v (parts b)) = Some v'"
    by (simp add: parts_ok_def)
  moreover from Some have "n \<in> fst ` set (parts b)" by (metis map_of_eq_None_iff option.discI)
  ultimately show ?thesis
    by (auto simp: part_def split: prod.splits)
qed

lemma part_Inr:
  assumes b: "parts_ok b" and "part n v b = Inr b'"
  shows "parts_ok b' \<and> b_namespace b' = b_namespace b \<and> set (parts b') = insert (n, v) (set (parts b))
    \<and> n \<notin> fst ` set (parts b)"
proof -
  from assms have n: "n \<notin> fst ` set (parts b)"
    and b': "b' = b\<lparr>parts := snd (btree_insert n v (parts b))\<rparr>"
    by (auto simp: part_eq split: if_splits)
  from b n btree_insert_old [of "parts b" n v] have "fst (btree_insert n v (parts b)) = None"
    by (simp add: parts_ok_def map_of_eq_None_iff)
  with b b' n show ?thesis
    by (simp add: parts_ok_def btree_insert_sorted btree_insert_set)
qed

lemma add_parts_Inr:
  "parts_ok b \<Longrightarrow> add_parts nvs b = Inr b' \<Longrightarrow>
    parts_ok b' \<and> b_namespace b' = b_namespace b \<and> set (parts b') = set nvs \<union> set (parts b)
    \<and> distinct (map fst nvs) \<and> fst ` set nvs \<inter> fst ` set (parts b) = {}"
proof (induction nvs arbitrary: b)
  case Nil
  then show ?case by simp
next
  case (Cons x nvs)
  obtain n v where x: "x = (n, v)" by (cases x)
  with Cons.prems obtain b1 where b1: "part n v b = Inr b1" and rest: "add_parts nvs b1 = Inr b'"
    by (auto split: sum.splits)
  from part_Inr [OF Cons.prems(1) b1] Cons.IH [OF _ rest] x show ?case by auto
qed

lemma add_parts_total:
  "parts_ok b \<Longrightarrow> distinct (map fst nvs) \<Longrightarrow> fst ` set nvs \<inter> fst ` set (parts b) = {} \<Longrightarrow>
    \<exists>b'. add_parts nvs b = Inr b'"
proof (induction nvs arbitrary: b)
  case Nil
  then show ?case by simp
next
  case (Cons x nvs)
  obtain n v where x: "x = (n, v)" by (cases x)
  with Cons.prems have "n \<notin> fst ` set (parts b)" by auto
  with Cons.prems(1) obtain b1 where b1: "part n v b = Inr b1"
    by (simp add: part_eq)
  from part_Inr [OF Cons.prems(1) b1] Cons.prems x have "\<exists>b'. add_parts nvs b1 = Inr b'"
    by (intro Cons.IH) auto
  with b1 x show ?case by simp
qed

lemma sorted_keys_unique:
  assumes "sorted_wrt (<) (map fst xs)" and "sorted_wrt (<) (map fst ys)" and "set xs = set ys"
  shows "xs = (ys :: (str \<times> str) list)"
proof (rule map_sorted_distinct_set_unique [where f = fst])
  from assms(1,3) show "inj_on fst (set xs \<union> set ys)"
    by (simp add: strict_sorted_iff distinct_map)
qed (use assms in \<open>auto simp: strict_sorted_iff\<close>)

lemma parts_ok_builder [simp]: "parts_ok (builder ns)"
  by (simp add: parts_ok_def builder_def)

section \<open>The hashed bytes determine the key\<close>

lemma length_to_le_bytes [simp]: "length (to_le_bytes w) = 8"
  by (simp add: to_le_bytes_def)

lemma to_le_bytes_inj: "to_le_bytes v = to_le_bytes w \<Longrightarrow> v = w"
proof (rule bit_word_eqI)
  fix n
  assume eq: "to_le_bytes v = to_le_bytes w" and n: "n < LENGTH(64)"
  let ?i = "n div 8"
  from n have "?i < 8" by simp
  with eq have "(ucast (drop_bit (8 * ?i) v) :: u8) = ucast (drop_bit (8 * ?i) w)"
    by (simp add: to_le_bytes_def)
  then have "bit (ucast (drop_bit (8 * ?i) v) :: u8) (n mod 8)
      = bit (ucast (drop_bit (8 * ?i) w) :: u8) (n mod 8)"
    by simp
  then show "bit v n = bit w n"
    by (simp add: bit_ucast_iff bit_drop_bit_eq)
qed

lemma length_as_bytes [simp]: "length (as_bytes s) = length s"
  by (simp add: as_bytes_def)

lemma byte_of_char_inj: "(of_nat (of_char c) :: u8) = of_nat (of_char d) \<Longrightarrow> c = d"
proof -
  assume "(of_nat (of_char c) :: u8) = of_nat (of_char d)"
  then have "unat (of_nat (of_char c) :: u8) = unat (of_nat (of_char d) :: u8)" by simp
  then have "(of_char c :: nat) = of_char d"
    using nat_of_char_less_256 [of c] nat_of_char_less_256 [of d]
    by (simp add: unat_of_nat take_bit_nat_eq_self)
  then show "c = d" by (metis char_of_char)
qed

lemma as_bytes_inj: "as_bytes s = as_bytes t \<Longrightarrow> s = t"
  by (auto simp: as_bytes_def intro: map_injective injI dest: byte_of_char_inj)

lemma feed_inj:
  assumes "length a < 2 ^ 64" and "length b < 2 ^ 64" and "feed a @ xs = feed b @ ys"
  shows "a = b \<and> xs = ys"
proof -
  from assms(3) have le: "to_le_bytes (u64_or_max (length a)) = to_le_bytes (u64_or_max (length b))"
    and rest: "as_bytes a @ xs = as_bytes b @ ys"
    by (simp_all add: feed_def)
  from le have "unat (u64_or_max (length a)) = unat (u64_or_max (length b))"
    by (auto dest: to_le_bytes_inj)
  with assms(1,2) have "length a = length b"
    by (simp add: sat_simps min_def split: if_splits)
  with rest have "as_bytes a = as_bytes b" and "xs = ys" by simp_all
  then show ?thesis by (auto dest: as_bytes_inj)
qed

lemma feed_not_Nil: "feed a @ xs \<noteq> []"
  using length_to_le_bytes [of "u64_or_max (length a)"]
  by (auto simp: feed_def simp del: length_to_le_bytes)

text \<open>Every field of a builder is shorter than \<open>2 ^ 64\<close> bytes, as any Rust string is.\<close>

definition fields_fit :: "key_builder \<Rightarrow> bool" where
  "fields_fit b \<longleftrightarrow> length (b_namespace b) < 2 ^ 64 \<and>
     (\<forall>(n, v) \<in> set (parts b). length n < 2 ^ 64 \<and> length v < 2 ^ 64)"

lemma feed_parts_inj:
  assumes "\<forall>(n, v) \<in> set xs. length n < 2 ^ 64 \<and> length v < 2 ^ 64"
    and "\<forall>(n, v) \<in> set ys. length n < 2 ^ 64 \<and> length v < 2 ^ 64"
    and "concat (map (\<lambda>(n, v). feed n @ feed v) xs) = concat (map (\<lambda>(n, v). feed n @ feed v) ys)"
  shows "xs = ys"
  using assms
proof (induction xs arbitrary: ys)
  case Nil
  then show ?case using feed_not_Nil by (cases ys) auto
next
  case (Cons x xs)
  obtain n v where x: "x = (n, v)" by (cases x)
  show ?case
  proof (cases ys)
    case Nil
    with Cons.prems(3) x show ?thesis using feed_not_Nil by auto
  next
    case (Cons y ys')
    obtain m u where y: "y = (m, u)" by (cases y)
    let ?rest = "\<lambda>zs. concat (map (\<lambda>(n, v). feed n @ feed v) zs)"
    from Cons.prems(3) x Cons y have "feed n @ (feed v @ ?rest xs) = feed m @ (feed u @ ?rest ys')"
      by simp
    with Cons.prems(1,2) x Cons y have n: "n = m" and "feed v @ ?rest xs = feed u @ ?rest ys'"
      by (auto dest!: feed_inj [rotated 2])
    with Cons.prems(1,2) x Cons y have v: "v = u" and "?rest xs = ?rest ys'"
      by (auto dest!: feed_inj [rotated 2])
    with Cons.IH [of ys'] Cons.prems(1,2) Cons have "xs = ys'" by simp
    with n v x y Cons show ?thesis by simp
  qed
qed

lemma hash_input_inj:
  assumes "fields_fit a" and "fields_fit b" and "hash_input a = hash_input b"
  shows "a = b"
proof -
  from assms(3) have "feed (b_namespace a) @ concat (map (\<lambda>(n, v). feed n @ feed v) (parts a))
      = feed (b_namespace b) @ concat (map (\<lambda>(n, v). feed n @ feed v) (parts b))"
    by (simp add: hash_input_def)
  with assms(1,2) have ns: "b_namespace a = b_namespace b"
    and "concat (map (\<lambda>(n, v). feed n @ feed v) (parts a))
      = concat (map (\<lambda>(n, v). feed n @ feed v) (parts b))"
    by (auto simp: fields_fit_def dest!: feed_inj [rotated 2])
  with assms(1,2) have "parts a = parts b"
    by (intro feed_parts_inj) (auto simp: fields_fit_def)
  with ns show ?thesis by simp
qed

section \<open>Hex digests\<close>

definition is_ascii_hexdigit :: "char \<Rightarrow> bool" where
  "is_ascii_hexdigit c \<longleftrightarrow> c \<in> set ''0123456789abcdefABCDEF''"

lemma nibble_bounds:
  "unat (drop_bit 4 (b :: u8)) < 16" "unat (b AND 15) < 16"
proof -
  have "unat (drop_bit 4 b) = unat b div 16"
    using unat_less_u8 [of b]
    by (simp only: unsigned_drop_bit_eq) (simp add: drop_bit_eq_div take_bit_nat_eq_self)
  then show "unat (drop_bit 4 b) < 16"
    using unat_less_u8 [of b] by simp
  have "(15 :: u8) = mask 4" by (simp add: mask_eq_exp_minus_1)
  then have "b AND 15 = take_bit 4 b" by (simp only: take_bit_eq_mask)
  then show "unat (b AND 15) < 16"
    by (simp add: unat_mod_distrib take_bit_eq_mod)
qed

lemma length_hex [simp]: "length (hex bs) = 2 * length bs"
  by (induction bs) (simp_all add: hex_def hex_byte_def)

lemma digits_hexdigit: "n < 16 \<Longrightarrow> is_ascii_hexdigit (digits ! n)"
proof -
  assume "n < 16"
  then have "digits ! n \<in> set digits" by (intro nth_mem) (simp add: digits_def)
  then show ?thesis by (auto simp: digits_def is_ascii_hexdigit_def)
qed

lemma hex_hexdigits: "list_all is_ascii_hexdigit (hex bs)"
  by (induction bs) (auto simp: hex_def hex_byte_def digits_hexdigit nibble_bounds)

lemma digits_inj: "i < 16 \<Longrightarrow> j < 16 \<Longrightarrow> digits ! i = digits ! j \<Longrightarrow> i = j"
  by (rule nth_eq_iff_index_eq [THEN iffD1, of digits]) (simp_all add: digits_def)

lemma hex_byte_inj: "hex_byte a = hex_byte b \<Longrightarrow> a = b"
proof -
  assume "hex_byte a = hex_byte b"
  then have "digits ! unat (drop_bit 4 a) = digits ! unat (drop_bit 4 b)"
    and "digits ! unat (a AND 15) = digits ! unat (b AND 15)"
    by (simp_all add: hex_byte_def)
  then have "unat (drop_bit 4 a) = unat (drop_bit 4 b)" and "unat (a AND 15) = unat (b AND 15)"
    by (auto dest: digits_inj [OF nibble_bounds(1) nibble_bounds(1)]
        digits_inj [OF nibble_bounds(2) nibble_bounds(2)])
  then have hi: "drop_bit 4 a = drop_bit 4 b" and lo: "a AND 15 = b AND 15"
    by (simp_all add: word_unat_eq_iff)
  have fifteen: "(15 :: u8) = mask 4" by (simp add: mask_eq_exp_minus_1)
  from lo have "take_bit 4 a = take_bit 4 b" by (simp only: fifteen take_bit_eq_mask)
  with hi show "a = b" by (metis bits_ident)
qed

lemma hex_inj: "hex a = hex b \<Longrightarrow> a = b"
proof (induction a arbitrary: b)
  case Nil
  then have "length (hex b) = 0" by (metis length_hex list.size(3) mult_0_right)
  then show ?case by simp
next
  case (Cons x a)
  from Cons.prems have "length (hex b) = Suc (Suc (length (hex a)))"
    by (metis add_2_eq_Suc length_Cons length_hex mult_Suc_right)
  then obtain y b' where b: "b = y # b'" by (cases b) auto
  with Cons.prems have "hex_byte x @ hex a = hex_byte y @ hex b'" by (simp add: hex_def)
  then have "hex_byte x = hex_byte y" and "hex a = hex b'"
    by (simp_all add: hex_byte_def)
  with Cons.IH b show ?case by (simp add: hex_byte_inj)
qed

end
