(* ===== verification/Policy.thy ===== *)
theory Policy
  imports Prelude
begin

text \<open>
  \<open>crates/unixd-cache/src/policy.rs\<close>: how long a value is fresh, how long it may then serve
  stale, and which upstream failures a stale value may answer.
\<close>

datatype horizon_source = CallerDefault | CacheControl

record policy =
  fresh :: duration
  stale_if_error :: duration
  p_source :: horizon_source

definition policy_new :: "duration \<Rightarrow> duration \<Rightarrow> policy" where
  "policy_new f s = \<lparr>fresh = f, stale_if_error = s, p_source = CallerDefault\<rparr>"

definition from_cache_control :: "duration \<Rightarrow> duration \<Rightarrow> policy" where
  "from_cache_control f s = \<lparr>fresh = f, stale_if_error = s, p_source = CacheControl\<rparr>"

datatype failure = Timeout | Network | Status u16 | InvalidJson | SchemaMismatch

fun serves_stale :: "failure \<Rightarrow> bool" where
  "serves_stale Timeout = True"
| "serves_stale Network = True"
| "serves_stale (Status code) = (code = 429 \<or> 500 \<le> code \<and> code \<le> 599)"
| "serves_stale InvalidJson = False"
| "serves_stale SchemaMismatch = False"

end
