(* ===== verification/Entry.thy ===== *)
theory Entry
  imports Private Key Policy
begin

text \<open>
  Entry files (\<open>crates/unixd-cache/src/cache.rs\<close>): the header and the whole entry, their
  JSON layout, the file names of entries and temporary files, the modification times set
  from the cache's clock, and \<open>read_header\<close>, which reads a file in chunks up to the
  \<open>value\<close> key and no further.

  The JSON of a struct is its fields in declaration order without white space, which the
  derived \<open>Serialize\<close> gives. How \<open>serde_json\<close> writes a string, a number and the caller's
  value, and how it parses a header and a value, are the fields of \<open>serde\<close>, an argument of
  every definition that uses them.
\<close>

section \<open>Limits, headers and entries\<close>

record limits =
  max_entry_bytes :: u64
  hard_entries :: u64
  hard_bytes :: u64
  target_entries :: u64
  target_bytes :: u64
  unused_after :: duration
  sweep_every :: duration
  touch_after :: duration

definition default_limits :: limits where
  "default_limits = \<lparr>
     max_entry_bytes = 8 * 1024 * 1024,
     hard_entries = 10000,
     hard_bytes = 256 * 1024 * 1024,
     target_entries = 8000,
     target_bytes = 200 * 1024 * 1024,
     unused_after = from_hours (30 * 24),
     sweep_every = from_hours 24,
     touch_after = from_hours 1\<rparr>"

record header =
  h_format :: u8
  h_schema :: u32
  h_namespace :: str
  h_digest :: str
  h_stored_at_ms :: u64
  h_fresh_until_ms :: u64
  h_stale_until_ms :: u64
  h_source :: horizon_source

record 'v written = header +
  w_value :: 'v

definition consistent :: "header \<Rightarrow> bool" where
  "consistent h \<longleftrightarrow> h_format h = format_version
     \<and> h_stored_at_ms h \<le> h_fresh_until_ms h
     \<and> h_fresh_until_ms h \<le> h_stale_until_ms h"

text \<open>The header part of an entry.\<close>

definition header_of :: "'v written \<Rightarrow> header" where
  "header_of w = header.truncate w"

section \<open>JSON\<close>

record 'v serde =
  json_string :: "str \<Rightarrow> u8 list"
  json_number :: "nat \<Rightarrow> u8 list"
  json_value :: "'v \<Rightarrow> u8 list option"
  parse_header :: "u8 list \<Rightarrow> header option"
  parse_value :: "u8 list \<Rightarrow> 'v option"

definition quotation :: str where
  "quotation = [CHR 0x22]"

text \<open>\<open>"name":\<close>\<close>

definition json_key :: "str \<Rightarrow> u8 list" where
  "json_key name = as_bytes (quotation @ name @ quotation @ '':'')"

definition comma :: "u8 list" where
  "comma = as_bytes '',''"

definition open_brace :: "u8 list" where
  "open_brace = as_bytes ''{''"

definition close_brace :: "u8 list" where
  "close_brace = as_bytes ''}''"

text \<open>\<open>#[serde(rename_all = "snake_case")]\<close> on \<open>Source\<close>\<close>

definition source_name :: "horizon_source \<Rightarrow> str" where
  "source_name s = (case s of CallerDefault \<Rightarrow> ''caller_default'' | CacheControl \<Rightarrow> ''cache_control'')"

definition header_json :: "'v serde \<Rightarrow> header \<Rightarrow> u8 list" where
  "header_json j h = open_brace
     @ json_key ''format'' @ json_number j (unat (h_format h)) @ comma
     @ json_key ''schema'' @ json_number j (unat (h_schema h)) @ comma
     @ json_key ''namespace'' @ json_string j (h_namespace h) @ comma
     @ json_key ''digest'' @ json_string j (h_digest h) @ comma
     @ json_key ''stored_at_ms'' @ json_number j (unat (h_stored_at_ms h)) @ comma
     @ json_key ''fresh_until_ms'' @ json_number j (unat (h_fresh_until_ms h)) @ comma
     @ json_key ''stale_until_ms'' @ json_number j (unat (h_stale_until_ms h)) @ comma
     @ json_key ''source'' @ json_string j (source_name (h_source h))"

text \<open>\<open>VALUE_KEY\<close>, \<open>,"value":\<close>\<close>

definition value_key :: "u8 list" where
  "value_key = comma @ json_key ''value''"

text \<open>\<open>serde_json::to_vec(&entry)\<close>; it fails when the value does not serialize.\<close>

definition to_vec :: "'v serde \<Rightarrow> 'v written \<Rightarrow> u8 list option" where
  "to_vec j e = (case json_value j (w_value e) of
     None \<Rightarrow> None
   | Some v \<Rightarrow> Some (header_json j (header_of e) @ value_key @ v @ close_brace))"

section \<open>File names\<close>

definition entries_name :: str where "entries_name = ''entries''"
definition locks_name :: str where "locks_name = ''locks''"
definition maintenance_name :: str where "maintenance_name = ''maintenance.lock''"
definition prune_lock_name :: str where "prune_lock_name = ''prune.lock''"
definition temporary_suffix :: str where "temporary_suffix = ''.tmp''"
definition cachedir_tag :: str where "cachedir_tag = ''CACHEDIR.TAG''"

definition cachedir_tag_text :: str where
  "cachedir_tag_text =
     ''Signature: 8a477f597d28d172789f06886806bc55'' @ [CHR 0x0A] @
     ''# This file is a cache directory tag created by unixd-cache.'' @ [CHR 0x0A] @
     ''# For information about cache directory tags, see https://bford.info/cachedir/'' @ [CHR 0x0A]"

definition file_name :: "path \<Rightarrow> str option" where
  "file_name p = (if p = [] then None else Some (last p))"

definition starts_with :: "str \<Rightarrow> str \<Rightarrow> bool" where
  "starts_with p s \<longleftrightarrow> take (length p) s = p"

definition ends_with :: "str \<Rightarrow> str \<Rightarrow> bool" where
  "ends_with q s \<longleftrightarrow> length q \<le> length s \<and> drop (length s - length q) s = q"

definition strip_suffix :: "str \<Rightarrow> str \<Rightarrow> str option" where
  "strip_suffix q s = (if ends_with q s then Some (take (length s - length q) s) else None)"

definition strip_prefix :: "str \<Rightarrow> str \<Rightarrow> str option" where
  "strip_prefix p s = (if starts_with p s then Some (drop (length p) s) else None)"

definition is_digest :: "str \<Rightarrow> bool" where
  "is_digest d \<longleftrightarrow> length d = 64 \<and> list_all is_ascii_hexdigit d"

definition entry_name :: "str \<Rightarrow> str" where
  "entry_name d = d @ ''.json''"

definition lock_name :: "str \<Rightarrow> str" where
  "lock_name d = d @ ''.lock''"

text \<open>\<open>tempfile\<close>'s name for an entry being written; \<open>rnd\<close> is its random part.\<close>

definition temporary_name :: "str \<Rightarrow> str \<Rightarrow> str" where
  "temporary_name d rnd = ''.'' @ d @ ''.'' @ rnd @ temporary_suffix"

definition entry_digest :: "path \<Rightarrow> str option" where
  "entry_digest p = (case file_name p of
     None \<Rightarrow> None
   | Some name \<Rightarrow> (case strip_suffix ''.json'' name of
       None \<Rightarrow> None
     | Some d \<Rightarrow> if is_digest d then Some d else None))"

definition temporary_digest :: "path \<Rightarrow> str option" where
  "temporary_digest p = (case file_name p of
     None \<Rightarrow> None
   | Some name \<Rightarrow> (case strip_prefix ''.'' name of
       None \<Rightarrow> None
     | Some rest \<Rightarrow> (let d = takeWhile (\<lambda>c. c \<noteq> CHR ''.'') rest in
         if is_digest d then Some d else None)))"

definition is_temporary :: "path \<Rightarrow> bool" where
  "is_temporary p = (case file_name p of
     None \<Rightarrow> False
   | Some name \<Rightarrow> starts_with ''.'' name \<and> ends_with temporary_suffix name)"

section \<open>Times\<close>

text \<open>\<open>UNIX_EPOCH + Duration::from_millis(ms)\<close>, in nanoseconds since the epoch.\<close>

definition at :: "u64 \<Rightarrow> int" where
  "at ms = int (unat ms) * 1000000"

definition modified_ms :: "metadata \<Rightarrow> u64" where
  "modified_ms m = (let t = mtime (m_node m) in
     if t < 0 then 0 else u64_or_max (nat (t div 1000000)))"

section \<open>Reading a header\<close>

text \<open>\<open>windows(len).position(|window| window == pat)\<close>\<close>

fun position :: "u8 list \<Rightarrow> u8 list \<Rightarrow> nat option" where
  "position pat [] = None"
| "position pat (x # xs) =
     (if take (length pat) (x # xs) = pat then Some 0 else map_option Suc (position pat xs))"

text \<open>
  The loop of \<open>read_header\<close>: \<open>prefix\<close> is what was read so far, the list is the chunks
  \<open>fill_buf\<close> will still return, an empty chunk or none at the end of the file. Only the new
  chunk and the last \<open>VALUE_KEY.len() - 1\<close> bytes before it are searched.
\<close>

fun scan_header :: "u8 list \<Rightarrow> u8 list list \<Rightarrow> u8 list option" where
  "scan_header prefix [] = None"
| "scan_header prefix (chunk # chunks) =
     (if chunk = [] then None
      else (let start = length prefix - (length value_key - 1); prefix' = prefix @ chunk in
        case position value_key (drop start prefix') of
          Some i \<Rightarrow> Some (take (start + i) prefix' @ close_brace)
        | None \<Rightarrow> scan_header prefix' chunks))"

text \<open>The chunks of a \<open>BufReader\<close> of \<open>n\<close> bytes over a regular file.\<close>

function chunks_of :: "nat \<Rightarrow> u8 list \<Rightarrow> u8 list list" where
  "chunks_of n xs = (if n = 0 \<or> xs = [] then [] else take n xs # chunks_of n (drop n xs))"
  by pat_completeness auto
termination
  by (relation "measure (\<lambda>(n, xs). length xs)") auto

declare chunks_of.simps [simp del]

definition buffer_size :: nat where
  "buffer_size = 8192"

definition read_header :: "'v serde \<Rightarrow> path \<Rightarrow> u64 \<Rightarrow> header option cache_io" where
  "read_header j p limit w = (case file_open p w of
     (Inl Pending, w1) \<Rightarrow> (Inl Pending, w1)
   | (Inl (Err _), w1) \<Rightarrow> (Inr None, w1)
   | (Inr f, w1) \<Rightarrow> (case read_up_to f (unat limit) w1 of
       (Inl Pending, w2) \<Rightarrow> (Inl Pending, w2)
     | (Inl (Err _), w2) \<Rightarrow> (Inr None, drop_file f w2)
     | (Inr bytes, w2) \<Rightarrow> (case scan_header [] (chunks_of buffer_size bytes) of
         None \<Rightarrow> (Inr None, drop_file f w2)
       | Some prefix \<Rightarrow> (Inr (parse_header j prefix), drop_file f w2))))"

definition live :: "'v serde \<Rightarrow> path \<Rightarrow> u64 \<Rightarrow> u64 \<Rightarrow> bool cache_io" where
  "live j p now limit = andThen (read_header j p limit) (\<lambda>r. ok (case r of
     None \<Rightarrow> False
   | Some h \<Rightarrow> consistent h \<and> entry_digest p = Some (h_digest h) \<and> now \<le> h_stale_until_ms h))"

end
