(* ===== verification/Calm.thy ===== *)
theory Calm
  imports Entry
begin

text \<open>
  What the system calls and the functions of \<open>private.rs\<close> do in a calm world, one with an
  empty script: closed equations over the files at the paths involved, which the proofs about
  the cache rewrite with. \<open>reduced D s s'\<close> is the effect every removal has: exactly the names
  in \<open>D\<close> are gone, and nothing else that existed changed.
\<close>

section \<open>States after an update\<close>

lemma ino_at_simps [simp]:
  "ino_at (s\<lparr>inodes := x\<rparr>) p = ino_at s p"
  "ino_at (s\<lparr>locks := y\<rparr>) p = ino_at s p"
  "ino_at (s\<lparr>next_ino := n\<rparr>) p = ino_at s p"
  "ino_at (s\<lparr>next_fd := n\<rparr>) p = ino_at s p"
  "ino_at (set_node i m s) p = ino_at s p"
  "ino_at (grant f l s) p = ino_at s p"
  by (simp_all add: ino_at_def set_node_def grant_def)

lemma ino_at_add_node:
  "ino_at (add_node p m s) q = (case ino_at s q of
     Some i \<Rightarrow> Some i | None \<Rightarrow> if q = p then Some (next_ino s) else None)"
  by (auto simp: ino_at_def add_node_def map_add_def split: option.splits)

lemma ino_at_remove_name [simp]: "ino_at (remove_name p s) q = (if q = p then None else ino_at s q)"
  by (auto simp: ino_at_def remove_name_def map_of_filter_key [where P = "\<lambda>q. q \<noteq> p"])

lemma remove_name_fields [simp]:
  "inodes (remove_name p s) = inodes s" "locks (remove_name p s) = locks s"
  "next_ino (remove_name p s) = next_ino s" "next_fd (remove_name p s) = next_fd s"
  "clock (remove_name p s) = clock s" "ktime (remove_name p s) = ktime s"
  by (simp_all add: remove_name_def)

lemma remove_tree_fields [simp]:
  "inodes (remove_tree p s) = inodes s" "locks (remove_tree p s) = locks s"
  "next_ino (remove_tree p s) = next_ino s" "next_fd (remove_tree p s) = next_fd s"
  "clock (remove_tree p s) = clock s" "ktime (remove_tree p s) = ktime s"
  by (simp_all add: remove_tree_def)

lemma add_node_fields [simp]:
  "inodes (add_node p m s) = (inodes s)(next_ino s := m)" "locks (add_node p m s) = locks s"
  "next_ino (add_node p m s) = Suc (next_ino s)" "next_fd (add_node p m s) = next_fd s"
  "clock (add_node p m s) = clock s" "ktime (add_node p m s) = ktime s"
  "dirents (add_node p m s) = dirents s @ [(p, next_ino s)]"
  by (simp_all add: add_node_def)

lemma set_node_fields [simp]:
  "inodes (set_node i m s) = (inodes s)(i := m)" "locks (set_node i m s) = locks s"
  "next_ino (set_node i m s) = next_ino s" "next_fd (set_node i m s) = next_fd s"
  "clock (set_node i m s) = clock s" "ktime (set_node i m s) = ktime s"
  "dirents (set_node i m s) = dirents s"
  by (simp_all add: set_node_def)

lemma set_node_same: "set_node i (inodes s i) s = s"
  by (simp add: set_node_def)

section \<open>System calls\<close>

lemma sys_calm: "calm w \<Longrightarrow> sys f w = (fst (f (fs w)), w\<lparr>fs := snd (f (fs w))\<rparr>)"
  by (simp add: calm_def sys_def split: prod.splits)

lemma calm_update [simp]: "calm (w\<lparr>fs := s\<rparr>) = calm w"
  by (simp add: calm_def)

lemma calm_drop_file [simp]: "calm (drop_file f w) = calm w"
  by (simp add: calm_def)

lemma symlink_metadata_calm [calm_simps]:
  "calm w \<Longrightarrow> symlink_metadata p w = (case ino_at (fs w) p of
     None \<Rightarrow> (Inl (Err NotFound), w)
   | Some i \<Rightarrow> (Inr \<lparr>m_ino = i, m_node = inodes (fs w) i\<rparr>, w))"
  by (simp add: symlink_metadata_def sys_calm stat_os_def split: option.splits)

lemma file_metadata_calm [calm_simps]:
  "calm w \<Longrightarrow> file_metadata f w =
     (Inr \<lparr>m_ino = f_ino f, m_node = inodes (fs w) (f_ino f)\<rparr>, w)"
  by (simp add: file_metadata_def sys_calm fstat_os_def)

lemma fchmod_calm [calm_simps]:
  "calm w \<Longrightarrow> fchmod f m w =
     (Inr (), w\<lparr>fs := set_node (f_ino f) ((inodes (fs w) (f_ino f))\<lparr>mode := m\<rparr>) (fs w)\<rparr>)"
  by (simp add: fchmod_def sys_calm fchmod_os_def)

lemma set_modified_calm [calm_simps]:
  "calm w \<Longrightarrow> set_modified f t w =
     (Inr (), w\<lparr>fs := set_node (f_ino f) ((inodes (fs w) (f_ino f))\<lparr>mtime := t\<rparr>) (fs w)\<rparr>)"
  by (simp add: set_modified_def sys_calm set_modified_os_def)

lemma sync_all_calm [calm_simps]: "calm w \<Longrightarrow> sync_all f w = (Inr (), w)"
  by (simp add: sync_all_def sys_calm sync_os_def)

lemma write_all_calm [calm_simps]:
  "calm w \<Longrightarrow> write_all f bs w = (Inr (), w\<lparr>fs := set_node (f_ino f)
     ((inodes (fs w) (f_ino f))\<lparr>data := data (inodes (fs w) (f_ino f)) @ bs,
        mtime := ktime (fs w)\<rparr>) (fs w)\<rparr>)"
  by (simp add: write_all_def sys_calm write_os_def Let_def)

lemma io_calm_Inr [simp]: "m w = (Inr x, w') \<Longrightarrow> io m w = (Inr x, w')"
  by (simp add: io_def)

lemma io_calm_Err [simp]: "m w = (Inl (Err e), w') \<Longrightarrow> io m w = (Inl (Err (Io e)), w')"
  by (simp add: io_def error_io_def)

section \<open>Private directories and files\<close>

definition private_dir :: "world \<Rightarrow> path \<Rightarrow> bool" where
  "private_dir w p \<longleftrightarrow> (\<exists>i. ino_at (fs w) p = Some i \<and> kind (inodes (fs w) i) = Directory
     \<and> uid (inodes (fs w) i) = euid w \<and> mode (inodes (fs w) i) = mode_dir)"

definition private_file :: "world \<Rightarrow> path \<Rightarrow> bool" where
  "private_file w p \<longleftrightarrow> (\<exists>i. ino_at (fs w) p = Some i \<and> kind (inodes (fs w) i) = Regular
     \<and> uid (inodes (fs w) i) = euid w \<and> mode (inodes (fs w) i) = mode_file)"

lemma resolve_not_link:
  "node_at s p = Some m \<Longrightarrow> (\<And>t. kind m \<noteq> Symlink t) \<Longrightarrow> resolve n s p = Inr p"
  by (subst resolve.simps) (simp split: ftype.splits)

lemma resolve_dir:
  "ino_at s p = Some i \<Longrightarrow> kind (inodes s i) = Directory \<Longrightarrow> resolve n s p = Inr p"
  by (rule resolve_not_link) (auto simp: node_at_def)

lemma resolve_file:
  "ino_at s p = Some i \<Longrightarrow> kind (inodes s i) = Regular \<Longrightarrow> resolve n s p = Inr p"
  by (rule resolve_not_link) (auto simp: node_at_def)

lemma mode_same: "mode n = m \<Longrightarrow> n\<lparr>mode := m\<rparr> = n"
  by simp

lemma set_node_mode_same: "mode (inodes s i) = m \<Longrightarrow> set_node i ((inodes s i)\<lparr>mode := m\<rparr>) s = s"
  by (simp add: mode_same set_node_same)

lemma set_mode_private:
  "calm w \<Longrightarrow> private_dir w p \<Longrightarrow> set_mode p mode_dir w = (Inr (), w)"
  by (auto simp: private_dir_def set_mode_def set_permissions_def io_def sys_calm chmod_os_def
      resolve_dir set_node_mode_same map_err_def)

lemma ensure_dir_private [calm_simps]:
  "calm w \<Longrightarrow> private_dir w p \<Longrightarrow> ensure_dir p w = (Inr (), w)"
  using set_mode_private [of w p]
  by (subst ensure_dir.simps) (auto simp: private_dir_def calm_simps is_dir_def owned_def)

lemma validate_root_private [calm_simps]:
  "calm w \<Longrightarrow> private_dir w p \<Longrightarrow> validate_root p w = (Inr (), w)"
  using set_mode_private [of w p]
  by (auto simp: validate_root_def private_dir_def calm_simps is_dir_def owned_def)

lemma read_dir_private [calm_simps]:
  "calm w \<Longrightarrow> private_dir w p \<Longrightarrow> io (read_dir p) w =
     (Inr (map (\<lambda>c. p @ [last c]) (children (fs w) p)), w)"
  by (auto simp: private_dir_def read_dir_def sys_calm read_dir_os_def resolve_dir node_at_def)

lemma sync_dir_private [calm_simps]:
  "calm w \<Longrightarrow> private_dir w p \<Longrightarrow> \<exists>n. sync_dir p w =
     (Inr (), w\<lparr>fs := (fs w)\<lparr>next_fd := n, locks :=
        filter (\<lambda>(d, i, m). d \<noteq> next_fd (fs w)) (locks (fs w))\<rparr>\<rparr>)"
  by (auto simp: private_dir_def sync_dir_def file_open_def open_with_def sys_calm open_os_def
      resolve_dir Let_def calm_simps drop_file_def)

section \<open>Well-formed states\<close>

text \<open>
  Names are distinct, no two name the same file (the code makes no hard links), and what is
  named or locked was allocated.
\<close>

definition wf_os :: "os \<Rightarrow> bool" where
  "wf_os s \<longleftrightarrow> distinct (map fst (dirents s)) \<and> distinct (map snd (dirents s))
     \<and> (\<forall>(p, i) \<in> set (dirents s). i < next_ino s)
     \<and> (\<forall>(d, i, m) \<in> set (locks s). d < next_fd s \<and> i < next_ino s)"

lemma wf_ino_less: "wf_os s \<Longrightarrow> ino_at s p = Some i \<Longrightarrow> i < next_ino s"
  by (auto simp: wf_os_def ino_at_def dest!: map_of_SomeD)

lemma wf_locks_filter: "wf_os s \<Longrightarrow> next_fd s \<le> n \<Longrightarrow>
    filter (\<lambda>(d, i, m). d \<noteq> n) (locks s) = locks s"
  by (rule filter_True) (auto simp: wf_os_def)

lemma wf_no_conflict_new: "wf_os s \<Longrightarrow> next_ino s \<le> f_ino f \<Longrightarrow> \<not> conflict f m s"
  by (auto simp: conflict_def wf_os_def)

lemma in_dirents_ino_at: "wf_os s \<Longrightarrow> (p, i) \<in> set (dirents s) \<longleftrightarrow> ino_at s p = Some i"
  by (simp add: wf_os_def ino_at_def)

lemma wf_ino_inj: "wf_os s \<Longrightarrow> ino_at s p = Some i \<Longrightarrow> ino_at s q = Some i \<Longrightarrow> p = q"
proof -
  assume wf: "wf_os s" and p: "ino_at s p = Some i" and q: "ino_at s q = Some i"
  from wf p q have "(p, i) \<in> set (dirents s)" and "(q, i) \<in> set (dirents s)"
    by (simp_all add: in_dirents_ino_at)
  moreover from wf have "inj_on snd (set (dirents s))" by (simp add: wf_os_def distinct_map)
  ultimately show "p = q" by (metis Pair_inject inj_onD snd_conv)
qed

section \<open>Removing names\<close>

definition reduced :: "path set \<Rightarrow> os \<Rightarrow> os \<Rightarrow> bool" where
  "reduced D s s' \<longleftrightarrow> dirents s' = filter (\<lambda>(q, i). q \<notin> D) (dirents s)
     \<and> (\<forall>i < next_ino s. inodes s' i = inodes s i)
     \<and> next_ino s \<le> next_ino s' \<and> next_fd s \<le> next_fd s'
     \<and> locks s' = locks s \<and> clock s' = clock s \<and> ktime s' = ktime s"

lemma reduced_refl [simp]: "reduced {} s s"
  by (simp add: reduced_def case_prod_beta')

lemma reduced_trans:
  assumes "reduced D s s'" and "reduced E s' s''"
  shows "reduced (D \<union> E) s s''"
  using assms
  by (auto simp: reduced_def intro!: filter_cong)

lemma reduced_after: "reduced {} s s' \<Longrightarrow> reduced D s' s'' \<Longrightarrow> reduced D s s''"
  using reduced_trans [of "{}" s s' D s''] by simp

lemma reduced_before: "reduced D s s' \<Longrightarrow> reduced {} s' s'' \<Longrightarrow> reduced D s s''"
  using reduced_trans [of D s s' "{}" s''] by simp

lemma reduced_wf: "reduced D s s' \<Longrightarrow> wf_os s \<Longrightarrow> wf_os s'"
  by (fastforce simp: reduced_def wf_os_def distinct_map_filter intro: distinct_map_fst_filter)

lemma reduced_ino_at: "reduced D s s' \<Longrightarrow> ino_at s' p = (if p \<in> D then None else ino_at s p)"
  by (auto simp: reduced_def ino_at_def map_of_filter_key [where P = "\<lambda>q. q \<notin> D"])

lemma reduced_node_at:
  "reduced D s s' \<Longrightarrow> wf_os s \<Longrightarrow> node_at s' p = (if p \<in> D then None else node_at s p)"
  by (cases "ino_at s p") (auto simp: node_at_def reduced_ino_at reduced_def dest: wf_ino_less)

lemma reduced_children: "reduced D s s' \<Longrightarrow> children s' d = filter (\<lambda>p. p \<notin> D) (children s d)"
  by (auto simp: reduced_def children_def filter_map comp_def case_prod_beta'
      intro!: arg_cong [where f = "map fst"] filter_cong)

section \<open>Lock files\<close>

definition lock_node :: "world \<Rightarrow> inode" where
  "lock_node w = \<lparr>kind = Regular, uid = euid w, mode = mode_file, mtime = ktime (fs w), data = []\<rparr>"

lemma secure_lock_calm:
  assumes "calm w" and "kind (inodes (fs w) (f_ino f)) = Regular"
    and "uid (inodes (fs w) (f_ino f)) = euid w"
  shows "secure_lock f w = (Inr f,
    w\<lparr>fs := set_node (f_ino f) ((inodes (fs w) (f_ino f))\<lparr>mode := mode_file\<rparr>) (fs w)\<rparr>)"
  using assms by (simp add: secure_lock_def calm_simps is_file_def owned_def)

lemma open_lock_existing:
  assumes "calm w" and "private_file w p"
  shows "open_lock p w = (Inr \<lparr>fd = next_fd (fs w), f_ino = the (ino_at (fs w) p)\<rparr>,
    w\<lparr>fs := (fs w)\<lparr>next_fd := Suc (next_fd (fs w))\<rparr>\<rparr>)"
proof -
  from assms(2) obtain i where i: "ino_at (fs w) p = Some i" "kind (inodes (fs w) i) = Regular"
    "uid (inodes (fs w) i) = euid w" "mode (inodes (fs w) i) = mode_file"
    by (auto simp: private_file_def)
  let ?f = "\<lparr>fd = next_fd (fs w), f_ino = i\<rparr>" and ?w = "w\<lparr>fs := (fs w)\<lparr>next_fd := Suc (next_fd (fs w))\<rparr>\<rparr>"
  from i assms(1) have "open_with lock_flags mode_file p w = (Inr ?f, ?w)"
    by (simp add: open_with_def sys_calm open_os_def lock_flags_def Let_def)
  moreover from i assms(1) have "secure_lock ?f ?w = (Inr ?f, ?w)"
    by (subst secure_lock_calm) (simp_all add: set_node_def mode_same)
  ultimately show ?thesis using i by (simp add: open_lock_def)
qed

lemma open_lock_new:
  assumes "calm w" and "ino_at (fs w) p = None" and "private_dir w (butlast p)"
  shows "open_lock p w = (Inr \<lparr>fd = next_fd (fs w), f_ino = next_ino (fs w)\<rparr>,
    w\<lparr>fs := (add_node p (lock_node w) (fs w))\<lparr>next_fd := Suc (next_fd (fs w))\<rparr>\<rparr>)"
proof -
  let ?f = "\<lparr>fd = next_fd (fs w), f_ino = next_ino (fs w)\<rparr>"
  let ?m = "new_node Regular (euid w) (mode_file AND NOT (umask w)) (fs w)"
  let ?w = "w\<lparr>fs := (add_node p ?m (fs w))\<lparr>next_fd := Suc (next_fd (fs w))\<rparr>\<rparr>"
  from assms have "parent_error (fs w) p = None"
    by (auto simp: parent_error_def private_dir_def node_at_def)
  with assms have "open_with lock_flags mode_file p w = (Inr ?f, ?w)"
    by (simp add: open_with_def sys_calm open_os_def lock_flags_def Let_def)
  moreover from assms(1) have "secure_lock ?f ?w = (Inr ?f,
      w\<lparr>fs := (add_node p (lock_node w) (fs w))\<lparr>next_fd := Suc (next_fd (fs w))\<rparr>\<rparr>)"
    by (subst secure_lock_calm)
      (simp_all add: new_node_def add_node_def set_node_def lock_node_def)
  ultimately show ?thesis by (simp add: open_lock_def)
qed

text \<open>Somebody has the file at \<open>p\<close> locked.\<close>

definition lock_busy :: "os \<Rightarrow> path \<Rightarrow> bool" where
  "lock_busy s p \<longleftrightarrow> (case ino_at s p of None \<Rightarrow> False | Some i \<Rightarrow> i \<in> (fst \<circ> snd) ` set (locks s))"

text \<open>The state in which this process has taken the lock file at \<open>p\<close>.\<close>

definition took :: "path \<Rightarrow> held \<Rightarrow> os \<Rightarrow> os \<Rightarrow> bool" where
  "took p h s s' \<longleftrightarrow> h_path h = p \<and> fd (h_file h) = next_fd s
     \<and> next_fd s' = Suc (next_fd s) \<and> next_ino s \<le> next_ino s'
     \<and> ino_at s' p = Some (f_ino (h_file h)) \<and> kind (inodes s' (f_ino (h_file h))) = Regular
     \<and> f_ino (h_file h) < next_ino s'
     \<and> filter (\<lambda>(q, i). q \<noteq> p) (dirents s') = filter (\<lambda>(q, i). q \<noteq> p) (dirents s)
     \<and> (\<forall>q. q \<noteq> p \<longrightarrow> ino_at s' q = ino_at s q)
     \<and> (\<forall>i < next_ino s. inodes s' i = inodes s i)
     \<and> locks s' = (fd (h_file h), f_ino (h_file h), Exclusive) # locks s
     \<and> clock s' = clock s \<and> ktime s' = ktime s \<and> wf_os s'"

lemma names_calm:
  "calm w \<Longrightarrow> ino_at (fs w) p = Some (f_ino f) \<Longrightarrow> names p f w = (Inr True, w)"
  by (simp add: names_def calm_simps)

text \<open>Where a lock can be taken: nothing is at \<open>p\<close> yet, or a private file is.\<close>

definition lockable :: "world \<Rightarrow> path \<Rightarrow> bool" where
  "lockable w p \<longleftrightarrow> (ino_at (fs w) p = None \<and> private_dir w (butlast p)) \<or> private_file w p"

lemma open_lock_lockable:
  assumes "calm w" and "lockable w p" and "wf_os (fs w)"
  shows "\<exists>f s. open_lock p w = (Inr f, w\<lparr>fs := s\<rparr>) \<and> fd f = next_fd (fs w)
    \<and> ino_at s p = Some (f_ino f) \<and> kind (inodes s (f_ino f)) = Regular
    \<and> f_ino f < next_ino s \<and> next_fd s = Suc (next_fd (fs w)) \<and> next_ino (fs w) \<le> next_ino s
    \<and> filter (\<lambda>(q, i). q \<noteq> p) (dirents s) = filter (\<lambda>(q, i). q \<noteq> p) (dirents (fs w))
    \<and> (\<forall>q. q \<noteq> p \<longrightarrow> ino_at s q = ino_at (fs w) q)
    \<and> (\<forall>i < next_ino (fs w). inodes s i = inodes (fs w) i)
    \<and> locks s = locks (fs w) \<and> clock s = clock (fs w) \<and> ktime s = ktime (fs w) \<and> wf_os s
    \<and> (\<forall>m. conflict f m s \<longrightarrow> lock_busy (fs w) p)
    \<and> (lock_busy (fs w) p \<longrightarrow> conflict f Exclusive s \<and> dirents s = dirents (fs w))"
proof (cases "ino_at (fs w) p")
  case None
  let ?s = "(add_node p (lock_node w) (fs w))\<lparr>next_fd := Suc (next_fd (fs w))\<rparr>"
  let ?f = "\<lparr>fd = next_fd (fs w), f_ino = next_ino (fs w)\<rparr>"
  from None assms(2) have d: "private_dir w (butlast p)"
    by (auto simp: lockable_def private_file_def)
  have "p \<notin> fst ` set (dirents (fs w))"
    using None by (metis ino_at_def map_of_eq_None_iff)
  moreover have "next_ino (fs w) \<notin> snd ` set (dirents (fs w))"
    using assms(3) by (auto simp: wf_os_def)
  ultimately have "wf_os ?s"
    using assms(3) by (fastforce simp: wf_os_def)
  moreover have "\<not> conflict ?f m ?s" for m
    using assms(3) by (auto simp: conflict_def wf_os_def)
  ultimately show ?thesis
    using open_lock_new [OF assms(1) None d] None
    by (intro exI [of _ ?f] exI [of _ ?s])
      (auto simp: ino_at_add_node lock_node_def lock_busy_def split: option.splits)
next
  case (Some i)
  let ?s = "(fs w)\<lparr>next_fd := Suc (next_fd (fs w))\<rparr>" and ?f = "\<lparr>fd = next_fd (fs w), f_ino = i\<rparr>"
  from Some assms(2) have p: "private_file w p" by (auto simp: lockable_def)
  have "wf_os ?s" using assms(3) by (fastforce simp: wf_os_def)
  moreover have "conflict ?f m ?s \<longrightarrow> lock_busy (fs w) p" for m
    using Some by (force simp: conflict_def lock_busy_def)
  moreover have "lock_busy (fs w) p \<longrightarrow> conflict ?f Exclusive ?s"
  proof
    assume "lock_busy (fs w) p"
    with Some obtain d m where dm: "(d, i, m) \<in> set (locks (fs w))"
      by (auto simp: lock_busy_def)
    with assms(3) have "d \<noteq> next_fd (fs w)" by (auto simp: wf_os_def)
    with dm show "conflict ?f Exclusive ?s" by (auto simp: conflict_def)
  qed
  ultimately show ?thesis
    using open_lock_existing [OF assms(1) p] Some p wf_ino_less [OF assms(3) Some]
    by (intro exI [of _ ?f] exI [of _ ?s]) (auto simp: private_file_def)
qed

lemma file_try_lock_calm [calm_simps]:
  "calm w \<Longrightarrow> file_try_lock f m w = (if conflict f m (fs w) then (Inl (Err TryWouldBlock), w)
     else (Inr (), w\<lparr>fs := grant f m (fs w)\<rparr>))"
  by (simp add: file_try_lock_def sys_calm try_flock_os_def)

lemma take_lock_calm [calm_simps]:
  "calm w \<Longrightarrow> take_lock f m w = (if conflict f m (fs w) then (Inl Pending, w)
     else (Inr (), w\<lparr>fs := grant f m (fs w)\<rparr>))"
  by (auto simp: take_lock_def file_lock_def calm_def map_err_def)

lemma took_grant:
  assumes "wf_os s" and "fd f = next_fd s" and "ino_at s1 p = Some (f_ino f)"
    and "kind (inodes s1 (f_ino f)) = Regular"
    and "f_ino f < next_ino s1" and "next_fd s1 = Suc (next_fd s)" and "next_ino s \<le> next_ino s1"
    and "filter (\<lambda>(q, i). q \<noteq> p) (dirents s1) = filter (\<lambda>(q, i). q \<noteq> p) (dirents s)"
    and "\<forall>q. q \<noteq> p \<longrightarrow> ino_at s1 q = ino_at s q"
    and "\<forall>i < next_ino s. inodes s1 i = inodes s i"
    and "locks s1 = locks s" and "clock s1 = clock s" and "ktime s1 = ktime s" and "wf_os s1"
  shows "took p \<lparr>h_path = p, h_file = f\<rparr> s (grant f Exclusive s1)"
proof -
  from assms have "wf_os (grant f Exclusive s1)"
    by (auto simp: wf_os_def grant_def)
  with assms show ?thesis by (simp add: took_def) (simp add: grant_def)
qed

lemma try_lock_free:
  assumes "calm w" and "lockable w p" and "wf_os (fs w)" and "\<not> lock_busy (fs w) p"
  shows "\<exists>h s. try_lock_exclusive p w = (Inr (Some h), w\<lparr>fs := s\<rparr>) \<and> took p h (fs w) s"
proof -
  from open_lock_lockable [OF assms(1-3)] assms(4) obtain f s1 where
    o: "open_lock p w = (Inr f, w\<lparr>fs := s1\<rparr>)" and ino: "ino_at s1 p = Some (f_ino f)"
    and free: "\<not> conflict f Exclusive s1"
    and t: "took p \<lparr>h_path = p, h_file = f\<rparr> (fs w) (grant f Exclusive s1)"
    using took_grant [OF assms(3)] by metis
  let ?w = "w\<lparr>fs := grant f Exclusive s1\<rparr>"
  from assms(1) ino have "names p f ?w = (Inr True, ?w)" by (intro names_calm) simp_all
  with o free assms(1) have "try_lock_exclusive p w = (Inr (Some \<lparr>h_path = p, h_file = f\<rparr>), ?w)"
    by (simp add: try_lock_exclusive_def calm_simps)
  with t show ?thesis by blast
qed

lemma try_lock_busy:
  assumes "calm w" and "lockable w p" and "wf_os (fs w)" and "lock_busy (fs w) p"
  shows "\<exists>s. try_lock_exclusive p w = (Inr None, w\<lparr>fs := s\<rparr>) \<and> reduced {} (fs w) s"
proof -
  from open_lock_lockable [OF assms(1-3)] assms(4) obtain f s1 where
    o: "open_lock p w = (Inr f, w\<lparr>fs := s1\<rparr>)" and busy: "conflict f Exclusive s1"
    and f: "fd f = next_fd (fs w)" and d: "dirents s1 = dirents (fs w)"
    and n: "next_fd s1 = Suc (next_fd (fs w))" "next_ino (fs w) \<le> next_ino s1"
    and i: "\<forall>i < next_ino (fs w). inodes s1 i = inodes (fs w) i"
    and l: "locks s1 = locks (fs w)" and c: "clock s1 = clock (fs w)" "ktime s1 = ktime (fs w)"
    by metis
  let ?s = "s1\<lparr>locks := filter (\<lambda>(d, i, m). d \<noteq> fd f) (locks s1)\<rparr>"
  have "reduced {} (fs w) ?s"
    using d n i l c f wf_locks_filter [OF assms(3), of "next_fd (fs w)"]
    by (simp add: reduced_def case_prod_beta')
  moreover from o busy assms(1) have "try_lock_exclusive p w = (Inr None, w\<lparr>fs := ?s\<rparr>)"
    by (simp add: try_lock_exclusive_def calm_simps drop_file_def)
  ultimately show ?thesis by blast
qed

lemma lock_exclusive_free:
  assumes "calm w" and "lockable w p" and "wf_os (fs w)" and "\<not> lock_busy (fs w) p"
  shows "\<exists>h s. lock_exclusive p w = (Inr h, w\<lparr>fs := s\<rparr>) \<and> took p h (fs w) s"
proof -
  from open_lock_lockable [OF assms(1-3)] assms(4) obtain f s1 where
    o: "open_lock p w = (Inr f, w\<lparr>fs := s1\<rparr>)" and ino: "ino_at s1 p = Some (f_ino f)"
    and free: "\<not> conflict f Exclusive s1"
    and t: "took p \<lparr>h_path = p, h_file = f\<rparr> (fs w) (grant f Exclusive s1)"
    using took_grant [OF assms(3)] by metis
  let ?w = "w\<lparr>fs := grant f Exclusive s1\<rparr>"
  from assms(1) ino have "names p f ?w = (Inr True, ?w)" by (intro names_calm) simp_all
  with o free assms(1) have "lock_exclusive p w = (Inr \<lparr>h_path = p, h_file = f\<rparr>, ?w)"
    by (subst lock_exclusive.simps) (simp add: calm_simps)
  with t show ?thesis by blast
qed

text \<open>
  Taking a lock, doing work that only removes names, and dropping the lock: the lock file is
  gone as well, and the lock table is as before.
\<close>

lemma remove_file_calm [calm_simps]:
  "calm w \<Longrightarrow> remove_file p w = (case node_at (fs w) p of
     None \<Rightarrow> (Inl (Err NotFound), w)
   | Some m \<Rightarrow> if kind m = Directory then (Inl (Err IsADirectory), w)
                else (Inr (), w\<lparr>fs := remove_name p (fs w)\<rparr>))"
  by (simp add: remove_file_def sys_calm unlink_os_def split: option.splits)

lemma remove_dir_all_calm [calm_simps]:
  "calm w \<Longrightarrow> remove_dir_all p w = (case node_at (fs w) p of
     None \<Rightarrow> (Inl (Err NotFound), w)
   | Some m \<Rightarrow> if kind m = Directory then (Inr (), w\<lparr>fs := remove_tree p (fs w)\<rparr>)
                else (Inl (Err NotADirectory), w))"
  by (simp add: remove_dir_all_def sys_calm rmtree_os_def split: option.splits)

lemma drop_held_took:
  assumes "calm w" and "wf_os s" and t: "took p h s s1" and r: "reduced D s1 s2" and "p \<notin> D"
  shows "\<exists>s3. drop_held h (w\<lparr>fs := s2\<rparr>) = w\<lparr>fs := s3\<rparr> \<and> reduced (insert p D) s s3"
proof -
  let ?f = "h_file h"
  from t have wf1: "wf_os s1" and p1: "ino_at s1 p = Some (f_ino ?f)" and hp: "h_path h = p"
    and k: "kind (inodes s1 (f_ino ?f)) = Regular" and lt: "f_ino ?f < next_ino s1"
    by (simp_all add: took_def)
  from r p1 \<open>p \<notin> D\<close> have "ino_at s2 p = Some (f_ino ?f)" by (simp add: reduced_ino_at)
  moreover from r k lt have "kind (inodes s2 (f_ino ?f)) = Regular" by (simp add: reduced_def)
  ultimately have rm: "remove_file p (w\<lparr>fs := s2\<rparr>) = (Inr (), w\<lparr>fs := remove_name p s2\<rparr>)"
    using assms(1) by (simp add: calm_simps node_at_def)
  let ?s3 = "(remove_name p s2)\<lparr>locks := filter (\<lambda>(d, i, m). d \<noteq> fd ?f) (locks s2)\<rparr>"
  have "drop_held h (w\<lparr>fs := s2\<rparr>) = w\<lparr>fs := ?s3\<rparr>"
    by (simp add: drop_held_def hp rm drop_file_def)
  moreover have "reduced (insert p D) s ?s3"
  proof -
    have "dirents ?s3 = filter (\<lambda>(q, i). q \<notin> D) (filter (\<lambda>(q, i). q \<noteq> p) (dirents s1))"
      using r by (auto simp: reduced_def remove_name_def intro!: filter_cong)
    also have "filter (\<lambda>(q, i). q \<noteq> p) (dirents s1) = filter (\<lambda>(q, i). q \<noteq> p) (dirents s)"
      using t by (simp add: took_def)
    finally have "dirents ?s3 = filter (\<lambda>(q, i). q \<notin> insert p D) (dirents s)"
      by (auto intro!: filter_cong)
    moreover have "locks ?s3 = locks s"
      using t r wf_locks_filter [OF assms(2), of "next_fd s"] by (simp add: took_def reduced_def)
    ultimately show ?thesis
      using t r by (auto simp: took_def reduced_def)
  qed
  ultimately show ?thesis by blast
qed

section \<open>Removing, checking and reading files\<close>

text \<open>The names that go when whatever is at \<open>p\<close> is removed.\<close>

definition names_of :: "os \<Rightarrow> path \<Rightarrow> path set" where
  "names_of s p = (if map_option kind (node_at s p) = Some Directory then {q. under p q} else {p})"

lemma reduced_remove_name: "reduced {p} s (remove_name p s)"
  by (simp add: reduced_def) (simp add: remove_name_def case_prod_beta')

lemma reduced_remove_tree: "reduced {q. under p q} s (remove_tree p s)"
  by (simp add: reduced_def) (simp add: remove_tree_def case_prod_beta')

lemma reduced_missing: "ino_at s p = None \<Longrightarrow> reduced {p} s s"
proof -
  assume "ino_at s p = None"
  then have "p \<notin> fst ` set (dirents s)" by (metis ino_at_def map_of_eq_None_iff)
  then have "filter (\<lambda>(q, i). q \<noteq> p) (dirents s) = dirents s"
    by (intro filter_True) force
  then show ?thesis by (simp add: reduced_def)
qed

lemma same_world: "P (fs w) \<Longrightarrow> \<exists>s. w = w\<lparr>fs := s\<rparr> \<and> P s"
  by (rule exI [of _ "fs w"]) simp

lemma private_remove_calm:
  assumes "calm w"
  shows "\<exists>s. private_remove p w = (Inr (), w\<lparr>fs := s\<rparr>) \<and> reduced (names_of (fs w) p) (fs w) s"
proof (cases "ino_at (fs w) p")
  case None
  with assms have "private_remove p w = (Inr (), w\<lparr>fs := fs w\<rparr>)"
    by (simp add: private_remove_def calm_simps)
  with None reduced_missing show ?thesis
    by (auto simp: names_of_def node_at_def intro!: same_world)
next
  case (Some i)
  show ?thesis
  proof (cases "kind (inodes (fs w) i) = Directory")
    case True
    with Some assms have "private_remove p w = (Inr (), w\<lparr>fs := remove_tree p (fs w)\<rparr>)"
      by (simp add: private_remove_def calm_simps is_dir_def node_at_def)
    with True Some reduced_remove_tree show ?thesis by (auto simp: names_of_def node_at_def)
  next
    case False
    with Some assms have "private_remove p w = (Inr (), w\<lparr>fs := remove_name p (fs w)\<rparr>)"
      by (simp add: private_remove_def calm_simps is_dir_def node_at_def)
    with False Some reduced_remove_name show ?thesis by (auto simp: names_of_def node_at_def)
  qed
qed

definition metadata_at :: "os \<Rightarrow> path \<Rightarrow> metadata option" where
  "metadata_at s p = (case ino_at s p of
     None \<Rightarrow> None | Some i \<Rightarrow> Some \<lparr>m_ino = i, m_node = inodes s i\<rparr>)"

text \<open>The metadata of a regular file.\<close>

definition regular_at :: "os \<Rightarrow> path \<Rightarrow> metadata option" where
  "regular_at s p = (case metadata_at s p of
     None \<Rightarrow> None | Some m \<Rightarrow> if is_file m then Some m else None)"

lemma regular_calm:
  assumes "calm w"
  shows "\<exists>s. regular p w = (Inr (regular_at (fs w) p), w\<lparr>fs := s\<rparr>)
    \<and> reduced (if regular_at (fs w) p = None then names_of (fs w) p else {}) (fs w) s"
proof (cases "ino_at (fs w) p")
  case None
  with assms have "regular p w = (Inr None, w\<lparr>fs := fs w\<rparr>)"
    by (simp add: regular_def calm_simps)
  with None reduced_missing show ?thesis
    by (auto simp: names_of_def node_at_def regular_at_def metadata_at_def intro!: same_world)
next
  case (Some i)
  let ?m = "\<lparr>m_ino = i, m_node = inodes (fs w) i\<rparr>"
  show ?thesis
  proof (cases "is_file ?m")
    case True
    with Some assms have "regular p w = (Inr (Some ?m), w\<lparr>fs := fs w\<rparr>)"
      by (simp add: regular_def calm_simps)
    with True Some show ?thesis
      by (auto simp: regular_at_def metadata_at_def intro!: same_world)
  next
    case False
    from private_remove_calm [OF assms] obtain s where
      s: "private_remove p w = (Inr (), w\<lparr>fs := s\<rparr>)" "reduced (names_of (fs w) p) (fs w) s"
      by blast
    with False Some assms have "regular p w = (Inr None, w\<lparr>fs := s\<rparr>)"
      by (simp add: regular_def calm_simps)
    with s False Some show ?thesis by (auto simp: regular_at_def metadata_at_def)
  qed
qed

text \<open>Opening for reading and closing again leaves the files as they were.\<close>

lemma reduced_next_fd:
  "wf_os s \<Longrightarrow> reduced {} s (s\<lparr>next_fd := Suc (next_fd s),
     locks := filter (\<lambda>(d, i, m). d \<noteq> next_fd s) (locks s)\<rparr>)"
  using wf_locks_filter [of s "next_fd s"] by (simp add: reduced_def)

definition read_result :: "metadata option \<Rightarrow> u64 \<Rightarrow> (u8 list \<times> metadata) option" where
  "read_result found limit = (case found of
     None \<Rightarrow> None
   | Some m \<Rightarrow> if limit < m_len m then None
               else Some (take (unat (saturating_add limit 1)) (data (m_node m)), m))"

lemma m_len_take: "\<not> limit < m_len m \<Longrightarrow> \<not> limit < u64_or_max (length (take n (data (m_node m))))"
  by (auto simp: m_len_def word_less_nat_alt not_less sat_simps)

lemma read_whole:
  assumes "length (data (m_node m)) < 2 ^ 64" and "\<not> limit < m_len m"
  shows "take (unat (saturating_add limit 1)) (data (m_node m)) = data (m_node m)"
proof -
  from assms have "length (data (m_node m)) \<le> unat limit"
    by (simp add: m_len_def word_less_nat_alt not_less sat_simps min_def split: if_splits)
  moreover from this assms(1) have "length (data (m_node m)) \<le> 2 ^ 64 - 1" by simp
  ultimately show ?thesis by (simp add: sat_simps)
qed

lemma private_read_calm:
  assumes "calm w" and "wf_os (fs w)"
  shows "\<exists>s. private_read p limit w = (Inr (read_result (regular_at (fs w) p) limit), w\<lparr>fs := s\<rparr>)
    \<and> reduced {} (fs w) s"
proof (cases "ino_at (fs w) p")
  case None
  with assms(1) have "private_read p limit w = (Inr None, w\<lparr>fs := fs w\<rparr>)"
    by (simp add: private_read_def open_with_def sys_calm open_os_def read_flags_def)
  with None show ?thesis
    by (auto simp: read_result_def regular_at_def metadata_at_def intro!: same_world)
next
  case (Some i)
  let ?m = "\<lparr>m_ino = i, m_node = inodes (fs w) i\<rparr>" and ?f = "\<lparr>fd = next_fd (fs w), f_ino = i\<rparr>"
  let ?s1 = "(fs w)\<lparr>next_fd := Suc (next_fd (fs w))\<rparr>"
  let ?s = "(fs w)\<lparr>next_fd := Suc (next_fd (fs w)),
     locks := filter (\<lambda>(d, i, m). d \<noteq> next_fd (fs w)) (locks (fs w))\<rparr>"
  consider (plain) "is_file ?m" "open_with read_flags 0 p w = (Inr ?f, w\<lparr>fs := ?s1\<rparr>)"
    | (other) "\<not> is_file ?m" "open_with read_flags 0 p w = (Inr ?f, w\<lparr>fs := ?s1\<rparr>)"
    | (refused) e where "\<not> is_file ?m" "e \<noteq> NotFound" "open_with read_flags 0 p w = (Inl (Err e), w)"
    using Some assms(1)
    by (cases "kind (inodes (fs w) i)")
      (auto simp: open_with_def sys_calm open_os_def read_flags_def Let_def is_file_def)
  then show ?thesis
  proof cases
    case plain
    have "private_read p limit w = (Inr (read_result (Some ?m) limit), w\<lparr>fs := ?s\<rparr>)"
    proof (cases "limit < m_len ?m")
      case True
      with plain assms(1) show ?thesis
        by (simp add: private_read_def calm_simps drop_file_def read_result_def)
    next
      case False
      from plain assms(1)
      have rd: "read_up_to ?f n (w\<lparr>fs := ?s1\<rparr>) = (Inr (take n (data (inodes (fs w) i))), w\<lparr>fs := ?s1\<rparr>)" for n
        by (simp add: read_up_to_def sys_calm read_os_def is_file_def)
      have "\<not> limit < u64_or_max (length (take (unat (saturating_add limit 1)) (data (inodes (fs w) i))))"
        using m_len_take [OF False] by simp
      with plain False assms(1) rd show ?thesis
        by (simp add: private_read_def calm_simps drop_file_def read_result_def del: length_take)
    qed
    with plain Some reduced_next_fd [OF assms(2)] show ?thesis
      by (auto simp: regular_at_def metadata_at_def)
  next
    case other
    with assms(1) have "private_read p limit w = (Inr None, w\<lparr>fs := ?s\<rparr>)"
      by (simp add: private_read_def calm_simps drop_file_def)
    with other Some reduced_next_fd [OF assms(2)] show ?thesis
      by (auto simp: regular_at_def metadata_at_def read_result_def)
  next
    case refused
    with Some assms(1) have "private_read p limit w = (Inr None, w\<lparr>fs := fs w\<rparr>)"
      by (simp add: private_read_def calm_simps)
    with refused Some show ?thesis
      by (auto simp: regular_at_def metadata_at_def read_result_def intro!: same_world)
  qed
qed

text \<open>What \<open>read_header\<close> and \<open>live\<close> compute from the bytes of the file.\<close>

definition header_in :: "'v serde \<Rightarrow> u8 list \<Rightarrow> header option" where
  "header_in j bytes = (case scan_header [] (chunks_of buffer_size bytes) of
     None \<Rightarrow> None | Some prefix \<Rightarrow> parse_header j prefix)"

definition live_in :: "'v serde \<Rightarrow> path \<Rightarrow> u64 \<Rightarrow> u8 list \<Rightarrow> bool" where
  "live_in j p now bytes = (case header_in j bytes of
     None \<Rightarrow> False
   | Some h \<Rightarrow> consistent h \<and> entry_digest p = Some (h_digest h) \<and> now \<le> h_stale_until_ms h)"

lemma live_calm:
  assumes "calm w" and "wf_os (fs w)" and "regular_at (fs w) p = Some m"
  shows "\<exists>s. live j p now limit w =
      (Inr (live_in j p now (take (unat limit) (data (m_node m)))), w\<lparr>fs := s\<rparr>)
    \<and> reduced {} (fs w) s"
proof -
  from assms(3) obtain i where i: "ino_at (fs w) p = Some i" "m = \<lparr>m_ino = i, m_node = inodes (fs w) i\<rparr>"
    "kind (inodes (fs w) i) = Regular"
    by (auto simp: regular_at_def metadata_at_def is_file_def split: option.splits if_splits)
  let ?f = "\<lparr>fd = next_fd (fs w), f_ino = i\<rparr>" and ?s1 = "(fs w)\<lparr>next_fd := Suc (next_fd (fs w))\<rparr>"
  let ?s = "(fs w)\<lparr>next_fd := Suc (next_fd (fs w)),
     locks := filter (\<lambda>(d, i, m). d \<noteq> next_fd (fs w)) (locks (fs w))\<rparr>"
  from i assms(1) have "file_open p w = (Inr ?f, w\<lparr>fs := ?s1\<rparr>)"
    by (simp add: file_open_def open_with_def sys_calm open_os_def resolve_file Let_def)
  moreover from i assms(1)
  have "read_up_to ?f n (w\<lparr>fs := ?s1\<rparr>) = (Inr (take n (data (inodes (fs w) i))), w\<lparr>fs := ?s1\<rparr>)" for n
    by (simp add: read_up_to_def sys_calm read_os_def)
  ultimately have "read_header j p limit w =
      (Inr (header_in j (take (unat limit) (data (inodes (fs w) i)))), w\<lparr>fs := ?s\<rparr>)"
    by (simp add: read_header_def header_in_def drop_file_def split: option.splits)
  then have "live j p now limit w =
      (Inr (live_in j p now (take (unat limit) (data (inodes (fs w) i)))), w\<lparr>fs := ?s\<rparr>)"
    by (simp add: live_def live_in_def)
  with i reduced_next_fd [OF assms(2)] show ?thesis by auto
qed

end
