(* ===== verification/Cache.thy ===== *)
theory Cache
  imports Entry
begin

text \<open>
  The operations on one key (\<open>crates/unixd-cache/src/cache.rs\<close>): opening a cache, reading a
  key with and without its lock, taking the lock, writing an entry atomically, counting the
  entries. The wall clock is the \<open>clock\<close> of the world; a read takes the time once, where
  the source does.
\<close>

section \<open>State and results\<close>

record 'v cached =
  c_value :: 'v
  stored_at_ms :: u64
  age_ms :: u64
  c_source :: horizon_source

datatype 'v lookup = Miss | Fresh "'v cached" | Stale "'v cached"

record usage =
  u_entries :: u64
  u_bytes :: u64

definition usage_remove :: "u64 \<Rightarrow> usage \<Rightarrow> usage" where
  "usage_remove bytes u = \<lparr>u_entries = saturating_sub (u_entries u) 1,
     u_bytes = saturating_sub (u_bytes u) bytes\<rparr>"

text \<open>\<open>Inner\<close>; its clock is the world's.\<close>

record inner =
  root :: path
  schema :: u32
  i_limits :: limits

definition entries_dir :: "inner \<Rightarrow> path" where
  "entries_dir inner = root inner @ [entries_name]"

definition locks_dir :: "inner \<Rightarrow> path" where
  "locks_dir inner = root inner @ [locks_name]"

definition maintenance_path :: "inner \<Rightarrow> path" where
  "maintenance_path inner = root inner @ [maintenance_name]"

definition prune_lock_path :: "inner \<Rightarrow> path" where
  "prune_lock_path inner = root inner @ [prune_lock_name]"

definition entry_path :: "inner \<Rightarrow> str \<Rightarrow> path" where
  "entry_path inner d = entries_dir inner @ [entry_name d]"

definition lock_path :: "inner \<Rightarrow> str \<Rightarrow> path" where
  "lock_path inner d = locks_dir inner @ [lock_name d]"

record key_lock =
  kl_inner :: inner
  kl_key :: key
  kl_held :: held
  kl_maintenance :: handle

section \<open>Opening\<close>

text \<open>
  \<open>Cache::with_clock\<close>; \<open>r\<close> is the root after \<open>path::absolute\<close>, \<open>temp\<close> the name \<open>tempfile\<close>
  picks for the tag.
\<close>

definition with_clock :: "str \<Rightarrow> path \<Rightarrow> u32 \<Rightarrow> limits \<Rightarrow> inner cache_io" where
  "with_clock temp r schem lims = (let inner = \<lparr>root = r, schema = schem, i_limits = lims\<rparr> in
     andThen (ensure_root r) (\<lambda>_.
     andThen (ensure_dir (entries_dir inner)) (\<lambda>_.
     andThen (ensure_dir (locks_dir inner)) (\<lambda>_.
     andThen (open_lock (maintenance_path inner)) (\<lambda>m w.
     andThen (create_private temp r cachedir_tag (as_bytes cachedir_tag_text)) (\<lambda>_ w.
       case symlink_metadata (prune_lock_path inner) w of
         (Inl Pending, w1) \<Rightarrow> (Inl Pending, w1)
       | (Inr _, w1) \<Rightarrow> (Inr inner, w1)
       | (Inl (Err _), w1) \<Rightarrow>
           andThen (open_lock (prune_lock_path inner)) (\<lambda>p w2.
             let w3 = drop_file p w2 in
             andThen (touch (prune_lock_path inner) (at (now_ms w3))) (\<lambda>_. ok inner) w3) w1)
       (drop_file m w))))))"

section \<open>Reading\<close>

text \<open>Removes the entry only under the key lock.\<close>

definition discard :: "path \<Rightarrow> bool \<Rightarrow> 'v lookup cache_io" where
  "discard p locked =
     (if locked then andThen (ignore (private_remove p)) (\<lambda>_. ok Miss) else ok Miss)"

definition cache_read :: "'v serde \<Rightarrow> inner \<Rightarrow> key \<Rightarrow> bool \<Rightarrow> 'v lookup cache_io" where
  "cache_read j inner k locked =
     andThen (ensure_dir (entries_dir inner)) (\<lambda>_.
     let p = entry_path inner (digest k) in
     andThen (private_read p (max_entry_bytes (i_limits inner))) (\<lambda>found.
       case found of
         None \<Rightarrow> discard p locked
       | Some (bytes, m) \<Rightarrow> (case parse_header j bytes of
           None \<Rightarrow> discard p locked
         | Some h \<Rightarrow>
             if h_schema h > schema inner then ok Miss
             else if \<not> consistent h \<or> h_digest h \<noteq> digest k \<or> h_namespace h \<noteq> namespace k
             then discard p locked
             else (\<lambda>w. let now = now_ms w in
               if now > h_stale_until_ms h then discard p locked w
               else (case parse_value j bytes of
                   None \<Rightarrow> discard p locked w
                 | Some v \<Rightarrow>
                     andThen
                       (if saturating_sub now (modified_ms m) > millis (touch_after (i_limits inner))
                        then ignore (touch p (at now)) else ok ())
                       (\<lambda>_. let cached = \<lparr>c_value = v, stored_at_ms = h_stored_at_ms h,
                              age_ms = saturating_sub now (h_stored_at_ms h), c_source = h_source h\<rparr>
                         in ok (if h_schema h = schema inner \<and> now \<le> h_fresh_until_ms h
                                then Fresh cached else Stale cached)) w)))))"

text \<open>\<open>Cache::lookup\<close> and \<open>KeyLock::lookup\<close>\<close>

definition cache_lookup :: "'v serde \<Rightarrow> inner \<Rightarrow> key \<Rightarrow> 'v lookup cache_io" where
  "cache_lookup j inner k = cache_read j inner k False"

definition locked_lookup :: "'v serde \<Rightarrow> key_lock \<Rightarrow> 'v lookup cache_io" where
  "locked_lookup j kl = cache_read j (kl_inner kl) (kl_key kl) True"

section \<open>Locking a key\<close>

definition cache_lock :: "inner \<Rightarrow> key \<Rightarrow> key_lock cache_io" where
  "cache_lock inner k =
     andThen (validate_root (root inner)) (\<lambda>_.
     andThen (ensure_dir (locks_dir inner)) (\<lambda>_.
     andThen (open_lock (maintenance_path inner)) (\<lambda>m.
       on_error
         (andThen (take_lock m Shared) (\<lambda>_.
          andThen (lock_exclusive (lock_path inner (digest k))) (\<lambda>h.
          ok \<lparr>kl_inner = inner, kl_key = k, kl_held = h, kl_maintenance = m\<rparr>)))
         (drop_file m))))"

text \<open>The fields of a \<open>KeyLock\<close> are dropped in their order.\<close>

definition drop_key_lock :: "key_lock \<Rightarrow> world \<Rightarrow> world" where
  "drop_key_lock kl w = drop_file (kl_maintenance kl) (drop_held (kl_held kl) w)"

section \<open>Writing\<close>

definition write_atomic :: "str \<Rightarrow> inner \<Rightarrow> str \<Rightarrow> u8 list \<Rightarrow> unit cache_io" where
  "write_atomic rnd inner d bytes = (let tmp = entries_dir inner @ [temporary_name d rnd] in
     andThen (ensure_dir (entries_dir inner)) (\<lambda>_.
     andThen (io (create_new tmp)) (\<lambda>f.
     andThen
       (on_error
         (andThen (io (write_all f bytes)) (\<lambda>_ w.
          andThen (io (set_modified f (at (now_ms w)))) (\<lambda>_.
          andThen (io (sync_all f)) (\<lambda>_.
          io (rename tmp (entry_path inner d)))) w))
         (drop_temp tmp f))
       (\<lambda>_ w. sync_dir (entries_dir inner) (drop_file f w)))))"

section \<open>Counting\<close>

fun count_usage :: "usage \<Rightarrow> path list \<Rightarrow> usage cache_io" where
  "count_usage u [] w = (Inr u, w)"
| "count_usage u (p # ps) w =
     (if entry_digest p = None then count_usage u ps w
      else (case symlink_metadata p w of
        (Inl Pending, w1) \<Rightarrow> (Inl Pending, w1)
      | (Inl (Err e), w1) \<Rightarrow>
          if e = NotFound then count_usage u ps w1 else (Inl (Err (error_io e)), w1)
      | (Inr m, w1) \<Rightarrow>
          if is_file m
          then count_usage \<lparr>u_entries = u_entries u + 1,
                 u_bytes = saturating_add (u_bytes u) (m_len m)\<rparr> ps w1
          else count_usage u ps w1))"

definition usage_of :: "inner \<Rightarrow> usage cache_io" where
  "usage_of inner =
     andThen (ensure_dir (entries_dir inner)) (\<lambda>_.
     andThen (io (read_dir (entries_dir inner))) (\<lambda>items.
     count_usage \<lparr>u_entries = 0, u_bytes = 0\<rparr> items))"

definition sweep_due :: "inner \<Rightarrow> bool cache_io" where
  "sweep_due inner w = (case symlink_metadata (prune_lock_path inner) w of
     (Inl Pending, w1) \<Rightarrow> (Inl Pending, w1)
   | (Inl (Err _), w1) \<Rightarrow> (Inr False, w1)
   | (Inr m, w1) \<Rightarrow>
       (Inr (saturating_sub (now_ms w1) (modified_ms m) > millis (sweep_every (i_limits inner))), w1))"

end
