(* ===== verification/Ready.thy ===== *)
theory Ready
  imports Calm Cache
begin

text \<open>
  \<open>ready inner w\<close>: the invariant of an opened cache nobody interferes with. The root, the
  \<open>entries\<close> and the \<open>locks\<close> directories are private, \<open>maintenance.lock\<close> and \<open>prune.lock\<close> are
  private files, and every lock file is one. Entry files may hold anything, and may be
  links or directories.
\<close>

definition ready :: "inner \<Rightarrow> world \<Rightarrow> bool" where
  "ready inner w \<longleftrightarrow> calm w \<and> wf_os (fs w)
     \<and> private_dir w (root inner) \<and> private_dir w (entries_dir inner)
     \<and> private_dir w (locks_dir inner)
     \<and> private_file w (maintenance_path inner) \<and> private_file w (prune_lock_path inner)
     \<and> (\<forall>p. child_of (locks_dir inner) p \<longrightarrow> ino_at (fs w) p \<noteq> None \<longrightarrow> private_file w p)"

text \<open>The names a cache never removes.\<close>

definition fixed_paths :: "inner \<Rightarrow> path set" where
  "fixed_paths inner = {root inner, entries_dir inner, locks_dir inner,
     maintenance_path inner, prune_lock_path inner}"

lemma private_dir_reduced:
  assumes "reduced D (fs w) s" and "wf_os (fs w)" and "p \<notin> D"
  shows "private_dir (w\<lparr>fs := s\<rparr>) p = private_dir w p"
  using assms
  by (auto simp: private_dir_def reduced_ino_at) (auto simp: reduced_def dest: wf_ino_less)

lemma private_file_reduced:
  assumes "reduced D (fs w) s" and "wf_os (fs w)" and "p \<notin> D"
  shows "private_file (w\<lparr>fs := s\<rparr>) p = private_file w p"
  using assms
  by (auto simp: private_file_def reduced_ino_at) (auto simp: reduced_def dest: wf_ino_less)

lemma ready_reduced:
  assumes r: "ready inner w" and s: "reduced D (fs w) s" and D: "D \<inter> fixed_paths inner = {}"
  shows "ready inner (w\<lparr>fs := s\<rparr>)"
proof -
  from r have wf: "wf_os (fs w)" by (simp add: ready_def)
  have "private_file (w\<lparr>fs := s\<rparr>) p"
    if "child_of (locks_dir inner) p" and "ino_at s p \<noteq> None" for p
  proof -
    from that(2) s have "p \<notin> D" and "ino_at (fs w) p \<noteq> None"
      by (auto simp: reduced_ino_at split: if_splits)
    with that(1) r have "private_file w p" by (simp add: ready_def)
    with private_file_reduced [OF s wf \<open>p \<notin> D\<close>] show ?thesis by simp
  qed
  with r D reduced_wf [OF s wf] private_dir_reduced [OF s wf] private_file_reduced [OF s wf]
  show ?thesis by (auto simp: ready_def fixed_paths_def)
qed

text \<open>Names under the entries and the locks directory are none of the fixed ones.\<close>

lemma entries_not_locks [simp]: "entries_name \<noteq> locks_name" "locks_name \<noteq> entries_name"
  by (simp_all add: entries_name_def locks_name_def)

lemma entry_path_not_fixed:
  assumes "under (entry_path inner d) q"
  shows "q \<notin> fixed_paths inner"
proof -
  from assms have "take (length (root inner) + 2) q = root inner @ [entries_name, entry_name d]"
    by (simp add: under_def entry_path_def entries_dir_def)
  then have "length (take (length (root inner) + 2) q) = length (root inner) + 2" by simp
  then have "length q \<ge> length (root inner) + 2" by simp
  then show ?thesis
    by (auto simp: fixed_paths_def entries_dir_def locks_dir_def maintenance_path_def
        prune_lock_path_def)
qed

lemma names_of_entry: "names_of s (entry_path inner d) \<inter> fixed_paths inner = {}"
  using entry_path_not_fixed [of inner d]
  by (auto simp: names_of_def under_def)

lemma lock_path_not_fixed [simp]: "lock_path inner d \<notin> fixed_paths inner"
  by (auto simp: fixed_paths_def lock_path_def entries_dir_def locks_dir_def
      maintenance_path_def prune_lock_path_def)

lemma butlast_paths [simp]:
  "butlast (entry_path inner d) = entries_dir inner" "butlast (lock_path inner d) = locks_dir inner"
  "butlast (entries_dir inner) = root inner" "butlast (locks_dir inner) = root inner"
  "butlast (maintenance_path inner) = root inner" "butlast (prune_lock_path inner) = root inner"
  by (simp_all add: entry_path_def lock_path_def entries_dir_def locks_dir_def
      maintenance_path_def prune_lock_path_def butlast_append)

lemma child_of_simps [simp]:
  "child_of (entries_dir inner) (entry_path inner d)"
  "child_of (locks_dir inner) (lock_path inner d)"
  "\<not> child_of (locks_dir inner) (entry_path inner d)"
  "\<not> child_of (entries_dir inner) (lock_path inner d)"
  by (simp_all add: child_of_def entry_path_def lock_path_def entries_dir_def locks_dir_def
      butlast_append)

lemma ready_lockable: "ready inner w \<Longrightarrow> lockable w (lock_path inner d)"
  by (cases "ino_at (fs w) (lock_path inner d)") (auto simp: ready_def lockable_def)

lemmas readyD = ready_def [THEN iffD1, THEN conjunct1]

section \<open>Touching a file\<close>

definition touched :: "path \<Rightarrow> int \<Rightarrow> os \<Rightarrow> os \<Rightarrow> bool" where
  "touched p t s s' \<longleftrightarrow> (\<exists>i. ino_at s p = Some i
     \<and> reduced {} (set_node i ((inodes s i)\<lparr>mtime := t\<rparr>) s) s')"

lemma touch_calm:
  assumes "calm w" and "wf_os (fs w)" and "regular_at (fs w) p \<noteq> None"
  shows "\<exists>s. touch p t w = (Inr (), w\<lparr>fs := s\<rparr>) \<and> touched p t (fs w) s"
proof -
  from assms(3) obtain i where i: "ino_at (fs w) p = Some i" "kind (inodes (fs w) i) = Regular"
    by (auto simp: regular_at_def metadata_at_def is_file_def split: option.splits if_splits)
  let ?f = "\<lparr>fd = next_fd (fs w), f_ino = i\<rparr>" and ?s1 = "(fs w)\<lparr>next_fd := Suc (next_fd (fs w))\<rparr>"
  let ?t = "set_node i ((inodes (fs w) i)\<lparr>mtime := t\<rparr>) (fs w)"
  let ?s = "?t\<lparr>next_fd := Suc (next_fd ?t),
     locks := filter (\<lambda>(d, i, m). d \<noteq> next_fd ?t) (locks ?t)\<rparr>"
  from i assms(1) have "open_with read_flags 0 p w = (Inr ?f, w\<lparr>fs := ?s1\<rparr>)"
    by (simp add: open_with_def sys_calm open_os_def read_flags_def Let_def)
  then have "touch p t w = (Inr (), w\<lparr>fs := ?s\<rparr>)"
    using assms(1) by (simp add: touch_def calm_simps drop_file_def set_node_def)
  moreover have "wf_os ?t" using assms(2) by (simp add: wf_os_def)
  then have "reduced {} ?t ?s" by (rule reduced_next_fd)
  ultimately show ?thesis using i by (auto simp: touched_def)
qed

section \<open>What a read of a key decides\<close>

text \<open>
  \<open>Discard\<close>: nothing usable, the file may go. \<open>Ignore\<close>: an entry of a newer schema.
  \<open>Serve\<close>: the result, and whether the hit is recorded.
\<close>

datatype 'v verdict = Discard | Ignore | Serve "'v lookup" bool

definition judge :: "'v serde \<Rightarrow> inner \<Rightarrow> key \<Rightarrow> u64 \<Rightarrow> (u8 list \<times> metadata) option \<Rightarrow> 'v verdict" where
  "judge j inner k now found = (case found of
     None \<Rightarrow> Discard
   | Some (bytes, m) \<Rightarrow> (case parse_header j bytes of
       None \<Rightarrow> Discard
     | Some h \<Rightarrow>
         if h_schema h > schema inner then Ignore
         else if \<not> consistent h \<or> h_digest h \<noteq> digest k \<or> h_namespace h \<noteq> namespace k then Discard
         else if now > h_stale_until_ms h then Discard
         else (case parse_value j bytes of
             None \<Rightarrow> Discard
           | Some v \<Rightarrow>
               let c = \<lparr>c_value = v, stored_at_ms = h_stored_at_ms h,
                     age_ms = saturating_sub now (h_stored_at_ms h), c_source = h_source h\<rparr>
               in Serve (if h_schema h = schema inner \<and> now \<le> h_fresh_until_ms h
                         then Fresh c else Stale c)
                    (saturating_sub now (modified_ms m) > millis (touch_after (i_limits inner))))))"

definition verdict_lookup :: "'v verdict \<Rightarrow> 'v lookup" where
  "verdict_lookup v = (case v of Discard \<Rightarrow> Miss | Ignore \<Rightarrow> Miss | Serve r t \<Rightarrow> r)"

definition verdict_effect :: "'v verdict \<Rightarrow> bool \<Rightarrow> path \<Rightarrow> int \<Rightarrow> os \<Rightarrow> os \<Rightarrow> bool" where
  "verdict_effect v locked p now s s' = (case v of
     Discard \<Rightarrow> reduced (if locked then names_of s p else {}) s s'
   | Ignore \<Rightarrow> reduced {} s s'
   | Serve r t \<Rightarrow> if t then touched p now s s' else reduced {} s s')"

definition verdict_on :: "'v serde \<Rightarrow> inner \<Rightarrow> key \<Rightarrow> os \<Rightarrow> 'v verdict" where
  "verdict_on j inner k s = judge j inner k (clock s)
     (read_result (regular_at s (entry_path inner (digest k))) (max_entry_bytes (i_limits inner)))"

lemma discard_calm:
  assumes "calm w"
  shows "\<exists>s. discard p locked w = (Inr Miss, w\<lparr>fs := s\<rparr>)
    \<and> reduced (if locked then names_of (fs w) p else {}) (fs w) s"
proof (cases locked)
  case True
  from private_remove_calm [OF assms] obtain s where
    "private_remove p w = (Inr (), w\<lparr>fs := s\<rparr>)" "reduced (names_of (fs w) p) (fs w) s"
    by blast
  with True show ?thesis by (auto simp: discard_def ignore_def)
next
  case False
  then show ?thesis by (auto simp: discard_def intro!: same_world)
qed

lemma reduced_same_names: "reduced {} s s' \<Longrightarrow> wf_os s \<Longrightarrow> names_of s' p = names_of s p"
  by (simp add: names_of_def reduced_node_at)

lemma regular_at_reduced:
  "reduced D s s' \<Longrightarrow> wf_os s \<Longrightarrow> p \<notin> D \<Longrightarrow> regular_at s' p = regular_at s p"
  by (auto simp: regular_at_def metadata_at_def reduced_ino_at split: option.splits)
    (auto simp: reduced_def dest: wf_ino_less)

lemma touched_reduced:
  assumes "reduced {} s s1" and "touched p t s1 s2" and "wf_os s"
  shows "touched p t s s2"
proof -
  from assms(2) obtain i where i: "ino_at s1 p = Some i"
    and r: "reduced {} (set_node i ((inodes s1 i)\<lparr>mtime := t\<rparr>) s1) s2"
    by (auto simp: touched_def)
  from i assms(1,3) have i': "ino_at s p = Some i" "i < next_ino s"
    by (auto simp: reduced_ino_at dest: wf_ino_less)
  then have "reduced {} (set_node i ((inodes s i)\<lparr>mtime := t\<rparr>) s)
      (set_node i ((inodes s1 i)\<lparr>mtime := t\<rparr>) s1)"
    using assms(1) by (auto simp: reduced_def)
  from reduced_trans [OF this r] i' show ?thesis by (auto simp: touched_def)
qed

lemma cache_read_undisturbed:
  assumes calm: "calm w" and wf: "wf_os (fs w)" and d: "private_dir w (entries_dir inner)"
  shows "\<exists>s. cache_read j inner k locked w =
      (Inr (verdict_lookup (verdict_on j inner k (fs w))), w\<lparr>fs := s\<rparr>)
    \<and> verdict_effect (verdict_on j inner k (fs w)) locked (entry_path inner (digest k))
        (at (now_ms w)) (fs w) s"
proof -
  let ?p = "entry_path inner (digest k)" and ?lim = "max_entry_bytes (i_limits inner)"
  let ?found = "read_result (regular_at (fs w) ?p) ?lim"
  let ?v = "verdict_on j inner k (fs w)"
  from private_read_calm [OF calm wf, of ?p ?lim] obtain s1 where
    rd: "private_read ?p ?lim w = (Inr ?found, w\<lparr>fs := s1\<rparr>)" and s1: "reduced {} (fs w) s1"
    by blast
  let ?w1 = "w\<lparr>fs := s1\<rparr>"
  from s1 have now: "now_ms ?w1 = now_ms w" by (simp add: now_ms_def reduced_def)
  from s1 wf have wf1: "wf_os s1" by (rule reduced_wf)
  from calm have calm1: "calm ?w1" by simp
  obtain s2 where dc: "discard ?p locked ?w1 = (Inr (Miss :: 'a lookup), w\<lparr>fs := s2\<rparr>)"
    and s2: "reduced (if locked then names_of (fs w) ?p else {}) (fs w) s2"
    using discard_calm [OF calm1, of ?p locked] reduced_trans [OF s1] reduced_same_names [OF s1 wf]
    by (auto split: if_splits)
  show ?thesis
  proof (cases ?v)
    case Discard
    with calm d rd dc now have "cache_read j inner k locked w = (Inr Miss, w\<lparr>fs := s2\<rparr>)"
      by (auto simp: cache_read_def calm_simps verdict_on_def judge_def Let_def now_ms_def
          split: option.splits if_splits)
    with Discard s2 show ?thesis by (auto simp: verdict_lookup_def verdict_effect_def)
  next
    case Ignore
    with calm d rd now have "cache_read j inner k locked w = (Inr Miss, ?w1)"
      by (auto simp: cache_read_def calm_simps verdict_on_def judge_def Let_def now_ms_def
          split: option.splits if_splits)
    with Ignore s1 show ?thesis by (auto simp: verdict_lookup_def verdict_effect_def)
  next
    case (Serve res t)
    from Serve have "regular_at (fs w) ?p \<noteq> None"
      by (cases "regular_at (fs w) ?p") (simp_all add: verdict_on_def judge_def read_result_def)
    then have "regular_at s1 ?p \<noteq> None" by (simp add: regular_at_reduced [OF s1 wf])
    with touch_calm [OF calm1, of ?p "at (now_ms w)"] wf1 obtain s3 where
      tc: "touch ?p (at (now_ms w)) ?w1 = (Inr (), w\<lparr>fs := s3\<rparr>)"
      and s3: "touched ?p (at (now_ms w)) s1 s3"
      by auto
    have "cache_read j inner k locked w = (Inr res, if t then w\<lparr>fs := s3\<rparr> else ?w1)"
      using Serve calm d rd now tc
      by (auto simp: cache_read_def calm_simps verdict_on_def judge_def Let_def now_ms_def ignore_def
          split: option.splits if_splits)
    with Serve s1 touched_reduced [OF s1 s3 wf] show ?thesis
      by (auto simp: verdict_lookup_def verdict_effect_def)
  qed
qed

lemma cache_read_calm:
  "ready inner w \<Longrightarrow> \<exists>s. cache_read j inner k locked w =
      (Inr (verdict_lookup (verdict_on j inner k (fs w))), w\<lparr>fs := s\<rparr>)
    \<and> verdict_effect (verdict_on j inner k (fs w)) locked (entry_path inner (digest k))
        (at (now_ms w)) (fs w) s"
  by (rule cache_read_undisturbed) (simp_all add: ready_def)

end
