(* ===== verification/Prune.thy ===== *)
theory Prune
  imports Cache "HOL-Library.Product_Lexorder"
begin

text \<open>
  Pruning, storing and clearing (\<open>crates/unixd-cache/src/cache.rs\<close>). \<open>prune\<close> removes a file
  only under its key's lock, taken without waiting: first expired, invalid and unused
  entries and leftover temporary files, then, over a hard cap, the least recently used
  entries down to the targets. \<open>store\<close> writes an entry, releases its lock and prunes when a
  cap is crossed or a sweep is due.
\<close>

section \<open>Results\<close>

record prune_outcome =
  before_entries :: u64
  before_bytes :: u64
  after_entries :: u64
  after_bytes :: u64
  expired_removed :: u64
  unused_removed :: u64
  capacity_removed :: u64
  temporary_removed :: u64
  locks_removed :: u64

definition prune_default :: prune_outcome where
  "prune_default = \<lparr>before_entries = 0, before_bytes = 0, after_entries = 0, after_bytes = 0,
     expired_removed = 0, unused_removed = 0, capacity_removed = 0, temporary_removed = 0,
     locks_removed = 0\<rparr>"

datatype maintenance = NotNeeded | Pruned prune_outcome | Deferred error

datatype stored = Written maintenance | TooLarge u64

datatype wait = Block | Skip

section \<open>Prune\<close>

definition lock_error :: "try_lock_error \<Rightarrow> error" where
  "lock_error e = (case e of TryWouldBlock \<Rightarrow> Lock | TryError k \<Rightarrow> error_io k)"

definition try_key :: "inner \<Rightarrow> str \<Rightarrow> held option cache_io" where
  "try_key inner d = try_lock_exclusive (lock_path inner d)"

fun remove_locks_loop :: "u64 \<Rightarrow> path list \<Rightarrow> u64 cache_io" where
  "remove_locks_loop removed [] w = (Inr removed, w)"
| "remove_locks_loop removed (p # ps) w =
     andThen (regular p) (\<lambda>m. case m of
         None \<Rightarrow> remove_locks_loop removed ps
       | Some _ \<Rightarrow> andThen (try_lock_exclusive p) (\<lambda>h w1. case h of
           None \<Rightarrow> remove_locks_loop removed ps w1
         | Some held \<Rightarrow> remove_locks_loop (removed + 1) ps (drop_held held w1))) w"

definition remove_unheld_locks :: "inner \<Rightarrow> u64 cache_io" where
  "remove_unheld_locks inner =
     andThen (ensure_dir (locks_dir inner)) (\<lambda>_.
     andThen (io (read_dir (locks_dir inner))) (\<lambda>items.
     andThen (remove_locks_loop 0 items) (\<lambda>removed.
     andThen (sync_dir (locks_dir inner)) (\<lambda>_. ok removed))))"

text \<open>What the first loop of \<open>prune\<close> carries: the outcome, \<open>left\<close> and \<open>kept\<close>.\<close>

record sweep =
  s_outcome :: prune_outcome
  s_left :: usage
  s_kept :: "(u64 \<times> str \<times> u64) list"

text \<open>One entry, its key locked.\<close>

definition examine :: "'v serde \<Rightarrow> inner \<Rightarrow> u64 \<Rightarrow> path \<Rightarrow> str \<Rightarrow> sweep \<Rightarrow> sweep cache_io" where
  "examine j inner now p d st =
     andThen (regular p) (\<lambda>found. case found of
       None \<Rightarrow> ok st
     | Some m \<Rightarrow>
         let lims = i_limits inner; used_ms = modified_ms m; out = s_outcome st;
             gone = usage_remove (m_len m) (s_left st) in
         andThen (if m_len m > max_entry_bytes lims then ok True
                  else andThen (live j p now (max_entry_bytes lims)) (\<lambda>l. ok (\<not> l))) (\<lambda>dead.
           if dead then
             andThen (private_remove p) (\<lambda>_. ok (st\<lparr>
               s_outcome := out\<lparr>expired_removed := expired_removed out + 1\<rparr>, s_left := gone\<rparr>))
           else if saturating_sub now used_ms > millis (unused_after lims) then
             andThen (private_remove p) (\<lambda>_. ok (st\<lparr>
               s_outcome := out\<lparr>unused_removed := unused_removed out + 1\<rparr>, s_left := gone\<rparr>))
           else ok (st\<lparr>s_kept := s_kept st @ [(used_ms, d, m_len m)]\<rparr>)))"

definition count_temporary :: "sweep \<Rightarrow> sweep" where
  "count_temporary st = st\<lparr>s_outcome := (s_outcome st)\<lparr>
     temporary_removed := temporary_removed (s_outcome st) + 1\<rparr>\<rparr>"

text \<open>A leftover temporary file: skipped while its key is held.\<close>

definition sweep_temporary :: "inner \<Rightarrow> path \<Rightarrow> sweep \<Rightarrow> sweep cache_io" where
  "sweep_temporary inner p st = (case temporary_digest p of
     None \<Rightarrow> andThen (private_remove p) (\<lambda>_. ok (count_temporary st))
   | Some d \<Rightarrow> andThen (try_key inner d) (\<lambda>h. case h of
       None \<Rightarrow> ok st
     | Some held \<Rightarrow> scoped
         (andThen (private_remove p) (\<lambda>_. ok (count_temporary st))) (drop_held held)))"

definition sweep_item :: "'v serde \<Rightarrow> inner \<Rightarrow> u64 \<Rightarrow> path \<Rightarrow> sweep \<Rightarrow> sweep cache_io" where
  "sweep_item j inner now p st =
     (if is_temporary p then sweep_temporary inner p st
      else (case entry_digest p of
        None \<Rightarrow> ok st
      | Some d \<Rightarrow> andThen (try_key inner d) (\<lambda>h. case h of
          None \<Rightarrow> ok st
        | Some held \<Rightarrow> scoped (examine j inner now p d st) (drop_held held))))"

fun sweep_loop :: "'v serde \<Rightarrow> inner \<Rightarrow> u64 \<Rightarrow> path list \<Rightarrow> sweep \<Rightarrow> sweep cache_io" where
  "sweep_loop j inner now [] st = ok st"
| "sweep_loop j inner now (p # ps) st =
     andThen (sweep_item j inner now p st) (sweep_loop j inner now ps)"

text \<open>The second loop: the count removed so far and \<open>left\<close>.\<close>

definition evict :: "inner \<Rightarrow> u64 \<Rightarrow> str \<Rightarrow> u64 \<Rightarrow> u64 \<times> usage \<Rightarrow> (u64 \<times> usage) cache_io" where
  "evict inner used_ms d sz st = (let p = entry_path inner d in
     andThen (regular p) (\<lambda>found.
       if (case found of None \<Rightarrow> True | Some m \<Rightarrow> modified_ms m \<noteq> used_ms) then ok st
       else andThen (private_remove p) (\<lambda>_. ok (fst st + 1, usage_remove sz (snd st)))))"

fun evict_loop :: "inner \<Rightarrow> u64 \<Rightarrow> u64 \<Rightarrow> (u64 \<times> str \<times> u64) list \<Rightarrow> u64 \<times> usage \<Rightarrow>
    (u64 \<times> usage) cache_io" where
  "evict_loop inner te tb [] st = ok st"
| "evict_loop inner te tb ((used_ms, d, sz) # kept) st =
     (if u_entries (snd st) \<le> te \<and> u_bytes (snd st) \<le> tb then ok st
      else andThen (try_key inner d) (\<lambda>h. case h of
          None \<Rightarrow> evict_loop inner te tb kept st
        | Some held \<Rightarrow>
            andThen (scoped (evict inner used_ms d sz st) (drop_held held))
              (evict_loop inner te tb kept)))"

definition take_prune_locks :: "wait \<Rightarrow> handle \<Rightarrow> handle \<Rightarrow> unit cache_io" where
  "take_prune_locks wt m p = (case wt of
     Block \<Rightarrow> andThen (take_lock m Shared) (\<lambda>_. take_lock p Exclusive)
   | Skip \<Rightarrow> andThen (map_err lock_error (file_try_lock m Shared)) (\<lambda>_.
       map_err lock_error (file_try_lock p Exclusive)))"

text \<open>The body of \<open>prune\<close>, both locks held; \<open>p\<close> is the open \<open>prune.lock\<close>.\<close>

definition prune_locked :: "'v serde \<Rightarrow> inner \<Rightarrow> handle \<Rightarrow> prune_outcome cache_io" where
  "prune_locked j inner p = (let lims = i_limits inner in
     andThen (ensure_dir (entries_dir inner)) (\<lambda>_.
     andThen (remove_unheld_locks inner) (\<lambda>lr.
     andThen (usage_of inner) (\<lambda>before w. let now = now_ms w in
     andThen (io (read_dir (entries_dir inner))) (\<lambda>items.
     andThen (sweep_loop j inner now items \<lparr>
         s_outcome = prune_default\<lparr>locks_removed := lr, before_entries := u_entries before,
           before_bytes := u_bytes before\<rparr>,
         s_left = before, s_kept = []\<rparr>) (\<lambda>st.
     andThen
       (if u_entries before > hard_entries lims \<or> u_bytes before > hard_bytes lims
        then evict_loop inner (min (target_entries lims) (hard_entries lims))
               (min (target_bytes lims) (hard_bytes lims)) (sort (s_kept st)) (0, s_left st)
        else ok (0, s_left st)) (\<lambda>(removed, left).
     andThen (sync_dir (entries_dir inner)) (\<lambda>_.
     andThen (io (set_modified p (at now))) (\<lambda>_.
     ok ((s_outcome st)\<lparr>capacity_removed := removed, after_entries := u_entries left,
           after_bytes := u_bytes left\<rparr>)))))) w))))"

definition prune :: "'v serde \<Rightarrow> inner \<Rightarrow> wait \<Rightarrow> prune_outcome cache_io" where
  "prune j inner wt =
     andThen (validate_root (root inner)) (\<lambda>_.
     andThen (open_lock (maintenance_path inner)) (\<lambda>m. scoped
       (andThen (open_lock (prune_lock_path inner)) (\<lambda>p. scoped
         (andThen (take_prune_locks wt m p) (\<lambda>_. prune_locked j inner p))
         (drop_file p)))
       (drop_file m)))"

section \<open>Store\<close>

definition entry_to_write :: "inner \<Rightarrow> key \<Rightarrow> policy \<Rightarrow> u64 \<Rightarrow> 'v \<Rightarrow> 'v written" where
  "entry_to_write inner k pol now v = (let fresh_until = saturating_add now (millis (fresh pol)) in
     \<lparr>h_format = format_version, h_schema = schema inner, h_namespace = namespace k,
      h_digest = digest k, h_stored_at_ms = now, h_fresh_until_ms = fresh_until,
      h_stale_until_ms = saturating_add fresh_until (millis (stale_if_error pol)),
      h_source = p_source pol, w_value = v\<rparr>)"

text \<open>The maintenance after a write, the key lock already released.\<close>

definition maintain :: "'v serde \<Rightarrow> inner \<Rightarrow> maintenance cache_io" where
  "maintain j inner w = (let run = (\<lambda>w. case prune j inner Skip w of
       (Inl Pending, w1) \<Rightarrow> (Inl Pending, w1)
     | (Inl (Err e), w1) \<Rightarrow> (Inr (Deferred e), w1)
     | (Inr out, w1) \<Rightarrow> (Inr (Pruned out), w1)) in
     (case usage_of inner w of
        (Inl Pending, w1) \<Rightarrow> (Inl Pending, w1)
      | (Inl (Err e), w1) \<Rightarrow> (Inr (Deferred e), w1)
      | (Inr u, w1) \<Rightarrow>
          if u_entries u > hard_entries (i_limits inner) \<or> u_bytes u > hard_bytes (i_limits inner)
          then run w1
          else andThen (sweep_due inner) (\<lambda>due. if due then run else ok NotNeeded) w1))"

definition store :: "str \<Rightarrow> 'v serde \<Rightarrow> key_lock \<Rightarrow> 'v \<Rightarrow> policy \<Rightarrow> stored cache_io" where
  "store rnd j kl v pol w = (let inner = kl_inner kl; k = kl_key kl in
     (case to_vec j (entry_to_write inner k pol (now_ms w) v) of
        None \<Rightarrow> (Inl (Err Encode), drop_key_lock kl w)
      | Some bytes \<Rightarrow> (let sz = u64_or_max (length bytes) in
          if sz > max_entry_bytes (i_limits inner)
          then (Inr (TooLarge sz), drop_key_lock kl w)
          else andThen (scoped (write_atomic rnd inner (digest k) bytes) (drop_key_lock kl)) (\<lambda>_.
               andThen (maintain j inner) (\<lambda>m. ok (Written m))) w)))"

section \<open>Clear\<close>

fun remove_each :: "path list \<Rightarrow> unit cache_io" where
  "remove_each [] = ok ()"
| "remove_each (p # ps) = andThen (private_remove p) (\<lambda>_. remove_each ps)"

definition clear_dir :: "path \<Rightarrow> unit cache_io" where
  "clear_dir d =
     andThen (ensure_dir d) (\<lambda>_.
     andThen (io (read_dir d)) (\<lambda>items.
     andThen (remove_each items) (\<lambda>_. sync_dir d)))"

definition clear :: "inner \<Rightarrow> unit cache_io" where
  "clear inner =
     andThen (validate_root (root inner)) (\<lambda>_.
     andThen (open_lock (maintenance_path inner)) (\<lambda>m. scoped
       (andThen (take_lock m Exclusive) (\<lambda>_.
        andThen (clear_dir (entries_dir inner)) (\<lambda>_. clear_dir (locks_dir inner))))
       (drop_file m)))"

end
