(* ===== verification/Sweep.thy ===== *)
theory Sweep
  imports Ready Prune
begin

text \<open>
  What one prune does, item by item, in a cache nobody interferes with: \<open>fate\<close> says what
  becomes of a name in the \<open>entries\<close> directory, and the first loop of \<open>prune\<close> gives every
  name the fate it had when the prune began. The second loop is \<open>evict_pure\<close> on the sorted
  list of what was kept.
\<close>

section \<open>Working under a key's lock\<close>

abbreviation key_busy :: "inner \<Rightarrow> os \<Rightarrow> str \<Rightarrow> bool" where
  "key_busy inner s d \<equiv> lock_busy s (lock_path inner d)"

lemma lock_busy_reduced: "reduced D s s' \<Longrightarrow> p \<notin> D \<Longrightarrow> lock_busy s' p = lock_busy s p"
proof -
  assume r: "reduced D s s'" and p: "p \<notin> D"
  from r have "locks s' = locks s" by (simp add: reduced_def)
  with r p show ?thesis by (simp add: lock_busy_def reduced_ino_at split: option.split)
qed

lemma took_ready:
  assumes r: "ready inner w" and t: "took (lock_path inner d) h (fs w) s"
  shows "calm (w\<lparr>fs := s\<rparr>)" "wf_os s" "private_dir (w\<lparr>fs := s\<rparr>) (entries_dir inner)"
proof -
  from r show "calm (w\<lparr>fs := s\<rparr>)" by (simp add: ready_def)
  from t show "wf_os s" by (simp add: took_def)
  from r have wf: "wf_os (fs w)" by (simp add: ready_def)
  have "entries_dir inner \<noteq> lock_path inner d"
    by (simp add: entries_dir_def lock_path_def locks_dir_def)
  with r t show "private_dir (w\<lparr>fs := s\<rparr>) (entries_dir inner)"
    by (auto simp: ready_def took_def private_dir_def dest: wf_ino_less)
qed

lemma took_regular_at:
  assumes "wf_os s" and "took p h s s'" and "q \<noteq> p"
  shows "regular_at s' q = regular_at s q" "names_of s' q = names_of s q"
  using assms
  by (auto simp: took_def regular_at_def metadata_at_def names_of_def node_at_def
      dest: wf_ino_less split: option.splits)

text \<open>
  The pattern of \<open>prune\<close>: try the key; when it is free, run a body that only removes names,
  then drop the lock, whose file goes too.
\<close>

lemma try_key_scoped:
  assumes r: "ready inner w"
    and body: "\<And>h s. took (lock_path inner d) h (fs w) s \<Longrightarrow>
      \<exists>s'. body (w\<lparr>fs := s\<rparr>) = (Inr x, w\<lparr>fs := s'\<rparr>) \<and> reduced D s s'"
    and D: "lock_path inner d \<notin> D"
  shows "\<exists>s. andThen (try_key inner d) (\<lambda>h. case h of
        None \<Rightarrow> other | Some held \<Rightarrow> scoped body (drop_held held)) w
      = (if key_busy inner (fs w) d then other (w\<lparr>fs := s\<rparr>) else (Inr x, w\<lparr>fs := s\<rparr>))
    \<and> reduced (if key_busy inner (fs w) d then {} else insert (lock_path inner d) D) (fs w) s"
proof -
  let ?p = "lock_path inner d"
  from r have calm: "calm w" and wf: "wf_os (fs w)" by (simp_all add: ready_def)
  note lk = ready_lockable [OF r, of d]
  show ?thesis
  proof (cases "key_busy inner (fs w) d")
    case True
    from try_lock_busy [OF calm lk wf True] obtain s where
      "try_lock_exclusive ?p w = (Inr None, w\<lparr>fs := s\<rparr>)" "reduced {} (fs w) s" by blast
    with True show ?thesis by (auto simp: try_key_def)
  next
    case False
    from try_lock_free [OF calm lk wf False] obtain h s where
      h: "try_lock_exclusive ?p w = (Inr (Some h), w\<lparr>fs := s\<rparr>)" and t: "took ?p h (fs w) s" by blast
    from body [OF t] obtain s' where
      b: "body (w\<lparr>fs := s\<rparr>) = (Inr x, w\<lparr>fs := s'\<rparr>)" and s': "reduced D s s'" by blast
    from drop_held_took [OF calm wf t s' D] obtain s3 where
      "drop_held h (w\<lparr>fs := s'\<rparr>) = w\<lparr>fs := s3\<rparr>" "reduced (insert ?p D) (fs w) s3" by blast
    with False h b show ?thesis by (auto simp: try_key_def)
  qed
qed

section \<open>The fate of a name\<close>

datatype fate = Leave | Temporary | Odd | Expired metadata | Unused metadata | Keep metadata

definition entry_fate :: "'v serde \<Rightarrow> inner \<Rightarrow> u64 \<Rightarrow> os \<Rightarrow> path \<Rightarrow> fate" where
  "entry_fate j inner now s p = (case regular_at s p of
     None \<Rightarrow> Odd
   | Some m \<Rightarrow> (let lims = i_limits inner in
       if m_len m > max_entry_bytes lims
         \<or> \<not> live_in j p now (take (unat (max_entry_bytes lims)) (data (m_node m)))
       then Expired m
       else if saturating_sub now (modified_ms m) > millis (unused_after lims) then Unused m
       else Keep m))"

definition fate :: "'v serde \<Rightarrow> inner \<Rightarrow> u64 \<Rightarrow> os \<Rightarrow> path \<Rightarrow> fate" where
  "fate j inner now s p =
     (if is_temporary p then (case temporary_digest p of
         None \<Rightarrow> Temporary
       | Some d \<Rightarrow> if key_busy inner s d then Leave else Temporary)
      else (case entry_digest p of
         None \<Rightarrow> Leave
       | Some d \<Rightarrow> if key_busy inner s d then Leave else entry_fate j inner now s p))"

text \<open>The names that go with it, and the key locks taken and dropped on the way.\<close>

definition fate_names :: "os \<Rightarrow> path \<Rightarrow> fate \<Rightarrow> path set" where
  "fate_names s p f = (case f of
     Leave \<Rightarrow> {} | Temporary \<Rightarrow> names_of s p | Odd \<Rightarrow> names_of s p
   | Expired m \<Rightarrow> {p} | Unused m \<Rightarrow> {p} | Keep m \<Rightarrow> {})"

definition digest_of :: "path \<Rightarrow> str option" where
  "digest_of p = (if is_temporary p then temporary_digest p else entry_digest p)"

definition lock_names :: "inner \<Rightarrow> os \<Rightarrow> path \<Rightarrow> path set" where
  "lock_names inner s p = (case digest_of p of
     None \<Rightarrow> {} | Some d \<Rightarrow> if key_busy inner s d then {} else {lock_path inner d})"

definition fate_sweep :: "path \<Rightarrow> fate \<Rightarrow> sweep \<Rightarrow> sweep" where
  "fate_sweep p f st = (let out = s_outcome st in (case f of
     Leave \<Rightarrow> st
   | Temporary \<Rightarrow> count_temporary st
   | Odd \<Rightarrow> st
   | Expired m \<Rightarrow> st\<lparr>s_outcome := out\<lparr>expired_removed := expired_removed out + 1\<rparr>,
       s_left := usage_remove (m_len m) (s_left st)\<rparr>
   | Unused m \<Rightarrow> st\<lparr>s_outcome := out\<lparr>unused_removed := unused_removed out + 1\<rparr>,
       s_left := usage_remove (m_len m) (s_left st)\<rparr>
   | Keep m \<Rightarrow> st\<lparr>s_kept := s_kept st @ [(modified_ms m, the (entry_digest p), m_len m)]\<rparr>))"

lemma names_of_regular: "regular_at s p = Some m \<Longrightarrow> names_of s p = {p}"
  by (auto simp: regular_at_def metadata_at_def names_of_def node_at_def is_file_def
      split: option.splits if_splits)

lemma examine_calm:
  assumes calm: "calm w" and wf: "wf_os (fs w)" and d: "entry_digest p = Some d"
  shows "\<exists>s. examine j inner now p d st w =
      (Inr (fate_sweep p (entry_fate j inner now (fs w) p) st), w\<lparr>fs := s\<rparr>)
    \<and> reduced (fate_names (fs w) p (entry_fate j inner now (fs w) p)) (fs w) s"
proof -
  let ?lims = "i_limits inner" and ?f = "entry_fate j inner now (fs w) p"
  from regular_calm [OF calm, of p] obtain s1 where
    reg: "regular p w = (Inr (regular_at (fs w) p), w\<lparr>fs := s1\<rparr>)"
    and s1: "reduced (if regular_at (fs w) p = None then names_of (fs w) p else {}) (fs w) s1"
    by blast
  show ?thesis
  proof (cases "regular_at (fs w) p")
    case None
    with reg s1 show ?thesis
      by (auto simp: examine_def entry_fate_def fate_sweep_def fate_names_def Let_def)
  next
    case (Some m)
    let ?data = "take (unat (max_entry_bytes ?lims)) (data (m_node m))"
    let ?check = "if m_len m > max_entry_bytes ?lims then ok True
       else andThen (live j p now (max_entry_bytes ?lims)) (\<lambda>l. ok (\<not> l))"
    let ?dead = "m_len m > max_entry_bytes ?lims \<or> \<not> live_in j p now ?data"
    from s1 Some have s1: "reduced {} (fs w) s1" by simp
    with wf have wf1: "wf_os s1" by (rule reduced_wf [rotated -1])
    from Some have reg1: "regular_at s1 p = Some m" by (simp add: regular_at_reduced [OF s1 wf])
    from calm have calm1: "calm (w\<lparr>fs := s1\<rparr>)" by simp
    obtain s2 where chk: "?check (w\<lparr>fs := s1\<rparr>) = (Inr ?dead, w\<lparr>fs := s2\<rparr>)" and s2: "reduced {} s1 s2"
      using live_calm [OF calm1, of p m j now "max_entry_bytes ?lims"] wf1 reg1
      by (cases "m_len m > max_entry_bytes ?lims") auto
    from s1 s2 have s2': "reduced {} (fs w) s2" by (rule reduced_after)
    from calm have calm2: "calm (w\<lparr>fs := s2\<rparr>)" by simp
    from private_remove_calm [OF calm2, of p] obtain s3 where
      rm: "private_remove p (w\<lparr>fs := s2\<rparr>) = (Inr (), w\<lparr>fs := s3\<rparr>)" and s3: "reduced (names_of s2 p) s2 s3"
      by auto
    have "names_of s2 p = {p}"
      using reduced_same_names [OF s2' wf] names_of_regular [OF Some] by simp
    with s3 reduced_after [OF s2'] have s3: "reduced {p} (fs w) s3" by simp
    define k where "k = (\<lambda>dead. if dead then
             andThen (private_remove p) (\<lambda>_. ok (fate_sweep p (Expired m) st))
           else if saturating_sub now (modified_ms m) > millis (unused_after ?lims) then
             andThen (private_remove p) (\<lambda>_. ok (fate_sweep p (Unused m) st))
           else ok (fate_sweep p (Keep m) st))"
    have "examine j inner now p d st w = andThen ?check k (w\<lparr>fs := s1\<rparr>)"
      unfolding examine_def k_def fate_sweep_def Let_def d fate.case option.sel
      by (simp only: andThen_Inr [of "regular p", OF reg] Some option.case)
    also have "\<dots> = k ?dead (w\<lparr>fs := s2\<rparr>)" by (rule andThen_Inr [of "?check", OF chk])
    finally have ex: "examine j inner now p d st w = k ?dead (w\<lparr>fs := s2\<rparr>)" .
    have k_rm: "andThen (private_remove p) (\<lambda>_. ok x) (w\<lparr>fs := s2\<rparr>) = (Inr x, w\<lparr>fs := s3\<rparr>)" for x :: sweep
      using rm by simp
    consider (dead) "?dead"
      | (unused) "\<not> ?dead" "saturating_sub now (modified_ms m) > millis (unused_after ?lims)"
      | (kept) "\<not> ?dead" "\<not> saturating_sub now (modified_ms m) > millis (unused_after ?lims)"
      by blast
    then show ?thesis
    proof cases
      case dead
      then have "?f = Expired m" using Some by (simp add: entry_fate_def)
      with dead ex s3 show ?thesis by (auto simp: k_def k_rm fate_names_def)
    next
      case unused
      then have "?f = Unused m" using Some by (simp add: entry_fate_def)
      with unused ex s3 show ?thesis by (auto simp: k_def k_rm fate_names_def)
    next
      case kept
      then have "?f = Keep m" using Some by (simp add: entry_fate_def)
      with kept ex s2' show ?thesis by (auto simp: k_def fate_names_def)
    qed
  qed
qed

lemma entry_child:
  assumes "child_of (entries_dir inner) p"
  shows "p \<noteq> lock_path inner d" "lock_path inner d \<notin> names_of s p"
    "names_of s p \<inter> fixed_paths inner = {}"
proof -
  from assms obtain n where p: "p = entries_dir inner @ [n]"
    by (metis append_butlast_last_id child_of_def)
  have len: "length p = length (root inner) + 2" by (simp add: p entries_dir_def)
  have at: "take (Suc (length (root inner))) q = entries_dir inner" if "under p q" for q
  proof -
    from that have "take (Suc (length (root inner))) (take (length p) q) = take (Suc (length (root inner))) p"
      by (simp add: under_def)
    then show ?thesis by (simp add: len p entries_dir_def)
  qed
  show ne: "p \<noteq> lock_path inner d"
    by (simp add: p lock_path_def entries_dir_def locks_dir_def)
  have "\<not> under p (lock_path inner d)"
  proof
    assume "under p (lock_path inner d)"
    from at [OF this] show False by (simp add: lock_path_def locks_dir_def entries_dir_def)
  qed
  with ne show "lock_path inner d \<notin> names_of s p" by (auto simp: names_of_def)
  have "q \<notin> fixed_paths inner" if "under p q" for q
  proof -
    from that have "length (take (length p) q) = length p" by (simp add: under_def)
    then have "length q \<ge> length (root inner) + 2" using len by simp
    then show ?thesis
      by (auto simp: fixed_paths_def entries_dir_def locks_dir_def maintenance_path_def
          prune_lock_path_def)
  qed
  moreover have "under p p" by (simp add: under_def)
  ultimately show "names_of s p \<inter> fixed_paths inner = {}" by (auto simp: names_of_def)
qed

lemma fate_names_subset: "fate_names s p f \<subseteq> names_of s p"
  by (auto simp: fate_names_def names_of_def under_def split: fate.splits)

lemma sweep_item_calm:
  assumes r: "ready inner w" and p: "child_of (entries_dir inner) p"
  shows "\<exists>s. sweep_item j inner now p st w =
      (Inr (fate_sweep p (fate j inner now (fs w) p) st), w\<lparr>fs := s\<rparr>)
    \<and> reduced (fate_names (fs w) p (fate j inner now (fs w) p) \<union> lock_names inner (fs w) p) (fs w) s"
proof -
  from r have calm: "calm w" and wf: "wf_os (fs w)" by (simp_all add: ready_def)
  have off: "lock_path inner d \<notin> fate_names (fs w) p f" for d f
    using entry_child(2) [OF p] fate_names_subset by blast
  show ?thesis
  proof (cases "is_temporary p")
    case True
    show ?thesis
    proof (cases "temporary_digest p")
      case None
      with True private_remove_calm [OF calm, of p] show ?thesis
        by (auto simp: sweep_item_def sweep_temporary_def fate_def fate_sweep_def fate_names_def
            lock_names_def digest_of_def Let_def)
    next
      case (Some d)
      have body: "\<exists>s'. andThen (private_remove p) (\<lambda>_. ok (count_temporary st)) (w\<lparr>fs := s\<rparr>)
            = (Inr (count_temporary st), w\<lparr>fs := s'\<rparr>) \<and> reduced (fate_names (fs w) p Temporary) s s'"
        if t: "took (lock_path inner d) h (fs w) s" for h s
      proof -
        from private_remove_calm [OF took_ready(1) [OF r t], of p] obtain s' where
          "private_remove p (w\<lparr>fs := s\<rparr>) = (Inr (), w\<lparr>fs := s'\<rparr>)" "reduced (names_of s p) s s'"
          by auto
        with took_regular_at(2) [OF wf t] entry_child(1) [OF p] show ?thesis
          by (auto simp: fate_names_def)
      qed
      from try_key_scoped [where d = d and other = "ok st", OF r body off] True Some
      show ?thesis
        by (auto simp: sweep_item_def sweep_temporary_def fate_def fate_sweep_def fate_names_def
            lock_names_def digest_of_def Let_def split: if_splits)
    qed
  next
    case False
    show ?thesis
    proof (cases "entry_digest p")
      case None
      with False show ?thesis
        by (auto simp: sweep_item_def fate_def fate_sweep_def fate_names_def
            lock_names_def digest_of_def Let_def intro!: same_world)
    next
      case (Some d)
      let ?f = "entry_fate j inner now (fs w) p"
      have body: "\<exists>s'. examine j inner now p d st (w\<lparr>fs := s\<rparr>)
            = (Inr (fate_sweep p ?f st), w\<lparr>fs := s'\<rparr>) \<and> reduced (fate_names (fs w) p ?f) s s'"
        if t: "took (lock_path inner d) h (fs w) s" for h s
      proof -
        from took_regular_at [OF wf t] entry_child(1) [OF p]
        have same: "regular_at s p = regular_at (fs w) p" "names_of s p = names_of (fs w) p"
          by simp_all
        then have "entry_fate j inner now s p = ?f" by (simp add: entry_fate_def)
        moreover from same have "fate_names s p f = fate_names (fs w) p f" for f
          by (simp add: fate_names_def split: fate.split)
        ultimately show ?thesis
          using examine_calm [OF took_ready(1) [OF r t], of p d j inner now st] Some
            took_ready(2) [OF r t] by simp
      qed
      from try_key_scoped [where d = d and other = "ok st", OF r body off] False Some
      show ?thesis
        by (auto simp: sweep_item_def fate_def fate_sweep_def [of p Leave] fate_names_def [of _ _ Leave]
            lock_names_def digest_of_def Let_def split: if_splits)
    qed
  qed
qed

section \<open>The first loop\<close>

text \<open>A removal that leaves what the fate of \<open>p\<close> depends on.\<close>

definition spares_locks :: "inner \<Rightarrow> path set \<Rightarrow> os \<Rightarrow> bool" where
  "spares_locks inner D s \<longleftrightarrow> (\<forall>d. lock_path inner d \<in> D \<longrightarrow> \<not> key_busy inner s d)"

lemma key_busy_reduced:
  assumes "reduced D s s'" and "spares_locks inner D s"
  shows "key_busy inner s' d = key_busy inner s d"
proof (cases "lock_path inner d \<in> D")
  case True
  with assms show ?thesis
    by (auto simp: spares_locks_def lock_busy_def reduced_ino_at)
next
  case False
  with assms(1) show ?thesis by (rule lock_busy_reduced)
qed

lemma fate_reduced:
  assumes r: "reduced D s s'" and wf: "wf_os s" and p: "p \<notin> D" and l: "spares_locks inner D s"
  shows "fate j inner now s' p = fate j inner now s p"
    "fate_names s' p f = fate_names s p f" "lock_names inner s' p = lock_names inner s p"
proof -
  note busy = key_busy_reduced [OF r l]
  from regular_at_reduced [OF r wf p]
  show "fate j inner now s' p = fate j inner now s p"
    by (simp add: fate_def entry_fate_def busy split: option.split)
  from reduced_node_at [OF r wf, of p] p have "names_of s' p = names_of s p"
    by (simp add: names_of_def)
  then show "fate_names s' p f = fate_names s p f"
    by (simp add: fate_names_def split: fate.split)
  show "lock_names inner s' p = lock_names inner s p"
    by (simp add: lock_names_def busy split: option.split)
qed

definition swept :: "'v serde \<Rightarrow> inner \<Rightarrow> u64 \<Rightarrow> os \<Rightarrow> path list \<Rightarrow> path set" where
  "swept j inner now s ps =
     (\<Union>p \<in> set ps. fate_names s p (fate j inner now s p) \<union> lock_names inner s p)"

definition sweep_result :: "'v serde \<Rightarrow> inner \<Rightarrow> u64 \<Rightarrow> os \<Rightarrow> path list \<Rightarrow> sweep \<Rightarrow> sweep" where
  "sweep_result j inner now s ps st = fold (\<lambda>p. fate_sweep p (fate j inner now s p)) ps st"

lemma sibling:
  assumes "child_of (entries_dir inner) p" and "child_of (entries_dir inner) q" and "p \<noteq> q"
  shows "q \<notin> fate_names s p f \<union> lock_names inner s p"
proof -
  have "\<not> under p q"
  proof
    assume u: "under p q"
    from assms(1,2) have "length p = length (entries_dir inner) + 1"
      "length q = length (entries_dir inner) + 1"
      by (auto simp: child_of_def) (metis One_nat_def Suc_pred' length_butlast length_greater_0_conv)+
    with u have "p = q" by (simp add: under_def)
    with assms(3) show False ..
  qed
  with assms fate_names_subset [of s p f] entry_child(1) [OF assms(2)] show ?thesis
    by (auto simp: names_of_def lock_names_def split: option.splits if_splits)
qed

lemma item_spares:
  assumes "child_of (entries_dir inner) p"
  shows "spares_locks inner (fate_names s p f \<union> lock_names inner s p) s"
  using entry_child(2) [OF assms, of _ s] fate_names_subset [of s p f]
  by (auto simp: spares_locks_def lock_names_def lock_path_def split: option.splits if_splits)

lemma item_not_fixed:
  assumes "child_of (entries_dir inner) p"
  shows "(fate_names s p f \<union> lock_names inner s p) \<inter> fixed_paths inner = {}"
  using entry_child(3) [OF assms, of s] fate_names_subset [of s p f]
  by (auto simp: lock_names_def split: option.splits if_splits)

lemma spares_locks_Un:
  "spares_locks inner D s \<Longrightarrow> reduced D s s' \<Longrightarrow> spares_locks inner E s' \<Longrightarrow>
    spares_locks inner (D \<union> E) s"
  using key_busy_reduced [of D s s' inner] by (auto simp: spares_locks_def)

lemma sweep_loop_calm:
  assumes "ready inner w" and "\<forall>p \<in> set ps. child_of (entries_dir inner) p" and "distinct ps"
  shows "\<exists>s. sweep_loop j inner now ps st w =
      (Inr (sweep_result j inner now (fs w) ps st), w\<lparr>fs := s\<rparr>)
    \<and> reduced (swept j inner now (fs w) ps) (fs w) s
    \<and> spares_locks inner (swept j inner now (fs w) ps) (fs w)
    \<and> swept j inner now (fs w) ps \<inter> fixed_paths inner = {}"
  using assms
proof (induction ps arbitrary: st w)
  case Nil
  then show ?case
    by (auto simp: sweep_result_def swept_def spares_locks_def intro!: same_world)
next
  case (Cons p ps)
  let ?s = "fs w" and ?f = "fate j inner now (fs w) p"
  let ?D = "fate_names ?s p ?f \<union> lock_names inner ?s p"
  from Cons.prems have p: "child_of (entries_dir inner) p" and wf: "wf_os ?s"
    by (simp_all add: ready_def)
  from sweep_item_calm [OF Cons.prems(1) p, of j now st] obtain s1 where
    it: "sweep_item j inner now p st w = (Inr (fate_sweep p ?f st), w\<lparr>fs := s1\<rparr>)"
    and s1: "reduced ?D ?s s1" by blast
  have r1: "ready inner (w\<lparr>fs := s1\<rparr>)"
    using Cons.prems(1) s1 item_not_fixed [OF p] by (rule ready_reduced)
  have same: "fate j inner now s1 q = fate j inner now ?s q"
    "fate_names s1 q f = fate_names ?s q f" "lock_names inner s1 q = lock_names inner ?s q"
    if "q \<in> set ps" for q f
  proof -
    from that Cons.prems have "child_of (entries_dir inner) q" "p \<noteq> q" by auto
    then have "q \<notin> ?D" using p by (rule sibling [rotated])
    from fate_reduced [OF s1 wf this item_spares [OF p]]
    show "fate j inner now s1 q = fate j inner now ?s q"
      "fate_names s1 q f = fate_names ?s q f" "lock_names inner s1 q = lock_names inner ?s q"
      by auto
  qed
  from same have sw: "swept j inner now s1 ps = swept j inner now ?s ps"
    by (simp add: swept_def)
  from same have res: "sweep_result j inner now s1 ps x = sweep_result j inner now ?s ps x" for x
    unfolding sweep_result_def by (intro fold_cong) simp_all
  from Cons.IH [OF r1, of "fate_sweep p ?f st"] Cons.prems sw res obtain s2 where
    lp: "sweep_loop j inner now ps (fate_sweep p ?f st) (w\<lparr>fs := s1\<rparr>) =
      (Inr (sweep_result j inner now ?s ps (fate_sweep p ?f st)), w\<lparr>fs := s2\<rparr>)"
    and s2: "reduced (swept j inner now ?s ps) s1 s2"
    and sp: "spares_locks inner (swept j inner now ?s ps) s1"
    and fx: "swept j inner now ?s ps \<inter> fixed_paths inner = {}"
    by auto
  have "sweep_loop j inner now (p # ps) st w =
      (Inr (sweep_result j inner now ?s (p # ps) st), w\<lparr>fs := s2\<rparr>)"
    using it lp by (simp add: sweep_result_def)
  moreover have "swept j inner now ?s (p # ps) = ?D \<union> swept j inner now ?s ps"
    by (simp add: swept_def)
  ultimately show ?case
    using reduced_trans [OF s1 s2] spares_locks_Un [OF item_spares [OF p] s1 sp] fx
      item_not_fixed [OF p, of ?s ?f] by auto
qed

end
