(* ===== verification/Eviction.thy ===== *)
theory Eviction
  imports Sweep
begin

text \<open>
  The rest of a prune in a cache nobody interferes with: the lock files nobody holds go, the
  entries are counted, and the second loop of \<open>prune\<close> removes the shortest prefix of the
  sorted survivors that brings the cache down to its targets.
\<close>

section \<open>Children of a directory\<close>

lemma children_child: "p \<in> set (children s d) \<Longrightarrow> child_of d p"
  by (auto simp: children_def)

lemma child_relist: "child_of d c \<Longrightarrow> d @ [last c] = c"
  by (auto simp: child_of_def)

lemma relist_children [simp]: "map (\<lambda>c. d @ [last c]) (children s d) = children s d"
  by (rule map_idI) (auto dest: children_child child_relist)

lemma distinct_children: "wf_os s \<Longrightarrow> distinct (children s d)"
  by (simp add: children_def wf_os_def distinct_map_fst_filter)

lemma children_ino_at: "wf_os s \<Longrightarrow> p \<in> set (children s d) \<longleftrightarrow> child_of d p \<and> ino_at s p \<noteq> None"
  by (auto simp: children_def in_dirents_ino_at image_iff split_beta)

section \<open>Lock files nobody holds\<close>

lemma lock_child_lockable:
  "ready inner w \<Longrightarrow> child_of (locks_dir inner) p \<Longrightarrow> lockable w p"
  by (cases "ino_at (fs w) p") (auto simp: ready_def lockable_def child_of_def)

lemma lock_child_regular:
  "ready inner w \<Longrightarrow> child_of (locks_dir inner) p \<Longrightarrow> ino_at (fs w) p \<noteq> None \<Longrightarrow>
    regular_at (fs w) p \<noteq> None"
  by (force simp: ready_def private_file_def regular_at_def metadata_at_def is_file_def)

lemma lock_child_not_fixed:
  assumes "child_of (locks_dir inner) p"
  shows "p \<notin> fixed_paths inner"
proof -
  from assms obtain n where "p = locks_dir inner @ [n]"
    by (metis append_butlast_last_id child_of_def)
  then show ?thesis
    by (auto simp: fixed_paths_def locks_dir_def entries_dir_def maintenance_path_def
        prune_lock_path_def)
qed

definition unheld :: "os \<Rightarrow> path list \<Rightarrow> path list" where
  "unheld s ps = filter (\<lambda>p. \<not> lock_busy s p) ps"

lemma remove_locks_loop_calm:
  assumes "ready inner w" and "set ps \<subseteq> set (children (fs w) (locks_dir inner))" and "distinct ps"
  shows "\<exists>s. remove_locks_loop n ps w =
      (Inr (n + of_nat (length (unheld (fs w) ps))), w\<lparr>fs := s\<rparr>)
    \<and> reduced (set (unheld (fs w) ps)) (fs w) s"
  using assms
proof (induction ps arbitrary: n w)
  case Nil
  then show ?case by (auto simp: unheld_def intro!: same_world)
next
  case (Cons p ps)
  from Cons.prems(1) have calm: "calm w" and wf: "wf_os (fs w)" by (simp_all add: ready_def)
  from Cons.prems(2) wf have p: "child_of (locks_dir inner) p" and ex: "ino_at (fs w) p \<noteq> None"
    by (simp_all add: children_ino_at)
  from lock_child_regular [OF Cons.prems(1) p ex] obtain m where m: "regular_at (fs w) p = Some m"
    by blast
  from regular_calm [OF calm, of p] m obtain s1 where
    rg: "regular p w = (Inr (Some m), w\<lparr>fs := s1\<rparr>)" and s1: "reduced {} (fs w) s1" by auto
  have r1: "ready inner (w\<lparr>fs := s1\<rparr>)" using Cons.prems(1) s1 by (rule ready_reduced) simp
  then have calm1: "calm (w\<lparr>fs := s1\<rparr>)" and wf1: "wf_os s1" by (simp_all add: ready_def)
  note lk = lock_child_lockable [OF r1 p]
  have busy: "lock_busy s1 q = lock_busy (fs w) q" for q
    by (rule lock_busy_reduced [OF s1]) simp
  show ?case
  proof (cases "lock_busy (fs w) p")
    case True
    from try_lock_busy [OF calm1 lk] wf1 busy True obtain s2 where
      t: "try_lock_exclusive p (w\<lparr>fs := s1\<rparr>) = (Inr None, w\<lparr>fs := s2\<rparr>)" and s2: "reduced {} s1 s2"
      by auto
    from reduced_after [OF s1 s2] have s2: "reduced {} (fs w) s2" .
    have r2: "ready inner (w\<lparr>fs := s2\<rparr>)" using Cons.prems(1) s2 by (rule ready_reduced) simp
    have same: "unheld s2 ps = unheld (fs w) ps"
      by (simp add: unheld_def lock_busy_reduced [OF s2])
    from Cons.IH [OF r2, of n] Cons.prems(2,3) reduced_children [OF s2] same obtain s3 where
      "remove_locks_loop n ps (w\<lparr>fs := s2\<rparr>) =
        (Inr (n + of_nat (length (unheld (fs w) ps))), w\<lparr>fs := s3\<rparr>)"
      "reduced (set (unheld (fs w) ps)) s2 s3"
      by auto
    with rg t reduced_after [OF s2] True show ?thesis by (auto simp: unheld_def)
  next
    case False
    from try_lock_free [OF calm1 lk] wf1 busy False obtain h s2 where
      t: "try_lock_exclusive p (w\<lparr>fs := s1\<rparr>) = (Inr (Some h), w\<lparr>fs := s2\<rparr>)" and took: "took p h s1 s2"
      by auto
    from drop_held_took [OF calm wf1 took reduced_refl] obtain s3 where
      d: "drop_held h (w\<lparr>fs := s2\<rparr>) = w\<lparr>fs := s3\<rparr>" and s3: "reduced {p} s1 s3" by auto
    from reduced_after [OF s1 s3] have s3: "reduced {p} (fs w) s3" .
    have r3: "ready inner (w\<lparr>fs := s3\<rparr>)" using Cons.prems(1) s3
      by (rule ready_reduced) (simp add: lock_child_not_fixed [OF p])
    have "lock_busy s3 q = lock_busy (fs w) q" if "q \<in> set ps" for q
      using that Cons.prems(3) by (intro lock_busy_reduced [OF s3]) auto
    then have same: "unheld s3 ps = unheld (fs w) ps"
      unfolding unheld_def by (intro filter_cong) auto
    have sub: "set ps \<subseteq> set (children s3 (locks_dir inner))"
      using Cons.prems(2,3) by (auto simp: reduced_children [OF s3])
    from Cons.IH [OF r3, of "n + 1"] sub Cons.prems(3) same obtain s4 where
      l: "remove_locks_loop (n + 1) ps (w\<lparr>fs := s3\<rparr>) =
        (Inr (n + 1 + of_nat (length (unheld (fs w) ps))), w\<lparr>fs := s4\<rparr>)"
      and s4: "reduced (set (unheld (fs w) ps)) s3 s4"
      by auto
    from reduced_trans [OF s3 s4] False have "reduced (set (unheld (fs w) (p # ps))) (fs w) s4"
      by (simp add: unheld_def)
    with rg t d l False show ?thesis by (auto simp: unheld_def algebra_simps)
  qed
qed

lemma sync_dir_reduced:
  assumes "calm w" and "private_dir w p" and "wf_os (fs w)"
  shows "\<exists>s. sync_dir p w = (Inr (), w\<lparr>fs := s\<rparr>) \<and> reduced {} (fs w) s"
proof -
  let ?n = "next_fd (fs w)"
  from assms(1,2) have "sync_dir p w = (Inr (), w\<lparr>fs := (fs w)\<lparr>next_fd := Suc ?n, locks :=
        filter (\<lambda>(d, i, m). d \<noteq> ?n) (locks (fs w))\<rparr>\<rparr>)"
    by (auto simp: private_dir_def sync_dir_def file_open_def open_with_def sys_calm open_os_def
        resolve_dir Let_def calm_simps drop_file_def)
  with reduced_next_fd [OF assms(3)] show ?thesis by blast
qed

definition free_locks :: "inner \<Rightarrow> os \<Rightarrow> path list" where
  "free_locks inner s = unheld s (children s (locks_dir inner))"

lemma remove_unheld_locks_calm:
  assumes r: "ready inner w"
  shows "\<exists>s. remove_unheld_locks inner w =
      (Inr (of_nat (length (free_locks inner (fs w)))), w\<lparr>fs := s\<rparr>)
    \<and> reduced (set (free_locks inner (fs w))) (fs w) s"
proof -
  let ?ps = "children (fs w) (locks_dir inner)"
  from r have calm: "calm w" and wf: "wf_os (fs w)" and d: "private_dir w (locks_dir inner)"
    by (simp_all add: ready_def)
  from remove_locks_loop_calm [OF r subset_refl distinct_children [OF wf], of 0] obtain s1 where
    l: "remove_locks_loop 0 ?ps w = (Inr (of_nat (length (free_locks inner (fs w)))), w\<lparr>fs := s1\<rparr>)"
    and s1: "reduced (set (free_locks inner (fs w))) (fs w) s1"
    by (auto simp: free_locks_def)
  have "set (free_locks inner (fs w)) \<inter> fixed_paths inner = {}"
    using lock_child_not_fixed children_child
    by (fastforce simp: free_locks_def unheld_def)
  with r s1 have r1: "ready inner (w\<lparr>fs := s1\<rparr>)" by (rule ready_reduced)
  then obtain s2 where sd: "sync_dir (locks_dir inner) (w\<lparr>fs := s1\<rparr>) = (Inr (), w\<lparr>fs := s2\<rparr>)"
    and s2: "reduced {} s1 s2"
    using sync_dir_reduced [of "w\<lparr>fs := s1\<rparr>" "locks_dir inner"] by (auto simp: ready_def)
  from calm d l sd have "remove_unheld_locks inner w =
      (Inr (of_nat (length (free_locks inner (fs w)))), w\<lparr>fs := s2\<rparr>)"
    by (simp add: remove_unheld_locks_def calm_simps)
  with reduced_before [OF s1 s2] show ?thesis by blast
qed

section \<open>Counting\<close>

text \<open>The entry files: regular files with a digest for a name.\<close>

definition entry_files :: "os \<Rightarrow> path list \<Rightarrow> metadata list" where
  "entry_files s ps = List.map_filter
     (\<lambda>p. if entry_digest p = None then None else regular_at s p) ps"

definition add_usage :: "metadata \<Rightarrow> usage \<Rightarrow> usage" where
  "add_usage m u = \<lparr>u_entries = u_entries u + 1, u_bytes = saturating_add (u_bytes u) (m_len m)\<rparr>"

lemma count_usage_calm:
  "calm w \<Longrightarrow> count_usage u ps w = (Inr (fold add_usage (entry_files (fs w) ps) u), w)"
proof (induction ps arbitrary: u)
  case Nil
  then show ?case by (simp add: entry_files_def map_filter_simps)
next
  case (Cons p ps)
  then show ?case
    by (cases "ino_at (fs w) p")
      (auto simp: entry_files_def map_filter_simps calm_simps regular_at_def metadata_at_def
        add_usage_def)
qed

definition usage_in :: "inner \<Rightarrow> os \<Rightarrow> usage" where
  "usage_in inner s = fold add_usage (entry_files s (children s (entries_dir inner)))
     \<lparr>u_entries = 0, u_bytes = 0\<rparr>"

lemma usage_of_calm: "ready inner w \<Longrightarrow> usage_of inner w = (Inr (usage_in inner (fs w)), w)"
  by (simp add: usage_of_def ready_def calm_simps count_usage_calm usage_in_def)

section \<open>The second loop\<close>

text \<open>Which of the survivors go: the entries of the shortest prefix that reaches the targets.\<close>

fun evicted :: "u64 \<Rightarrow> u64 \<Rightarrow> (u64 \<times> str \<times> u64) list \<Rightarrow> usage \<Rightarrow> (u64 \<times> str \<times> u64) list" where
  "evicted te tb [] u = []"
| "evicted te tb ((used_ms, d, sz) # kept) u =
     (if u_entries u \<le> te \<and> u_bytes u \<le> tb then []
      else (used_ms, d, sz) # evicted te tb kept (usage_remove sz u))"

definition evicted_names :: "inner \<Rightarrow> (u64 \<times> str \<times> u64) list \<Rightarrow> path set" where
  "evicted_names inner ks = (\<Union>(used_ms, d, sz) \<in> set ks. {entry_path inner d, lock_path inner d})"

definition usage_after :: "(u64 \<times> str \<times> u64) list \<Rightarrow> usage \<Rightarrow> usage" where
  "usage_after ks u = fold (\<lambda>(used_ms, d, sz). usage_remove sz) ks u"

text \<open>A survivor: a regular file nobody holds, last used when the list says.\<close>

definition evictable :: "inner \<Rightarrow> os \<Rightarrow> u64 \<times> str \<times> u64 \<Rightarrow> bool" where
  "evictable inner s k \<longleftrightarrow> (case k of (used_ms, d, sz) \<Rightarrow>
     \<not> key_busy inner s d
     \<and> (\<exists>m. regular_at s (entry_path inner d) = Some m \<and> modified_ms m = used_ms))"

lemma entry_path_inj [simp]: "entry_path inner d = entry_path inner e \<longleftrightarrow> d = e"
  by (simp add: entry_path_def entry_name_def)

lemma lock_path_inj [simp]: "lock_path inner d = lock_path inner e \<longleftrightarrow> d = e"
  by (simp add: lock_path_def lock_name_def)

lemma entry_not_lock_path [simp]: "entry_path inner d \<noteq> lock_path inner e"
  "lock_path inner e \<noteq> entry_path inner d"
  by (simp_all add: lock_path_def entry_path_def entries_dir_def locks_dir_def)

lemma evict_calm:
  assumes calm: "calm w" and wf: "wf_os (fs w)"
    and m: "regular_at (fs w) (entry_path inner d) = Some m" "modified_ms m = used_ms"
  shows "\<exists>s. evict inner used_ms d sz st w =
      (Inr (fst st + 1, usage_remove sz (snd st)), w\<lparr>fs := s\<rparr>)
    \<and> reduced {entry_path inner d} (fs w) s"
proof -
  let ?p = "entry_path inner d"
  from regular_calm [OF calm, of ?p] m obtain s1 where
    rg: "regular ?p w = (Inr (Some m), w\<lparr>fs := s1\<rparr>)" and s1: "reduced {} (fs w) s1" by auto
  from calm have calm1: "calm (w\<lparr>fs := s1\<rparr>)" by simp
  from private_remove_calm [OF calm1, of ?p] obtain s2 where
    rm: "private_remove ?p (w\<lparr>fs := s1\<rparr>) = (Inr (), w\<lparr>fs := s2\<rparr>)" and s2: "reduced (names_of s1 ?p) s1 s2"
    by auto
  have "names_of s1 ?p = {?p}"
    using reduced_same_names [OF s1 wf] names_of_regular [OF m(1)] by simp
  with s2 reduced_after [OF s1] have "reduced {?p} (fs w) s2" by simp
  moreover have "evict inner used_ms d sz st w =
      (Inr (fst st + 1, usage_remove sz (snd st)), w\<lparr>fs := s2\<rparr>)"
    using rg rm m by (simp add: evict_def Let_def)
  ultimately show ?thesis by blast
qed

lemma evicted_names_Cons:
  "evicted_names inner ((u, d, sz) # ks) =
     insert (lock_path inner d) {entry_path inner d} \<union> evicted_names inner ks"
  by (auto simp: evicted_names_def)

lemma evict_step_calm:
  assumes r: "ready inner w" and e: "evictable inner (fs w) (used_ms, d, sz)"
  shows "\<exists>s. andThen (try_key inner d) (\<lambda>h. case h of
        None \<Rightarrow> other
      | Some held \<Rightarrow> andThen (scoped (evict inner used_ms d sz st) (drop_held held)) next_step) w
      = next_step (fst st + 1, usage_remove sz (snd st)) (w\<lparr>fs := s\<rparr>)
    \<and> reduced (insert (lock_path inner d) {entry_path inner d}) (fs w) s"
proof -
  let ?p = "lock_path inner d" and ?x = "(fst st + 1, usage_remove sz (snd st))"
  from r have calm: "calm w" and wf: "wf_os (fs w)" by (simp_all add: ready_def)
  note lk = ready_lockable [OF r, of d]
  from e obtain m where free: "\<not> key_busy inner (fs w) d"
    and m: "regular_at (fs w) (entry_path inner d) = Some m" "modified_ms m = used_ms"
    by (auto simp: evictable_def)
  from try_lock_free [OF calm lk wf free] obtain h s where
    h: "try_lock_exclusive ?p w = (Inr (Some h), w\<lparr>fs := s\<rparr>)" and t: "took ?p h (fs w) s" by blast
  from m(1) took_regular_at(1) [OF wf t, of "entry_path inner d"]
  have reg: "regular_at s (entry_path inner d) = Some m" by simp
  from evict_calm [OF took_ready(1) [OF r t], of inner d m used_ms sz st] took_ready(2) [OF r t]
    reg m(2) obtain s' where
    ev: "evict inner used_ms d sz st (w\<lparr>fs := s\<rparr>) = (Inr ?x, w\<lparr>fs := s'\<rparr>)"
    and s': "reduced {entry_path inner d} s s'" by auto
  from drop_held_took [OF calm wf t s'] obtain s3 where
    d: "drop_held h (w\<lparr>fs := s'\<rparr>) = w\<lparr>fs := s3\<rparr>"
    and s3: "reduced (insert ?p {entry_path inner d}) (fs w) s3" by auto
  have "scoped (evict inner used_ms d sz st) (drop_held h) (w\<lparr>fs := s\<rparr>) = (Inr ?x, w\<lparr>fs := s3\<rparr>)"
    using ev d by simp
  with h have "andThen (try_key inner d) (\<lambda>h. case h of
        None \<Rightarrow> other
      | Some held \<Rightarrow> andThen (scoped (evict inner used_ms d sz st) (drop_held held)) next_step) w
      = next_step ?x (w\<lparr>fs := s3\<rparr>)"
    by (simp add: try_key_def)
  with s3 show ?thesis by blast
qed

lemma evict_names_not_fixed: "{entry_path inner d, lock_path inner d} \<inter> fixed_paths inner = {}"
  using entry_path_not_fixed [of inner d "entry_path inner d"] by (simp add: under_def)

lemma evictable_reduced:
  assumes r: "reduced (insert (lock_path inner d) {entry_path inner d}) s s'" and wf: "wf_os s"
    and k: "evictable inner s (u, e, sz)" and "e \<noteq> d"
  shows "evictable inner s' (u, e, sz)"
  using k assms(4) regular_at_reduced [OF r wf, of "entry_path inner e"]
    lock_busy_reduced [OF r, of "lock_path inner e"]
  by (auto simp: evictable_def)

lemma evict_loop_calm:
  assumes "ready inner w" and "\<forall>k \<in> set ks. evictable inner (fs w) k"
    and "distinct (map (fst \<circ> snd) ks)"
  shows "\<exists>s. evict_loop inner te tb ks st w =
      (Inr (fst st + of_nat (length (evicted te tb ks (snd st))),
            usage_after (evicted te tb ks (snd st)) (snd st)), w\<lparr>fs := s\<rparr>)
    \<and> reduced (evicted_names inner (evicted te tb ks (snd st))) (fs w) s
    \<and> evicted_names inner (evicted te tb ks (snd st)) \<inter> fixed_paths inner = {}"
  using assms
proof (induction ks arbitrary: st w)
  case Nil
  then show ?case by (auto simp: evicted_names_def usage_after_def intro!: same_world)
next
  case (Cons k ks)
  obtain used_ms d sz where k: "k = (used_ms, d, sz)" by (metis prod_cases3)
  show ?case
  proof (cases "u_entries (snd st) \<le> te \<and> u_bytes (snd st) \<le> tb")
    case True
    with k show ?thesis by (auto simp: evicted_names_def usage_after_def intro!: same_world)
  next
    case False
    let ?st = "(fst st + 1, usage_remove sz (snd st))"
    let ?ev = "evicted te tb ks (usage_remove sz (snd st))"
    from Cons.prems(1) have wf: "wf_os (fs w)" by (simp add: ready_def)
    from Cons.prems(2) k have "evictable inner (fs w) (used_ms, d, sz)" by simp
    from evict_step_calm [OF Cons.prems(1) this, of "evict_loop inner te tb ks st" st
        "evict_loop inner te tb ks"] False k obtain s1 where
      e: "evict_loop inner te tb (k # ks) st w = evict_loop inner te tb ks ?st (w\<lparr>fs := s1\<rparr>)"
      and s1: "reduced (insert (lock_path inner d) {entry_path inner d}) (fs w) s1"
      by auto
    have r1: "ready inner (w\<lparr>fs := s1\<rparr>)"
      using Cons.prems(1) s1 by (rule ready_reduced) (use evict_names_not_fixed in auto)
    have "evictable inner s1 x" if "x \<in> set ks" for x
    proof -
      obtain u e z where x: "x = (u, e, z)" by (metis prod_cases3)
      with that Cons.prems(3) k have "e \<noteq> d" by force
      with evictable_reduced [OF s1 wf] Cons.prems(2) that x show ?thesis by auto
    qed
    with Cons.IH [OF r1, of ?st] Cons.prems(3) obtain s2 where
      l: "evict_loop inner te tb ks ?st (w\<lparr>fs := s1\<rparr>) =
        (Inr (fst st + 1 + of_nat (length ?ev), usage_after ?ev (usage_remove sz (snd st))), w\<lparr>fs := s2\<rparr>)"
      and s2: "reduced (evicted_names inner ?ev) s1 s2"
      and fx: "evicted_names inner ?ev \<inter> fixed_paths inner = {}"
      by auto
    from reduced_trans [OF s1 s2] fx evict_names_not_fixed [of inner d] e l False k show ?thesis
      by (auto simp: usage_after_def evicted_names_Cons algebra_simps)
  qed
qed

end
