(* ===== verification/Prune_Effect.thy ===== *)
theory Prune_Effect
  imports Eviction
begin

text \<open>
  One whole \<open>prune\<close> in a cache nobody interferes with: \<open>prune_result\<close> is its outcome and
  \<open>prune_names\<close> the names it removes, both computed from the state in which it starts.
\<close>

section \<open>Survivors of the first loop\<close>

definition kept_of :: "path \<Rightarrow> fate \<Rightarrow> (u64 \<times> str \<times> u64) option" where
  "kept_of p f = (case f of
     Keep m \<Rightarrow> Some (modified_ms m, the (entry_digest p), m_len m) | _ \<Rightarrow> None)"

definition survivors :: "'v serde \<Rightarrow> inner \<Rightarrow> u64 \<Rightarrow> os \<Rightarrow> (u64 \<times> str \<times> u64) list" where
  "survivors j inner now s =
     List.map_filter (\<lambda>p. kept_of p (fate j inner now s p)) (children s (entries_dir inner))"

lemma kept_fate_sweep:
  "s_kept (fate_sweep p f st) = s_kept st @ (case kept_of p f of None \<Rightarrow> [] | Some k \<Rightarrow> [k])"
  by (simp add: fate_sweep_def kept_of_def count_temporary_def Let_def split: fate.split)

lemma kept_sweep_result:
  "s_kept (sweep_result j inner now s ps st) =
     s_kept st @ List.map_filter (\<lambda>p. kept_of p (fate j inner now s p)) ps"
  unfolding sweep_result_def
  by (induction ps arbitrary: st)
    (auto simp: kept_fate_sweep map_filter_simps split: option.split)

lemma strip_suffix_eq: "strip_suffix q s = Some d \<Longrightarrow> s = d @ q"
  by (auto simp: strip_suffix_def ends_with_def split: if_splits)
    (metis append_take_drop_id)

lemma entry_digest_eq: "entry_digest p = Some d \<Longrightarrow> p \<noteq> [] \<and> last p = entry_name d \<and> is_digest d"
  by (auto simp: entry_digest_def file_name_def entry_name_def dest!: strip_suffix_eq
      split: option.splits if_splits)

lemma entry_digest_path:
  assumes "child_of (entries_dir inner) p" and "entry_digest p = Some d"
  shows "p = entry_path inner d"
  using child_relist [OF assms(1)] entry_digest_eq [OF assms(2)] by (simp add: entry_path_def)

lemma fate_KeepD:
  "fate j inner now s p = Keep m \<Longrightarrow> \<not> is_temporary p \<and> regular_at s p = Some m
    \<and> (\<exists>d. entry_digest p = Some d \<and> \<not> key_busy inner s d)"
  by (auto simp: fate_def entry_fate_def Let_def split: option.splits if_splits)

lemma kept_of_fate:
  assumes p: "child_of (entries_dir inner) p" and k: "kept_of p (fate j inner now s p) = Some k"
  obtains m d where "fate j inner now s p = Keep m" "regular_at s p = Some m"
    "k = (modified_ms m, d, m_len m)" "p = entry_path inner d" "\<not> key_busy inner s d"
    "\<not> is_temporary p" "entry_digest p = Some d"
proof -
  from k obtain m where f: "fate j inner now s p = Keep m"
    and k': "k = (modified_ms m, the (entry_digest p), m_len m)"
    by (auto simp: kept_of_def split: fate.splits)
  from fate_KeepD [OF f] obtain d where d: "entry_digest p = Some d" "\<not> key_busy inner s d"
    "\<not> is_temporary p" "regular_at s p = Some m" by blast
  from that [OF f] d k' entry_digest_path [OF p d(1)] show thesis by auto
qed

lemma survivors_evictable:
  assumes "k \<in> set (survivors j inner now s)"
  shows "evictable inner s k"
proof -
  from assms obtain p where p: "child_of (entries_dir inner) p"
    and k: "kept_of p (fate j inner now s p) = Some k"
    by (auto simp: survivors_def map_filter_def dest: children_child)
  from p k show ?thesis by (rule kept_of_fate) (auto simp: evictable_def)
qed

lemma distinct_map_filter_kept:
  assumes "distinct ps" and "\<forall>p \<in> set ps. child_of (entries_dir inner) p"
  shows "distinct (map (fst \<circ> snd) (List.map_filter (\<lambda>p. kept_of p (fate j inner now s p)) ps))"
  using assms
proof (induction ps)
  case Nil
  then show ?case by (simp add: map_filter_simps)
next
  case (Cons p ps)
  show ?case
  proof (cases "kept_of p (fate j inner now s p)")
    case None
    with Cons show ?thesis by (simp add: map_filter_simps)
  next
    case (Some k)
    from Cons.prems have "child_of (entries_dir inner) p" by simp
    from kept_of_fate [OF this Some] obtain d where d: "fst (snd k) = d" "p = entry_path inner d"
      by (metis fst_conv snd_conv)
    have "fst (snd k') \<noteq> d" if "q \<in> set ps" "kept_of q (fate j inner now s q) = Some k'" for q k'
    proof -
      from that(1) Cons.prems have "child_of (entries_dir inner) q" "q \<noteq> p" by auto
      from kept_of_fate [OF this(1) that(2)] obtain e where "fst (snd k') = e" "q = entry_path inner e"
        by (metis fst_conv snd_conv)
      with \<open>q \<noteq> p\<close> d show ?thesis by auto
    qed
    with Cons Some d show ?thesis by (force simp: map_filter_simps map_filter_def)
  qed
qed

lemma survivors_distinct: "wf_os s \<Longrightarrow> distinct (map (fst \<circ> snd) (survivors j inner now s))"
  unfolding survivors_def
  by (intro distinct_map_filter_kept distinct_children ballI children_child) auto

lemma survivor_spared:
  assumes "k \<in> set (survivors j inner now s)"
  shows "entry_path inner (fst (snd k)) \<notin> swept j inner now s (children s (entries_dir inner))"
proof
  let ?ps = "children s (entries_dir inner)"
  assume "entry_path inner (fst (snd k)) \<in> swept j inner now s ?ps"
  then obtain q where q: "q \<in> set ?ps"
    and gone: "entry_path inner (fst (snd k)) \<in> fate_names s q (fate j inner now s q) \<union> lock_names inner s q"
    by (auto simp: swept_def)
  from assms obtain p where p: "p \<in> set ?ps" and k: "kept_of p (fate j inner now s p) = Some k"
    by (auto simp: survivors_def map_filter_def)
  from kept_of_fate [OF children_child [OF p] k] obtain m d where
    kd: "k = (modified_ms m, d, m_len m)" "p = entry_path inner d" "fate j inner now s p = Keep m"
    by metis
  show False
  proof (cases "q = p")
    case True
    with gone kd show False
      by (auto simp: fate_names_def lock_names_def split: option.splits if_splits)
  next
    case False
    from sibling [OF children_child [OF q] children_child [OF p] False] gone kd show False by auto
  qed
qed

section \<open>The outcome\<close>

definition over_cap :: "limits \<Rightarrow> usage \<Rightarrow> bool" where
  "over_cap lims u \<longleftrightarrow> u_entries u > hard_entries lims \<or> u_bytes u > hard_bytes lims"

definition start_sweep :: "inner \<Rightarrow> os \<Rightarrow> sweep" where
  "start_sweep inner s = (let before = usage_in inner s in
     \<lparr>s_outcome = prune_default\<lparr>locks_removed := of_nat (length (free_locks inner s)),
        before_entries := u_entries before, before_bytes := u_bytes before\<rparr>,
      s_left = before, s_kept = []\<rparr>)"

definition first_loop :: "'v serde \<Rightarrow> inner \<Rightarrow> os \<Rightarrow> sweep" where
  "first_loop j inner s =
     sweep_result j inner (clock s) s (children s (entries_dir inner)) (start_sweep inner s)"

definition evictions :: "'v serde \<Rightarrow> inner \<Rightarrow> os \<Rightarrow> (u64 \<times> str \<times> u64) list" where
  "evictions j inner s = (let lims = i_limits inner in
     if over_cap lims (usage_in inner s)
     then evicted (min (target_entries lims) (hard_entries lims))
            (min (target_bytes lims) (hard_bytes lims))
            (sort (survivors j inner (clock s) s)) (s_left (first_loop j inner s))
     else [])"

definition prune_result :: "'v serde \<Rightarrow> inner \<Rightarrow> os \<Rightarrow> prune_outcome" where
  "prune_result j inner s = (let ev = evictions j inner s;
       left = usage_after ev (s_left (first_loop j inner s)) in
     (s_outcome (first_loop j inner s))\<lparr>capacity_removed := of_nat (length ev),
       after_entries := u_entries left, after_bytes := u_bytes left\<rparr>)"

definition prune_names :: "'v serde \<Rightarrow> inner \<Rightarrow> os \<Rightarrow> path set" where
  "prune_names j inner s = set (free_locks inner s)
     \<union> swept j inner (clock s) s (children s (entries_dir inner))
     \<union> evicted_names inner (evictions j inner s)"

text \<open>The lock files of keys nobody holds are gone before the entries are looked at.\<close>

lemma free_locks_off:
  "child_of (entries_dir inner) p \<Longrightarrow> p \<notin> set (free_locks inner s)"
  by (auto simp: free_locks_def unheld_def child_of_def entries_dir_def locks_dir_def
      dest!: children_child)

lemma free_locks_not_fixed: "set (free_locks inner s) \<inter> fixed_paths inner = {}"
  using lock_child_not_fixed children_child by (fastforce simp: free_locks_def unheld_def)

lemma free_locks_spares: "spares_locks inner (set (free_locks inner s)) s"
  by (auto simp: spares_locks_def free_locks_def unheld_def)

text \<open>Removing things that are no entries leaves the entries as they were.\<close>

lemma entries_same:
  assumes r: "reduced D s s'" and wf: "wf_os s" and l: "spares_locks inner D s"
    and D: "\<And>p. child_of (entries_dir inner) p \<Longrightarrow> p \<notin> D"
  shows "children s' (entries_dir inner) = children s (entries_dir inner)"
    "usage_in inner s' = usage_in inner s"
    "child_of (entries_dir inner) p \<Longrightarrow> fate j inner now s' p = fate j inner now s p"
    "survivors j inner now s' = survivors j inner now s"
    "swept j inner now s' (children s (entries_dir inner)) =
       swept j inner now s (children s (entries_dir inner))"
    "sweep_result j inner now s' (children s (entries_dir inner)) st =
       sweep_result j inner now s (children s (entries_dir inner)) st"
proof -
  note fr = fate_reduced [OF r wf D l]
  show ch: "children s' (entries_dir inner) = children s (entries_dir inner)"
    using D children_child by (auto simp: reduced_children [OF r] intro!: filter_True)
  have "entry_files s' (children s (entries_dir inner)) = entry_files s (children s (entries_dir inner))"
    using D children_child regular_at_reduced [OF r wf]
    by (auto simp: entry_files_def map_filter_def intro!: map_cong filter_cong)
  with ch show "usage_in inner s' = usage_in inner s" by (simp add: usage_in_def)
  show "child_of (entries_dir inner) p \<Longrightarrow> fate j inner now s' p = fate j inner now s p"
    by (rule fr(1))
  show "survivors j inner now s' = survivors j inner now s"
    unfolding survivors_def ch map_filter_def
    by (intro map_cong filter_cong refl) (auto simp: fr(1) dest: children_child)
  show "swept j inner now s' (children s (entries_dir inner)) =
       swept j inner now s (children s (entries_dir inner))"
    unfolding swept_def by (intro SUP_cong refl) (simp add: fr children_child)
  show "sweep_result j inner now s' (children s (entries_dir inner)) st =
       sweep_result j inner now s (children s (entries_dir inner)) st"
    unfolding sweep_result_def by (intro fold_cong) (auto simp: fr(1) dest: children_child)
qed

text \<open>\<open>reduced D\<close> after the modification time of inode \<open>i\<close> was set.\<close>

definition stamped :: "nat \<Rightarrow> int \<Rightarrow> path set \<Rightarrow> os \<Rightarrow> os \<Rightarrow> bool" where
  "stamped i t D s s' \<longleftrightarrow> reduced D (set_node i ((inodes s i)\<lparr>mtime := t\<rparr>) s) s'"

lemma stampedI:
  "reduced D s s' \<Longrightarrow> i < next_ino s \<Longrightarrow>
    stamped i t D s (set_node i ((inodes s' i)\<lparr>mtime := t\<rparr>) s')"
  by (auto simp: stamped_def reduced_def)

section \<open>Pruning with both locks held\<close>

lemma ready_stamp:
  assumes r: "ready inner w"
  shows "ready inner (w\<lparr>fs := set_node i ((inodes (fs w) i)\<lparr>mtime := t\<rparr>) (fs w)\<rparr>)"
  using r by (auto simp: ready_def private_dir_def private_file_def wf_os_def)

text \<open>The two steps that leave the entries alone or thin them out, as one reduction each.\<close>

lemma sweep_phase:
  assumes r: "ready inner w"
  shows "\<exists>s. sweep_loop j inner (clock (fs w)) (children (fs w) (entries_dir inner)) st w =
      (Inr (sweep_result j inner (clock (fs w)) (fs w) (children (fs w) (entries_dir inner)) st), w\<lparr>fs := s\<rparr>)
    \<and> reduced (swept j inner (clock (fs w)) (fs w) (children (fs w) (entries_dir inner))) (fs w) s
    \<and> ready inner (w\<lparr>fs := s\<rparr>)
    \<and> (\<forall>k \<in> set (survivors j inner (clock (fs w)) (fs w)). evictable inner s k)"
proof -
  let ?ps = "children (fs w) (entries_dir inner)" and ?now = "clock (fs w)"
  let ?D = "swept j inner ?now (fs w) ?ps"
  from r have wf: "wf_os (fs w)" by (simp add: ready_def)
  from sweep_loop_calm [OF r _ distinct_children [OF wf], of "entries_dir inner" j ?now st] children_child
  obtain s where l: "sweep_loop j inner ?now ?ps st w =
      (Inr (sweep_result j inner ?now (fs w) ?ps st), w\<lparr>fs := s\<rparr>)"
    and s: "reduced ?D (fs w) s" and sp: "spares_locks inner ?D (fs w)"
    and fx: "?D \<inter> fixed_paths inner = {}"
    by blast
  have "evictable inner s k" if k: "k \<in> set (survivors j inner ?now (fs w))" for k
    using survivors_evictable [OF k] regular_at_reduced [OF s wf survivor_spared [OF k]]
      key_busy_reduced [OF s sp]
    by (auto simp: evictable_def)
  with l s ready_reduced [OF r s fx] show ?thesis by blast
qed

lemma prune_locked_calm:
  assumes r: "ready inner w" and p: "ino_at (fs w) (prune_lock_path inner) = Some (f_ino p)"
  shows "\<exists>s. prune_locked j inner p w = (Inr (prune_result j inner (fs w)), w\<lparr>fs := s\<rparr>)
    \<and> stamped (f_ino p) (at (clock (fs w))) (prune_names j inner (fs w)) (fs w) s"
proof -
  let ?E = "entries_dir inner" and ?s0 = "fs w" and ?lims = "i_limits inner"
  let ?now = "clock ?s0" and ?ps = "children ?s0 ?E" and ?L = "set (free_locks inner ?s0)"
  let ?st = "first_loop j inner ?s0" and ?ev = "evictions j inner ?s0"
  from r have calm: "calm w" and wf: "wf_os ?s0" and d: "private_dir w ?E"
    by (simp_all add: ready_def)
  from remove_unheld_locks_calm [OF r] obtain s1 where
    l1: "remove_unheld_locks inner w = (Inr (of_nat (length (free_locks inner ?s0))), w\<lparr>fs := s1\<rparr>)"
    and s1: "reduced ?L ?s0 s1" by blast
  let ?w1 = "w\<lparr>fs := s1\<rparr>"
  have r1: "ready inner ?w1" using r s1 free_locks_not_fixed by (rule ready_reduced)
  then have calm1: "calm ?w1" and d1: "private_dir ?w1 ?E" by (simp_all add: ready_def)
  note same = entries_same [OF s1 wf free_locks_spares free_locks_off]
  from s1 have now: "clock s1 = ?now" by (simp add: reduced_def)
  from usage_of_calm [OF r1] same(2) have u: "usage_of inner ?w1 = (Inr (usage_in inner ?s0), ?w1)"
    by simp
  from read_dir_private [OF calm1 d1] same(1)
  have rd: "io (read_dir ?E) ?w1 = (Inr ?ps, ?w1)" by simp
  have "\<exists>s2. sweep_loop j inner ?now ?ps (start_sweep inner ?s0) ?w1 = (Inr ?st, w\<lparr>fs := s2\<rparr>)
      \<and> reduced (swept j inner ?now ?s0 ?ps) s1 s2 \<and> ready inner (w\<lparr>fs := s2\<rparr>)
      \<and> (\<forall>k \<in> set (survivors j inner ?now ?s0). evictable inner s2 k)"
    using sweep_phase [OF r1, of j "start_sweep inner ?s0"] by (simp add: same now first_loop_def)
  then obtain s2 where
    l2: "sweep_loop j inner ?now ?ps (start_sweep inner ?s0) ?w1 = (Inr ?st, w\<lparr>fs := s2\<rparr>)"
    and s2: "reduced (swept j inner ?now ?s0 ?ps) s1 s2"
    and r2: "ready inner (w\<lparr>fs := s2\<rparr>)"
    and ev2: "\<forall>k \<in> set (survivors j inner ?now ?s0). evictable inner s2 k"
    by blast
  have kept: "s_kept ?st = survivors j inner ?now ?s0"
    by (simp add: first_loop_def kept_sweep_result survivors_def start_sweep_def Let_def)
  have dist: "distinct (map (fst \<circ> snd) (sort (survivors j inner ?now ?s0)))"
    using survivors_distinct [OF wf, of j inner ?now]
    by (simp add: distinct_map inj_on_def comp_def)
  let ?evict = "if u_entries (usage_in inner ?s0) > hard_entries ?lims
       \<or> u_bytes (usage_in inner ?s0) > hard_bytes ?lims
     then evict_loop inner (min (target_entries ?lims) (hard_entries ?lims))
            (min (target_bytes ?lims) (hard_bytes ?lims)) (sort (s_kept ?st)) (0, s_left ?st)
     else ok (0, s_left ?st)"
  obtain s3 where l3: "?evict (w\<lparr>fs := s2\<rparr>) =
      (Inr (of_nat (length ?ev), usage_after ?ev (s_left ?st)), w\<lparr>fs := s3\<rparr>)"
    and s3: "reduced (evicted_names inner ?ev) s2 s3" and r3: "ready inner (w\<lparr>fs := s3\<rparr>)"
  proof (cases "over_cap ?lims (usage_in inner ?s0)")
    case True
    from evict_loop_calm [OF r2, of "sort (survivors j inner ?now ?s0)"
        "min (target_entries ?lims) (hard_entries ?lims)"
        "min (target_bytes ?lims) (hard_bytes ?lims)" "(0, s_left ?st)"] ev2 dist True kept
      ready_reduced [OF r2]
    show thesis by (auto simp: evictions_def Let_def over_cap_def intro: that)
  next
    case False
    with that [of s2] r2 show thesis
      by (simp add: evictions_def Let_def over_cap_def usage_after_def evicted_names_def)
  qed
  from r3 sync_dir_reduced [of "w\<lparr>fs := s3\<rparr>" ?E] obtain s4 where
    l4: "sync_dir ?E (w\<lparr>fs := s3\<rparr>) = (Inr (), w\<lparr>fs := s4\<rparr>)" and s4: "reduced {} s3 s4"
    by (auto simp: ready_def)
  let ?s5 = "set_node (f_ino p) ((inodes s4 (f_ino p))\<lparr>mtime := at ?now\<rparr>) s4"
  from calm have l5: "io (set_modified p (at ?now)) (w\<lparr>fs := s4\<rparr>) = (Inr (), w\<lparr>fs := ?s5\<rparr>)"
    by (simp add: calm_simps)
  have "reduced (prune_names j inner ?s0) ?s0 s4"
    unfolding prune_names_def
    using reduced_trans [OF reduced_trans [OF s1 s2] reduced_before [OF s3 s4]] .
  then have st: "stamped (f_ino p) (at ?now) (prune_names j inner ?s0) ?s0 ?s5"
    by (rule stampedI) (rule wf_ino_less [OF wf p])
  define k4 where "k4 = (\<lambda>(removed, left :: usage).
     andThen (sync_dir ?E) (\<lambda>_.
     andThen (io (set_modified p (at ?now))) (\<lambda>_.
     ok ((s_outcome ?st)\<lparr>capacity_removed := removed, after_entries := u_entries left,
           after_bytes := u_bytes left\<rparr>))))"
  have "k4 (of_nat (length ?ev), usage_after ?ev (s_left ?st)) (w\<lparr>fs := s3\<rparr>)
      = (Inr (prune_result j inner ?s0), w\<lparr>fs := ?s5\<rparr>)"
    using l4 l5 by (simp add: k4_def prune_result_def Let_def)
  with l3 have tail: "andThen ?evict k4 (w\<lparr>fs := s2\<rparr>) = (Inr (prune_result j inner ?s0), w\<lparr>fs := ?s5\<rparr>)"
    by (simp only: andThen_Inr [of "?evict", OF l3])
  have nw: "now_ms ?w1 = ?now" using now by (simp add: now_ms_def)
  have start: "start_sweep inner ?s0 = \<lparr>s_outcome = prune_default\<lparr>locks_removed := of_nat (length (free_locks inner ?s0)),
        before_entries := u_entries (usage_in inner ?s0), before_bytes := u_bytes (usage_in inner ?s0)\<rparr>,
      s_left = usage_in inner ?s0, s_kept = []\<rparr>"
    by (simp add: start_sweep_def Let_def)
  have "prune_locked j inner p w = andThen ?evict k4 (w\<lparr>fs := s2\<rparr>)"
    unfolding prune_locked_def Let_def k4_def start [symmetric]
      andThen_Inr [of "ensure_dir ?E", OF ensure_dir_private [OF calm d]]
      andThen_Inr [of "remove_unheld_locks inner", OF l1]
      andThen_Inr [of "usage_of inner", OF u] nw
      andThen_Inr [of "io (read_dir ?E)", OF rd]
      andThen_Inr [of "sweep_loop j inner ?now ?ps (start_sweep inner ?s0)", OF l2] ..
  with tail st show ?thesis by auto
qed

end
