(* ===== verification/Prune_Calm.thy ===== *)
theory Prune_Calm
  imports Prune_Effect
begin

text \<open>
  \<open>prune\<close> with its two locks, \<open>maintenance.lock\<close> shared and \<open>prune.lock\<close> exclusive, in a
  cache nobody interferes with. It is refused or made to wait exactly when a clear holds
  the first or another prune the second.
\<close>

definition excl_locked :: "os \<Rightarrow> path \<Rightarrow> bool" where
  "excl_locked s p \<longleftrightarrow> (case ino_at s p of
     None \<Rightarrow> False | Some i \<Rightarrow> \<exists>d. (d, i, Exclusive) \<in> set (locks s))"

definition blocked :: "inner \<Rightarrow> os \<Rightarrow> bool" where
  "blocked inner s \<longleftrightarrow> excl_locked s (maintenance_path inner) \<or> lock_busy s (prune_lock_path inner)"

text \<open>Locks on files that are no key locks change nothing a prune looks at.\<close>

definition relocked :: "inner \<Rightarrow> os \<Rightarrow> os \<Rightarrow> bool" where
  "relocked inner s s' \<longleftrightarrow> dirents s' = dirents s \<and> inodes s' = inodes s \<and> clock s' = clock s
     \<and> next_ino s' = next_ino s
     \<and> (\<forall>p. child_of (locks_dir inner) p \<longrightarrow> lock_busy s' p = lock_busy s p)"

lemma relocked_prune:
  assumes "relocked inner s s'"
  shows "prune_result j inner s' = prune_result j inner s"
    "prune_names j inner s' = prune_names j inner s"
proof -
  from assms have ino: "ino_at s' p = ino_at s p" and ch: "children s' q = children s q"
    and ck: "clock s' = clock s" and nd: "inodes s' = inodes s" for p q
    by (simp_all add: relocked_def ino_at_def children_def)
  have reg: "regular_at s' p = regular_at s p" for p
    by (simp only: regular_at_def metadata_at_def ino nd)
  have nm: "names_of s' p = names_of s p" for p
    by (simp only: names_of_def node_at_def ino nd)
  from assms have busy: "key_busy inner s' d = key_busy inner s d" for d
    by (simp add: relocked_def)
  have fl: "free_locks inner s' = free_locks inner s"
    using assms by (auto simp: free_locks_def unheld_def ch relocked_def dest: children_child
        intro!: filter_cong)
  have ft: "fate j inner now s' p = fate j inner now s p" for p now
    by (simp add: fate_def entry_fate_def reg busy split: option.split)
  have fn: "fate_names s' p f = fate_names s p f" for p f
    by (simp add: fate_names_def nm split: fate.split)
  have ln: "lock_names inner s' p = lock_names inner s p" for p
    by (simp add: lock_names_def busy split: option.split)
  have us: "usage_in inner s' = usage_in inner s"
    unfolding usage_in_def entry_files_def ch reg ..
  have fst_loop: "first_loop j inner s' = first_loop j inner s"
    by (simp add: first_loop_def sweep_result_def ch ft ck start_sweep_def us fl)
  have sv: "survivors j inner now s' = survivors j inner now s" for now
    by (simp add: survivors_def ch ft)
  have ev: "evictions j inner s' = evictions j inner s"
    unfolding evictions_def us sv fst_loop ck ..
  show "prune_result j inner s' = prune_result j inner s"
    by (simp add: prune_result_def ev fst_loop)
  show "prune_names j inner s' = prune_names j inner s"
    by (simp add: prune_names_def fl swept_def ch ft fn ln ck ev)
qed

text \<open>The state with a further lock on inode \<open>i\<close>, taken by a new open file description.\<close>

definition with_lock :: "nat \<Rightarrow> lock_mode \<Rightarrow> os \<Rightarrow> os" where
  "with_lock i m s = s\<lparr>next_fd := Suc (next_fd s), locks := (next_fd s, i, m) # locks s\<rparr>"

lemma with_lock_fields [simp]:
  "dirents (with_lock i m s) = dirents s" "inodes (with_lock i m s) = inodes s"
  "next_ino (with_lock i m s) = next_ino s" "clock (with_lock i m s) = clock s"
  "ktime (with_lock i m s) = ktime s" "next_fd (with_lock i m s) = Suc (next_fd s)"
  "locks (with_lock i m s) = (next_fd s, i, m) # locks s"
  "ino_at (with_lock i m s) p = ino_at s p"
  by (simp_all add: with_lock_def ino_at_def)

lemma with_lock_wf: "wf_os s \<Longrightarrow> i < next_ino s \<Longrightarrow> wf_os (with_lock i m s)"
  by (fastforce simp: wf_os_def)

lemma with_lock_ready:
  "ready inner w \<Longrightarrow> i < next_ino (fs w) \<Longrightarrow> ready inner (w\<lparr>fs := with_lock i m (fs w)\<rparr>)"
  by (auto simp: ready_def private_dir_def private_file_def with_lock_wf)

lemma with_lock_relocked:
  assumes wf: "wf_os s" and p: "ino_at s p = Some i" and "p \<in> fixed_paths inner"
  shows "relocked inner s (with_lock i m s)"
proof -
  have "lock_busy (with_lock i m s) q = lock_busy s q" if "child_of (locks_dir inner) q" for q
  proof -
    from lock_child_not_fixed [OF that] assms(3) have "q \<noteq> p" by auto
    with wf_ino_inj [OF wf _ p] show ?thesis by (auto simp: lock_busy_def split: option.split)
  qed
  then show ?thesis by (simp add: relocked_def)
qed

lemma relocked_trans: "relocked inner s s' \<Longrightarrow> relocked inner s' s'' \<Longrightarrow> relocked inner s s''"
  by (simp add: relocked_def)

text \<open>Dropping the descriptions again.\<close>

lemma stamped_drop_lock:
  assumes "stamped i t D (with_lock k m s) s'" and "wf_os s"
  shows "stamped i t D s (s'\<lparr>locks := filter (\<lambda>(d, i, m). d \<noteq> next_fd s) (locks s')\<rparr>)"
  using assms wf_locks_filter [OF assms(2), of "next_fd s"]
  by (auto simp: stamped_def reduced_def)

lemma reduced_drop_lock:
  assumes "reduced D (with_lock k m s) s'" and "wf_os s"
  shows "reduced D s (s'\<lparr>locks := filter (\<lambda>(d, i, m). d \<noteq> next_fd s) (locks s')\<rparr>)"
  using assms wf_locks_filter [OF assms(2), of "next_fd s"] by (auto simp: reduced_def)

lemma wf_lock_fd: "wf_os s \<Longrightarrow> (d, i, m) \<in> set (locks s) \<Longrightarrow> d \<noteq> next_fd s"
  by (auto simp: wf_os_def)

lemma conflict_shared:
  assumes "ino_at s p = Some i" and "wf_os s"
  shows "conflict \<lparr>fd = next_fd s, f_ino = i\<rparr> Shared (s\<lparr>next_fd := n\<rparr>) \<longleftrightarrow> excl_locked s p"
  using wf_lock_fd [OF assms(2)] assms(1)
  by (simp add: conflict_def excl_locked_def case_prod_unfold) (metis fst_conv prod.collapse snd_conv)

lemma conflict_exclusive:
  assumes "ino_at s p = Some i" and "wf_os s"
  shows "conflict \<lparr>fd = next_fd s, f_ino = i\<rparr> Exclusive (s\<lparr>next_fd := n\<rparr>) \<longleftrightarrow> lock_busy s p"
  using wf_lock_fd [OF assms(2)] assms(1)
  by (simp add: conflict_def lock_busy_def case_prod_unfold image_iff) (metis prod.collapse)

lemma grant_with_lock:
  "grant \<lparr>fd = next_fd s, f_ino = i\<rparr> m (s\<lparr>next_fd := Suc (next_fd s)\<rparr>) = with_lock i m s"
  by (simp add: grant_def with_lock_def)

lemma open_lock_ready:
  assumes "ready inner w" and "p \<in> {maintenance_path inner, prune_lock_path inner}"
  obtains i where "ino_at (fs w) p = Some i" "i < next_ino (fs w)"
    "open_lock p w = (Inr \<lparr>fd = next_fd (fs w), f_ino = i\<rparr>,
       w\<lparr>fs := (fs w)\<lparr>next_fd := Suc (next_fd (fs w))\<rparr>\<rparr>)"
proof -
  from assms have f: "private_file w p" and c: "calm w" and wf: "wf_os (fs w)"
    by (auto simp: ready_def)
  then obtain i where "ino_at (fs w) p = Some i" by (auto simp: private_file_def)
  with open_lock_existing [OF c f] wf_ino_less [OF wf] show thesis by (intro that [of i]) auto
qed

lemma wf_next_fd: "wf_os s \<Longrightarrow> next_fd s \<le> n \<Longrightarrow> wf_os (s\<lparr>next_fd := n\<rparr>)"
  by (fastforce simp: wf_os_def)

lemma ready_next_fd: "ready inner w \<Longrightarrow> next_fd (fs w) \<le> n \<Longrightarrow>
    ready inner (w\<lparr>fs := (fs w)\<lparr>next_fd := n\<rparr>\<rparr>)"
  by (simp add: ready_def private_dir_def private_file_def wf_next_fd)

text \<open>Both lock files opened, before either lock is taken.\<close>

lemma prune_opens:
  assumes r: "ready inner w"
  obtains mi p where
    "ino_at (fs w) (maintenance_path inner) = Some mi" "mi < next_ino (fs w)"
    "ino_at (fs w) (prune_lock_path inner) = Some p" "p < next_ino (fs w)" "mi \<noteq> p"
    "open_lock (maintenance_path inner) w = (Inr \<lparr>fd = next_fd (fs w), f_ino = mi\<rparr>,
      w\<lparr>fs := (fs w)\<lparr>next_fd := Suc (next_fd (fs w))\<rparr>\<rparr>)"
    "open_lock (prune_lock_path inner) (w\<lparr>fs := (fs w)\<lparr>next_fd := Suc (next_fd (fs w))\<rparr>\<rparr>) =
      (Inr \<lparr>fd = Suc (next_fd (fs w)), f_ino = p\<rparr>,
      w\<lparr>fs := (fs w)\<lparr>next_fd := Suc (Suc (next_fd (fs w)))\<rparr>\<rparr>)"
proof -
  let ?M = "maintenance_path inner" and ?P = "prune_lock_path inner" and ?s0 = "fs w"
  from r have wf: "wf_os ?s0" by (simp add: ready_def)
  obtain mi where mi: "ino_at ?s0 ?M = Some mi" "mi < next_ino ?s0"
    and om: "open_lock ?M w = (Inr \<lparr>fd = next_fd ?s0, f_ino = mi\<rparr>,
      w\<lparr>fs := ?s0\<lparr>next_fd := Suc (next_fd ?s0)\<rparr>\<rparr>)"
    using open_lock_ready [OF r, of ?M] by blast
  let ?n = "?s0\<lparr>next_fd := Suc (next_fd ?s0)\<rparr>"
  have rn: "ready inner (w\<lparr>fs := ?n\<rparr>)" using r by (rule ready_next_fd) simp
  obtain p where pi: "ino_at ?s0 ?P = Some p" "p < next_ino ?s0"
    and op: "open_lock ?P (w\<lparr>fs := ?n\<rparr>) = (Inr \<lparr>fd = Suc (next_fd ?s0), f_ino = p\<rparr>,
      w\<lparr>fs := ?s0\<lparr>next_fd := Suc (Suc (next_fd ?s0))\<rparr>\<rparr>)"
    using open_lock_ready [OF rn, of ?P] by auto
  have "mi \<noteq> p" using wf_ino_inj [OF wf mi(1)] pi(1)
    by (auto simp: maintenance_path_def prune_lock_path_def maintenance_name_def prune_lock_name_def)
  from that [OF mi pi this om op] show thesis .
qed

text \<open>The whole prune.\<close>

lemma prune_calm_free:
  assumes r: "ready inner w" and free: "\<not> blocked inner (fs w)"
  shows "\<exists>s i. prune j inner wt w = (Inr (prune_result j inner (fs w)), w\<lparr>fs := s\<rparr>)
    \<and> ino_at (fs w) (prune_lock_path inner) = Some i
    \<and> stamped i (at (clock (fs w))) (prune_names j inner (fs w)) (fs w) s"
proof -
  let ?M = "maintenance_path inner" and ?P = "prune_lock_path inner" and ?s0 = "fs w"
  from r have calm: "calm w" and wf: "wf_os ?s0" and d: "private_dir w (root inner)"
    by (simp_all add: ready_def)
  obtain mi p where mi: "ino_at ?s0 ?M = Some mi" "mi < next_ino ?s0"
    and pi: "ino_at ?s0 ?P = Some p" "p < next_ino ?s0" and ne: "mi \<noteq> p"
    and om: "open_lock ?M w = (Inr \<lparr>fd = next_fd ?s0, f_ino = mi\<rparr>,
      w\<lparr>fs := ?s0\<lparr>next_fd := Suc (next_fd ?s0)\<rparr>\<rparr>)"
    and op: "open_lock ?P (w\<lparr>fs := ?s0\<lparr>next_fd := Suc (next_fd ?s0)\<rparr>\<rparr>) =
      (Inr \<lparr>fd = Suc (next_fd ?s0), f_ino = p\<rparr>, w\<lparr>fs := ?s0\<lparr>next_fd := Suc (Suc (next_fd ?s0))\<rparr>\<rparr>)"
    using prune_opens [OF r] by blast
  let ?m = "\<lparr>fd = next_fd ?s0, f_ino = mi\<rparr>"
  let ?p = "\<lparr>fd = Suc (next_fd ?s0), f_ino = p\<rparr>"
  let ?nn = "?s0\<lparr>next_fd := Suc (Suc (next_fd ?s0))\<rparr>"
  let ?s1 = "with_lock mi Shared ?s0" and ?s2 = "with_lock p Exclusive (with_lock mi Shared ?s0)"
  have wf1: "wf_os ?s1" using wf mi(2) by (rule with_lock_wf)
  from ne free pi(1) have free1: "\<not> lock_busy ?s1 ?P" by (auto simp: blocked_def lock_busy_def)
  have c1: "\<not> conflict ?m Shared ?nn"
    using free mi(1) conflict_shared [OF _ wf, of ?M mi] by (simp add: blocked_def)
  have g1: "grant ?m Shared ?nn = ?s1\<lparr>next_fd := Suc (next_fd ?s1)\<rparr>"
    by (simp add: grant_def with_lock_def)
  have c2: "\<not> conflict ?p Exclusive (?s1\<lparr>next_fd := Suc (next_fd ?s1)\<rparr>)"
    using free1 pi(1) conflict_exclusive [OF _ wf1, of ?P p] by simp
  have g2: "grant ?p Exclusive (?s1\<lparr>next_fd := Suc (next_fd ?s1)\<rparr>) = ?s2"
    using grant_with_lock [of ?s1 p Exclusive] by simp
  have tk: "take_prune_locks wt ?m ?p (w\<lparr>fs := ?nn\<rparr>) = (Inr (), w\<lparr>fs := ?s2\<rparr>)"
    using calm c1 c2
    by (cases wt) (simp_all add: take_prune_locks_def calm_simps g1 g2 [simplified])
  have r2: "ready inner (w\<lparr>fs := ?s2\<rparr>)"
    using with_lock_ready [OF with_lock_ready [OF r mi(2)], of p] pi(2) by simp
  have "relocked inner ?s0 ?s2"
  proof (rule relocked_trans)
    show "relocked inner ?s0 ?s1" by (rule with_lock_relocked [OF wf mi(1)]) (simp add: fixed_paths_def)
    show "relocked inner ?s1 ?s2"
      by (rule with_lock_relocked [OF wf1, of ?P]) (simp_all add: fixed_paths_def pi(1))
  qed
  note same = relocked_prune [OF this, of j]
  from prune_locked_calm [OF r2, of ?p j] pi(1) same obtain s3 where
    pl: "prune_locked j inner ?p (w\<lparr>fs := ?s2\<rparr>) = (Inr (prune_result j inner ?s0), w\<lparr>fs := s3\<rparr>)"
    and s3: "stamped p (at (clock ?s0)) (prune_names j inner ?s0) ?s2 s3"
    by auto
  let ?s4 = "s3\<lparr>locks := filter (\<lambda>(d, i, m). d \<noteq> next_fd ?s1) (locks s3)\<rparr>"
  let ?s5 = "?s4\<lparr>locks := filter (\<lambda>(d, i, m). d \<noteq> next_fd ?s0) (locks ?s4)\<rparr>"
  have s5: "stamped p (at (clock ?s0)) (prune_names j inner ?s0) ?s0 ?s5"
    by (rule stamped_drop_lock [OF stamped_drop_lock [OF s3 wf1] wf])
  have "prune j inner wt w = (Inr (prune_result j inner ?s0), w\<lparr>fs := ?s5\<rparr>)"
    using calm d om op tk pl
    by (simp add: prune_def calm_simps drop_file_def)
  with s5 pi(1) show ?thesis by blast
qed

lemma prune_calm_blocked:
  assumes r: "ready inner w" and b: "blocked inner (fs w)"
  shows "fst (prune j inner Block w) = Inl Pending"
    "\<exists>s. prune j inner Skip w = (Inl (Err Lock), w\<lparr>fs := s\<rparr>) \<and> reduced {} (fs w) s"
proof -
  let ?M = "maintenance_path inner" and ?P = "prune_lock_path inner" and ?s0 = "fs w"
  from r have calm: "calm w" and wf: "wf_os ?s0" and d: "private_dir w (root inner)"
    by (simp_all add: ready_def)
  obtain mi p where mi: "ino_at ?s0 ?M = Some mi" "mi < next_ino ?s0"
    and pi: "ino_at ?s0 ?P = Some p" "p < next_ino ?s0" and ne: "mi \<noteq> p"
    and om: "open_lock ?M w = (Inr \<lparr>fd = next_fd ?s0, f_ino = mi\<rparr>,
      w\<lparr>fs := ?s0\<lparr>next_fd := Suc (next_fd ?s0)\<rparr>\<rparr>)"
    and op: "open_lock ?P (w\<lparr>fs := ?s0\<lparr>next_fd := Suc (next_fd ?s0)\<rparr>\<rparr>) =
      (Inr \<lparr>fd = Suc (next_fd ?s0), f_ino = p\<rparr>, w\<lparr>fs := ?s0\<lparr>next_fd := Suc (Suc (next_fd ?s0))\<rparr>\<rparr>)"
    using prune_opens [OF r] by blast
  let ?m = "\<lparr>fd = next_fd ?s0, f_ino = mi\<rparr>"
  let ?p = "\<lparr>fd = Suc (next_fd ?s0), f_ino = p\<rparr>"
  let ?nn = "?s0\<lparr>next_fd := Suc (Suc (next_fd ?s0))\<rparr>"
  let ?s1 = "with_lock mi Shared ?s0"
  have wf1: "wf_os ?s1" using wf mi(2) by (rule with_lock_wf)
  from ne pi(1) have busy1: "lock_busy ?s1 ?P = lock_busy ?s0 ?P" by (auto simp: lock_busy_def)
  have c1: "conflict ?m Shared ?nn = excl_locked ?s0 ?M"
    using mi(1) conflict_shared [OF _ wf, of ?M mi] by simp
  have g1: "grant ?m Shared ?nn = ?s1\<lparr>next_fd := Suc (next_fd ?s1)\<rparr>"
    by (simp add: grant_def with_lock_def)
  have c2: "conflict ?p Exclusive (?s1\<lparr>next_fd := Suc (next_fd ?s1)\<rparr>) = lock_busy ?s0 ?P"
    using busy1 pi(1) conflict_exclusive [OF _ wf1, of ?P p] by simp
  show "fst (prune j inner Block w) = Inl Pending"
  proof (cases "excl_locked ?s0 ?M")
    case True
    with calm d om op c1 show ?thesis
      by (simp add: prune_def calm_simps take_prune_locks_def scoped_def)
  next
    case False
    with b have "lock_busy ?s0 ?P" by (simp add: blocked_def)
    with False calm d om op c1 g1 c2 show ?thesis
      by (simp add: prune_def calm_simps take_prune_locks_def scoped_def)
  qed
  show "\<exists>s. prune j inner Skip w = (Inl (Err Lock), w\<lparr>fs := s\<rparr>) \<and> reduced {} (fs w) s"
  proof (cases "excl_locked ?s0 ?M")
    case True
    let ?t = "?nn\<lparr>locks := filter (\<lambda>(d, i, m). d \<noteq> next_fd ?s0)
      (filter (\<lambda>(d, i, m). d \<noteq> Suc (next_fd ?s0)) (locks ?s0))\<rparr>"
    have "reduced {} ?s0 ?t"
      using wf_locks_filter [OF wf, of "next_fd ?s0"] wf_locks_filter [OF wf, of "Suc (next_fd ?s0)"]
      by (simp add: reduced_def case_prod_beta')
    moreover from True calm d om op c1 have "prune j inner Skip w = (Inl (Err Lock), w\<lparr>fs := ?t\<rparr>)"
      by (simp add: prune_def calm_simps take_prune_locks_def drop_file_def lock_error_def)
    ultimately show ?thesis by blast
  next
    case False
    with b have "lock_busy ?s0 ?P" by (simp add: blocked_def)
    let ?t = "?nn\<lparr>locks := filter (\<lambda>(d, i, m). d \<noteq> next_fd ?s0)
      (filter (\<lambda>(d, i, m). d \<noteq> Suc (next_fd ?s0)) ((next_fd ?s0, mi, Shared) # locks ?s0))\<rparr>"
    have "reduced {} ?s0 ?t"
      using wf_locks_filter [OF wf, of "next_fd ?s0"] wf_locks_filter [OF wf, of "Suc (next_fd ?s0)"]
      by (simp add: reduced_def case_prod_beta')
    moreover from False \<open>lock_busy ?s0 ?P\<close> calm d om op c1 g1 c2
    have "prune j inner Skip w = (Inl (Err Lock), w\<lparr>fs := ?t\<rparr>)"
      by (simp add: prune_def calm_simps take_prune_locks_def drop_file_def lock_error_def with_lock_def)
    ultimately show ?thesis by blast
  qed
qed

end
