(* ===== verification/Triples.thy ===== *)
theory Triples
  imports Errors
begin

text \<open>
  A Hoare logic for fallible calls: \<open>triple P m Q E\<close> says that \<open>m\<close>, started where \<open>P\<close>
  holds, ends with a value \<open>x\<close> where \<open>Q x\<close> holds, or stops (with an error, or waiting) where
  \<open>E\<close> holds. The rules follow the shapes of the Rust code: \<open>?\<close>, a dropped local, an early
  return that drops one.
\<close>

definition triple :: "('w \<Rightarrow> bool) \<Rightarrow> ('w, 'e, 'a) io \<Rightarrow> ('a \<Rightarrow> 'w \<Rightarrow> bool) \<Rightarrow> ('w \<Rightarrow> bool) \<Rightarrow> bool" where
  "triple P m Q E \<longleftrightarrow> (\<forall>w. P w \<longrightarrow> (case m w of
     (Inr x, w') \<Rightarrow> Q x w' | (Inl e, w') \<Rightarrow> E w'))"

named_theorems triple_intros \<open>rules of the logic, one per shape of code\<close>

lemma tripleI:
  "(\<And>w x w'. P w \<Longrightarrow> m w = (Inr x, w') \<Longrightarrow> Q x w') \<Longrightarrow>
   (\<And>w e w'. P w \<Longrightarrow> m w = (Inl e, w') \<Longrightarrow> E w') \<Longrightarrow> triple P m Q E"
  by (auto simp: triple_def split: prod.splits sum.splits)

lemma triple_Inr: "triple P m Q E \<Longrightarrow> P w \<Longrightarrow> m w = (Inr x, w') \<Longrightarrow> Q x w'"
  by (auto simp: triple_def dest!: spec [of _ w])

lemma triple_Inl: "triple P m Q E \<Longrightarrow> P w \<Longrightarrow> m w = (Inl e, w') \<Longrightarrow> E w'"
  by (auto simp: triple_def dest!: spec [of _ w])

lemma triple_weaken:
  assumes "triple P' m Q' E'" and "\<And>w. P w \<Longrightarrow> P' w" and "\<And>x w. Q' x w \<Longrightarrow> Q x w"
    and "\<And>w. E' w \<Longrightarrow> E w"
  shows "triple P m Q E"
  using assms(2-4) by (intro tripleI) (blast dest: triple_Inr [OF assms(1)] triple_Inl [OF assms(1)])+

lemma triple_post: "triple P m Q' E \<Longrightarrow> (\<And>x w. Q' x w \<Longrightarrow> Q x w) \<Longrightarrow> triple P m Q E"
  by (rule triple_weaken)

lemma triple_ok: "(\<And>w. P w \<Longrightarrow> Q x w) \<Longrightarrow> triple P (ok x) Q E"
  by (simp add: triple_def)

lemma triple_fail: "(\<And>w. P w \<Longrightarrow> E w) \<Longrightarrow> triple P (fail e) Q E"
  by (simp add: triple_def)

lemma triple_andThen:
  "triple P m R E \<Longrightarrow> (\<And>x. triple (R x) (k x) Q E) \<Longrightarrow> triple P (andThen m k) Q E"
  unfolding triple_def andThen_def by (fastforce split: prod.splits sum.splits)

lemma triple_map_err: "triple P m Q E \<Longrightarrow> triple P (map_err f m) Q E"
  unfolding triple_def map_err_def by (fastforce split: prod.splits sum.splits stop.splits)

lemma triple_io: "triple P m Q E \<Longrightarrow> triple P (io m) Q E"
  unfolding io_def by (rule triple_map_err)

lemma triple_ignore:
  "triple P m Q E \<Longrightarrow> (\<And>x w. Q x w \<Longrightarrow> R w) \<Longrightarrow> (\<And>w. E w \<Longrightarrow> R w) \<Longrightarrow> triple P (ignore m) (\<lambda>_. R) E"
  unfolding triple_def ignore_def by (fastforce split: prod.splits sum.splits stop.splits)

lemma triple_scoped:
  "triple P m Q' E' \<Longrightarrow> (\<And>x w. Q' x w \<Longrightarrow> Q x (d w)) \<Longrightarrow> (\<And>w. E' w \<Longrightarrow> E (d w) \<and> E w) \<Longrightarrow>
    triple P (scoped m d) Q E"
  unfolding triple_def scoped_def by (fastforce split: prod.splits sum.splits stop.splits)

lemma triple_on_error:
  "triple P m Q E' \<Longrightarrow> (\<And>w. E' w \<Longrightarrow> E (d w) \<and> E w) \<Longrightarrow> triple P (on_error m d) Q E"
  unfolding triple_def on_error_def by (fastforce split: prod.splits sum.splits stop.splits)

text \<open>Reading the world (the clock, the caller's identity) before going on.\<close>

lemma triple_read: "(\<And>x. triple (\<lambda>w. P w \<and> f w = x) (m x) Q E) \<Longrightarrow> triple P (\<lambda>w. m (f w) w) Q E"
  unfolding triple_def by auto

lemma triple_if_world:
  "triple (\<lambda>w. P w \<and> c w) m Q E \<Longrightarrow> triple (\<lambda>w. P w \<and> \<not> c w) n Q E \<Longrightarrow>
    triple P (\<lambda>w. if c w then m w else n w) Q E"
  unfolding triple_def by auto

lemma triple_case_io:
  assumes "triple P m Q' E'"
    and "\<And>x. triple (Q' x) (k x) Q E" and "\<And>e. triple E' (h e) Q E" and "\<And>w. E' w \<Longrightarrow> E w"
  shows "triple P (\<lambda>w. case m w of
      (Inl Pending, w') \<Rightarrow> (Inl Pending, w') | (Inl (Err e), w') \<Rightarrow> h e w'
    | (Inr x, w') \<Rightarrow> k x w') Q E"
proof (rule tripleI)
  fix w x w'
  assume "P w" and "(case m w of (Inl Pending, w') \<Rightarrow> (Inl Pending, w') | (Inl (Err e), w') \<Rightarrow> h e w'
    | (Inr x, w') \<Rightarrow> k x w') = (Inr x, w')"
  then show "Q x w'"
    using triple_Inr [OF assms(1)] triple_Inl [OF assms(1)] triple_Inr [OF assms(2)] triple_Inr [OF assms(3)]
    by (cases "m w") (auto split: sum.splits stop.splits, blast+)
next
  fix w e w'
  assume "P w" and "(case m w of (Inl Pending, w') \<Rightarrow> (Inl Pending, w') | (Inl (Err e), w') \<Rightarrow> h e w'
    | (Inr x, w') \<Rightarrow> k x w') = (Inl e, w')"
  then show "E w'"
    using triple_Inr [OF assms(1)] triple_Inl [OF assms(1)] triple_Inl [OF assms(2)] triple_Inl [OF assms(3)]
      assms(4)
    by (cases "m w") (auto split: sum.splits stop.splits, blast+)
qed

end
