(* ===== verification/Steady.thy ===== *)
theory Steady
  imports Prune
begin

text \<open>
  \<open>steady P m\<close>: the call keeps the predicate \<open>P\<close> on worlds, however it ends. The rules take
  the functions of the cache apart, down to system calls, so that a predicate every system
  call keeps is one every operation keeps (theory \<open>Frame\<close> states that as a locale).
\<close>

definition steady :: "('w \<Rightarrow> bool) \<Rightarrow> ('w, 'e, 'a) io \<Rightarrow> bool" where
  "steady P m \<longleftrightarrow> (\<forall>w. P w \<longrightarrow> P (snd (m w)))"

named_theorems steady_intros \<open>calls that keep an invariant when their parts do\<close>

lemma steadyD: "steady P m \<Longrightarrow> P w \<Longrightarrow> m w = (r, w') \<Longrightarrow> P w'"
  by (metis steady_def snd_conv)

lemma steadyI: "(\<And>w r w'. P w \<Longrightarrow> m w = (r, w') \<Longrightarrow> P w') \<Longrightarrow> steady P m"
  by (metis steady_def prod.collapse)

lemma steady_ok [steady_intros]: "steady P (ok x)"
  by (simp add: steady_def)

lemma steady_fail [steady_intros]: "steady P (fail e)"
  by (simp add: steady_def)

lemma steady_andThen [steady_intros]:
  assumes m: "steady P m" and k: "\<And>x. steady P (k x)"
  shows "steady P (andThen m k)"
  by (rule steadyI)
    (auto simp: andThen_def split: prod.splits sum.splits dest: steadyD [OF m] steadyD [OF k])

lemma steady_map_err [steady_intros]: "steady P m \<Longrightarrow> steady P (map_err f m)"
  by (rule steadyI) (auto simp: map_err_def split: prod.splits sum.splits stop.splits dest: steadyD)

lemma steady_io [steady_intros]: "steady P m \<Longrightarrow> steady P (io m)"
  unfolding io_def by (rule steady_map_err)

lemma steady_ignore [steady_intros]: "steady P m \<Longrightarrow> steady P (ignore m)"
  by (rule steadyI) (auto simp: ignore_def split: prod.splits sum.splits stop.splits dest: steadyD)

lemma steady_scoped [steady_intros]:
  assumes m: "steady P m" and d: "\<And>w. P w \<Longrightarrow> P (d w)"
  shows "steady P (scoped m d)"
  by (rule steadyI)
    (auto simp: scoped_def split: prod.splits sum.splits stop.splits dest: steadyD [OF m] intro: d)

lemma steady_on_error [steady_intros]:
  assumes m: "steady P m" and d: "\<And>w. P w \<Longrightarrow> P (d w)"
  shows "steady P (on_error m d)"
  by (rule steadyI)
    (auto simp: on_error_def split: prod.splits sum.splits stop.splits dest: steadyD [OF m] intro: d)

lemma steady_if [steady_intros]: "(c \<Longrightarrow> steady P m) \<Longrightarrow> (\<not> c \<Longrightarrow> steady P n) \<Longrightarrow>
    steady P (if c then m else n)"
  by simp

lemma steady_if_world [steady_intros]:
  "steady P m \<Longrightarrow> steady P n \<Longrightarrow> steady P (\<lambda>w. if c w then m w else n w)"
  by (simp add: steady_def)

lemma steady_read: "(\<And>x. steady P (m x)) \<Longrightarrow> steady P (\<lambda>w. m (f w) w)"
  by (simp add: steady_def)

lemma steady_after_drop: "steady P m \<Longrightarrow> (\<And>w. P w \<Longrightarrow> P (d w)) \<Longrightarrow> steady P (\<lambda>w. m (d w))"
  by (simp add: steady_def)

lemma steady_option [steady_intros]:
  "steady P m \<Longrightarrow> (\<And>x. steady P (k x)) \<Longrightarrow> steady P (case z of None \<Rightarrow> m | Some x \<Rightarrow> k x)"
  by (simp split: option.split)

section \<open>What a call returns\<close>

text \<open>
  \<open>yields P R m\<close>: the call keeps \<open>P\<close>, and a value it returns has the property \<open>R\<close>, as the
  handle of a file this process opened.
\<close>

definition yields :: "('w \<Rightarrow> bool) \<Rightarrow> ('a \<Rightarrow> bool) \<Rightarrow> ('w, 'e, 'a) io \<Rightarrow> bool" where
  "yields P R m \<longleftrightarrow> steady P m \<and> (\<forall>w x w'. P w \<longrightarrow> m w = (Inr x, w') \<longrightarrow> R x)"

lemma yieldsI: "(\<And>w r w'. P w \<Longrightarrow> m w = (r, w') \<Longrightarrow> P w' \<and> (\<forall>x. r = Inr x \<longrightarrow> R x)) \<Longrightarrow> yields P R m"
  unfolding yields_def by (blast intro: steadyI)

lemma yields_steady: "yields P R m \<Longrightarrow> steady P m"
  by (simp add: yields_def)

lemma yieldsD: "yields P R m \<Longrightarrow> P w \<Longrightarrow> m w = (Inr x, w') \<Longrightarrow> R x"
  by (simp add: yields_def)

lemma yields_of_steady:
  "steady P m \<Longrightarrow> (\<And>w x w'. m w = (Inr x, w') \<Longrightarrow> R x) \<Longrightarrow> yields P R m"
  by (auto simp: yields_def)

lemma yields_weaken: "yields P R m \<Longrightarrow> (\<And>x. R x \<Longrightarrow> Q x) \<Longrightarrow> yields P Q m"
  by (auto simp: yields_def)

lemma yields_ok: "R x \<Longrightarrow> yields P R (ok x)"
  by (simp add: yields_def steady_ok)

lemma yields_fail: "yields P R (fail e)"
  by (simp add: yields_def steady_fail)

lemma yields_map_err: "yields P R m \<Longrightarrow> yields P R (map_err f m)"
  by (auto simp: yields_def map_err_eq_Inr_iff intro: steady_map_err)

lemma yields_io: "yields P R m \<Longrightarrow> yields P R (io m)"
  unfolding io_def by (rule yields_map_err)

lemma yields_andThen:
  assumes m: "yields P R m" and k: "\<And>x. R x \<Longrightarrow> yields P Q (k x)"
  shows "yields P Q (andThen m k)"
proof (rule yieldsI)
  fix w r w'
  assume w: "P w" and e: "andThen m k w = (r, w')"
  obtain x w1 where x: "m w = (x, w1)" by (cases "m w")
  with m w have w1: "P w1" by (blast dest: steadyD yields_steady)
  show "P w' \<and> (\<forall>x. r = Inr x \<longrightarrow> Q x)"
  proof (cases x)
    case (Inl err)
    with e x w1 show ?thesis by auto
  next
    case (Inr y)
    with e x have r: "k y w1 = (r, w')" by simp
    from yieldsD [OF m w] x Inr have "yields P Q (k y)" by (blast intro: k)
    with w1 r show ?thesis by (auto dest: yieldsD steadyD [OF yields_steady])
  qed
qed

lemma steady_andThen_where:
  assumes "yields P R m" and "\<And>x. R x \<Longrightarrow> steady P (k x)"
  shows "steady P (andThen m k)"
  using yields_andThen [where Q = "\<lambda>_. True", OF assms(1)] assms(2) by (auto simp: yields_def)

lemma yields_on_error:
  assumes m: "yields P R m" and d: "\<And>w. P w \<Longrightarrow> P (d w)"
  shows "yields P R (on_error m d)"
  unfolding yields_def
proof (intro conjI allI impI)
  show "steady P (on_error m d)" by (intro steady_on_error yields_steady [OF m] d)
  show "R x" if "P w" "on_error m d w = (Inr x, w')" for w x w'
    using that yieldsD [OF m that(1)] by (auto simp: on_error_def split: prod.splits sum.splits stop.splits)
qed

lemma yields_scoped:
  assumes m: "yields P R m" and d: "\<And>w. P w \<Longrightarrow> P (d w)"
  shows "yields P R (scoped m d)"
  unfolding yields_def
proof (intro conjI allI impI)
  show "steady P (scoped m d)" by (intro steady_scoped yields_steady [OF m] d)
  show "R x" if "P w" "scoped m d w = (Inr x, w')" for w x w'
    using that yieldsD [OF m that(1)] by (auto simp: scoped_def split: prod.splits sum.splits stop.splits)
qed

text \<open>A \<open>match\<close> on a result, waiting apart.\<close>

lemma steady_match:
  assumes "steady P m" and "\<And>x. steady P (k x)" and "\<And>e. steady P (h e)"
  shows "steady P (\<lambda>w. case m w of
      (Inl Pending, w') \<Rightarrow> (Inl Pending, w') | (Inl (Err e), w') \<Rightarrow> h e w'
    | (Inr x, w') \<Rightarrow> k x w')"
  by (rule steadyI)
    (auto split: prod.splits sum.splits stop.splits
      dest: steadyD [OF assms(1)] steadyD [OF assms(2)] steadyD [OF assms(3)])

lemma steady_match_where:
  assumes m: "yields P R m" and k: "\<And>x. R x \<Longrightarrow> steady P (k x)" and h: "\<And>e. steady P (h e)"
  shows "steady P (\<lambda>w. case m w of
      (Inl Pending, w') \<Rightarrow> (Inl Pending, w') | (Inl (Err e), w') \<Rightarrow> h e w'
    | (Inr x, w') \<Rightarrow> k x w')"
proof (rule steadyI)
  fix w r w'
  assume w: "P w" and e: "(case m w of
      (Inl Pending, w') \<Rightarrow> (Inl Pending, w') | (Inl (Err e), w') \<Rightarrow> h e w'
    | (Inr x, w') \<Rightarrow> k x w') = (r, w')"
  obtain x w1 where x: "m w = (x, w1)" by (cases "m w")
  with m w have "P w1" by (blast dest: steadyD yields_steady)
  with e x yieldsD [OF m w] show "P w'"
    by (auto split: sum.splits stop.splits dest: steadyD [OF k] steadyD [OF h])
qed

section \<open>Private files and directories\<close>

lemma steady_set_mode: "steady P (set_permissions p m) \<Longrightarrow> steady P (set_mode p m)"
  unfolding set_mode_def by (rule steady_io)

lemma steady_validate_root:
  assumes "steady P (symlink_metadata p)" and "steady P (set_permissions p mode_dir)"
  shows "steady P (validate_root p)"
  unfolding validate_root_def
  by (intro steady_match steady_if_world steady_fail steady_set_mode assms)

lemma steady_ensure_root:
  assumes "steady P (symlink_metadata p)" and "steady P (set_permissions p mode_dir)"
    and "steady P (create_dir_all p)"
  shows "steady P (ensure_root p)"
proof -
  note v = steady_validate_root [OF assms(1,2)]
  show ?thesis
    unfolding ensure_root_def
    by (intro steady_match steady_if_world steady_intros v assms)
qed

lemma steady_ensure_dir:
  assumes s: "steady P (symlink_metadata p)" and c: "steady P (set_permissions p mode_dir)"
    and d: "steady P (create_dir p)"
  shows "steady P (ensure_dir p)"
proof -
  note m = steady_set_mode [OF c]
  have "P w \<Longrightarrow> ensure_dir p w = (r, w') \<Longrightarrow> P w'" for w r w'
    using s m d
  proof (induction p w arbitrary: r w' rule: ensure_dir.induct)
    case (1 p w)
    obtain a w1 where a: "symlink_metadata p w = (a, w1)" by (cases "symlink_metadata p w")
    with 1 have w1: "P w1" by (blast dest: steadyD)
    obtain b w2 where b: "create_dir p w1 = (b, w2)" by (cases "create_dir p w1")
    with 1 w1 have w2: "P w2" by (blast dest: steadyD)
    obtain r1 v1 where m1: "set_mode p mode_dir w1 = (r1, v1)" by (cases "set_mode p mode_dir w1")
    with 1 w1 have v1: "P v1" by (blast dest: steadyD)
    obtain r2 v2 where m2: "set_mode p mode_dir w2 = (r2, v2)" by (cases "set_mode p mode_dir w2")
    with 1 w2 have v2: "P v2" by (blast dest: steadyD)
    show ?case
    proof (cases "a = Inl (Err NotFound) \<and> b = Inl (Err AlreadyExists)")
      case True
      with a b 1(3) have "ensure_dir p w2 = (r, w')" by (simp add: ensure_dir.simps [of p w])
      with 1(1) [OF a [symmetric, unfolded True [THEN conjunct1]] _ _ refl
          b [symmetric, unfolded True [THEN conjunct2]] refl refl] w2 1(4-6)
      show ?thesis by auto
    next
      case False
      with a b m1 m2 w1 w2 v1 v2 1(3) show ?thesis
        by (subst (asm) ensure_dir.simps) (auto split: sum.splits stop.splits if_splits)
    qed
  qed
  then show ?thesis by (rule steadyI)
qed

lemma steady_secure_lock:
  "steady P (file_metadata f) \<Longrightarrow> steady P (fchmod f mode_file) \<Longrightarrow> steady P (secure_lock f)"
  unfolding secure_lock_def by (intro steady_intros)

lemma yields_secure_lock:
  "steady P (file_metadata f) \<Longrightarrow> steady P (fchmod f mode_file) \<Longrightarrow> yields P (\<lambda>g. g = f) (secure_lock f)"
  by (rule yields_of_steady [OF steady_secure_lock])
    (auto simp: secure_lock_def andThen_eq_Inr_iff split: if_splits)

lemma yields_open_lock:
  assumes o: "yields P R (open_with lock_flags mode_file p)" and m: "steady P (symlink_metadata p)"
    and s: "\<And>f. yields P (\<lambda>g. g = f) (secure_lock f)" and d: "\<And>f w. R f \<Longrightarrow> P w \<Longrightarrow> P (drop_file f w)"
  shows "yields P R (open_lock p)"
  unfolding yields_def
proof (intro conjI allI impI)
  show "steady P (open_lock p)"
    unfolding open_lock_def
    by (intro steady_match_where [OF o] steady_match steady_fail steady_on_error yields_steady [OF s] d m)
  fix w f w'
  assume w: "P w" and e: "open_lock p w = (Inr f, w')"
  obtain a w1 where a: "open_with lock_flags mode_file p w = (a, w1)" by (cases "open_with lock_flags mode_file p w")
  with o w have w1: "P w1" by (blast dest: steadyD yields_steady)
  from e a obtain g where g: "a = Inr g" "on_error (secure_lock g) (drop_file g) w1 = (Inr f, w')"
    by (auto simp: open_lock_def fail_def split: sum.splits stop.splits prod.splits)
  with s [of g] w1 have "f = g"
    by (auto simp: on_error_def split: prod.splits sum.splits stop.splits dest: yieldsD)
  with a g(1) w o show "R f" by (blast dest: yieldsD)
qed

lemma steady_names:
  assumes "steady P (symlink_metadata p)" and "steady P (file_metadata f)"
  shows "steady P (names p f)"
proof -
  have "steady P (\<lambda>w. case symlink_metadata p w of
     (Inl Pending, w1) \<Rightarrow> (Inl Pending, w1)
   | (Inr named, w1) \<Rightarrow> (Inr (m_ino named = m_ino held), w1)
   | (Inl (Err e), w1) \<Rightarrow>
       if e = NotFound then (Inr False, w1) else fail (error_io e) w1)" for held
    unfolding ok_def [symmetric] by (intro steady_match steady_if_world steady_fail steady_ok assms)
  then show ?thesis unfolding names_def by (intro steady_intros assms)
qed

lemma steady_take_lock: "steady P (file_lock f m) \<Longrightarrow> steady P (take_lock f m)"
  unfolding take_lock_def by (rule steady_map_err)

text \<open>\<open>T\<close> says whether the lock can be granted at all.\<close>

lemma yields_lock_exclusive:
  assumes o: "yields P R (open_lock p)" and t: "\<And>f. R f \<Longrightarrow> yields P (\<lambda>_. T) (take_lock f Exclusive)"
    and n: "\<And>f. steady P (names p f)" and d: "\<And>f w. R f \<Longrightarrow> P w \<Longrightarrow> P (drop_file f w)"
  shows "yields P (\<lambda>h. h_path h = p \<and> R (h_file h) \<and> T) (lock_exclusive p)"
proof -
  have "P w \<Longrightarrow> lock_exclusive p w = (r, w') \<Longrightarrow>
      P w' \<and> (\<forall>h. r = Inr h \<longrightarrow> h_path h = p \<and> R (h_file h) \<and> T)" for w r w'
    using o n
  proof (induction p w arbitrary: r w' rule: lock_exclusive.induct)
    case (1 p w)
    obtain a w1 where a: "open_lock p w = (a, w1)" by (cases "open_lock p w")
    with 1 have w1: "P w1" by (blast dest: steadyD [OF yields_steady])
    show ?case
    proof (cases a)
      case (Inl e)
      with a w1 1(3) show ?thesis by (subst (asm) lock_exclusive.simps) auto
    next
      case a': (Inr f)
      with a 1(2,4) have f: "R f" by (blast dest: yieldsD)
      obtain b w2 where b: "take_lock f Exclusive w1 = (b, w2)" by (cases "take_lock f Exclusive w1")
      with w1 have w2: "P w2" by (blast dest: steadyD [OF yields_steady [OF t [OF f]]])
      have T: "T" if "b = Inr u" for u using yieldsD [OF t [OF f] w1] b that by blast
      obtain c w3 where c: "names p f w2 = (c, w3)" by (cases "names p f w2")
      with w2 1(5) have w3: "P w3" by (blast dest: steadyD)
      note dropped = d [OF f w2] d [OF f w3]
      show ?thesis
      proof (cases "(\<exists>u. b = Inr u) \<and> c = Inr False")
        case True
        with a a' b c 1(3) have "lock_exclusive p (drop_file f w3) = (r, w')"
          by (subst (asm) lock_exclusive.simps) auto
        moreover from True obtain u where "b = Inr u" and "c = Inr False" by blast
        ultimately show ?thesis
          using 1(1) [OF a [symmetric] a' b [symmetric] _ c [symmetric]] dropped 1(4,5) by auto
      next
        case False
        with a a' b c w1 w2 w3 dropped f T 1(3) show ?thesis
          by (subst (asm) lock_exclusive.simps) (auto split: sum.splits stop.splits if_splits)
      qed
    qed
  qed
  then show ?thesis by (intro yieldsI) blast
qed

section \<open>What results are\<close>

lemma read_dir_shape:
  assumes "io (read_dir d) w = (Inr items, w')"
  shows "\<forall>q \<in> set items. \<exists>n. q = d @ [n]"
proof -
  from assms have "read_dir d w = (Inr items, w')" by (simp add: io_def map_err_eq_Inr_iff)
  then show ?thesis
    by (auto simp: read_dir_def sys_def read_dir_os_def
        split: list.splits prod.splits option.splits sum.splits if_splits)
qed

end
