(* ===== verification/Writing.thy ===== *)
theory Writing
  imports Prune_Calm Triples Steady
begin

text \<open>
  Writing an entry. In a cache nobody interferes with, \<open>write_atomic\<close> puts a new file with
  exactly the given bytes at the entry's name. When calls fail or the process dies, the name
  still leads to what it led to before or to the complete new file: \<open>failures_only\<close> worlds
  let any system call fail with any error, the clean-up calls included, so a script whose
  moves all fail from the \<open>n\<close>-th on is a process that dies before its \<open>n\<close>-th call.
\<close>

section \<open>The file system after a write\<close>

definition fresh_entry :: "u32 \<Rightarrow> u32 \<Rightarrow> u8 list \<Rightarrow> u64 \<Rightarrow> inode" where
  "fresh_entry u perm bytes now =
     \<lparr>kind = Regular, uid = u, mode = perm, mtime = at now, data = bytes\<rparr>"

definition write_perm :: "world \<Rightarrow> u32" where
  "write_perm w = 384 AND NOT (umask w)"

definition wrote :: "path \<Rightarrow> inode \<Rightarrow> os \<Rightarrow> os \<Rightarrow> bool" where
  "wrote p m s s' \<longleftrightarrow> (\<exists>i. next_ino s \<le> i \<and> i < next_ino s' \<and> inodes s' i = m
     \<and> (\<forall>q. ino_at s' q = (if q = p then Some i else ino_at s q)))
     \<and> (\<forall>k < next_ino s. inodes s' k = inodes s k)
     \<and> next_ino s \<le> next_ino s' \<and> next_fd s \<le> next_fd s' \<and> locks s' = locks s
     \<and> clock s' = clock s \<and> ktime s' = ktime s \<and> wf_os s'"

lemma ino_at_rename:
  assumes "ino_at s p = Some i" and "p \<noteq> q"
  shows "ino_at (s\<lparr>dirents := filter (\<lambda>(r, j). r \<noteq> p \<and> r \<noteq> q) (dirents s) @ [(q, i)]\<rparr>) r
    = (if r = q then Some i else if r = p then None else ino_at s r)"
  using map_of_filter_key [of "\<lambda>r. r \<noteq> p \<and> r \<noteq> q" "dirents s" r]
  by (auto simp: ino_at_def map_add_def split: option.splits)

lemma wf_rename:
  assumes wf: "wf_os s" and p: "ino_at s p = Some i" and "p \<noteq> q"
  shows "wf_os (s\<lparr>dirents := filter (\<lambda>(r, j). r \<noteq> p \<and> r \<noteq> q) (dirents s) @ [(q, i)]\<rparr>)"
proof -
  have "i \<notin> snd ` set (filter (\<lambda>(r, j). r \<noteq> p \<and> r \<noteq> q) (dirents s))"
    using wf_ino_inj [OF wf _ p] in_dirents_ino_at [OF wf] by auto
  with wf wf_ino_less [OF wf p] show ?thesis
    by (auto simp: wf_os_def distinct_map_filter distinct_map_fst_filter)
qed

lemma wf_add_node:
  assumes "wf_os s" and "ino_at s p = None"
  shows "wf_os (add_node p m s)"
proof -
  have "p \<notin> fst ` set (dirents s)" using assms(2) by (metis ino_at_def map_of_eq_None_iff)
  moreover have "next_ino s \<notin> snd ` set (dirents s)" using assms(1) by (auto simp: wf_os_def)
  ultimately show ?thesis using assms(1) by (fastforce simp: wf_os_def)
qed

lemma wf_set_node: "wf_os (set_node i m s) = wf_os s"
  by (simp add: wf_os_def)

lemma wf_drop: "wf_os s \<Longrightarrow> wf_os (s\<lparr>locks := filter P (locks s)\<rparr>)"
  by (auto simp: wf_os_def)

definition temp_path :: "inner \<Rightarrow> str \<Rightarrow> str \<Rightarrow> path" where
  "temp_path inner d rnd = entries_dir inner @ [temporary_name d rnd]"

lemma temp_not_entry [simp]: "temp_path inner d rnd \<noteq> entry_path inner e"
  "entry_path inner e \<noteq> temp_path inner d rnd"
proof -
  have "temporary_name d rnd \<noteq> entry_name e"
  proof
    assume "temporary_name d rnd = entry_name e"
    then have "last (temporary_name d rnd) = last (entry_name e)" by (rule arg_cong)
    then show False by (simp add: temporary_name_def entry_name_def temporary_suffix_def)
  qed
  then show "temp_path inner d rnd \<noteq> entry_path inner e" "entry_path inner e \<noteq> temp_path inner d rnd"
    by (auto simp: temp_path_def entry_path_def)
qed

lemma create_new_calm:
  assumes "calm w" and "ino_at (fs w) p = None" and "private_dir w (butlast p)"
  shows "create_new p w = (Inr \<lparr>fd = next_fd (fs w), f_ino = next_ino (fs w)\<rparr>,
    w\<lparr>fs := (add_node p (new_node Regular (euid w) (write_perm w) (fs w)) (fs w))
       \<lparr>next_fd := Suc (next_fd (fs w))\<rparr>\<rparr>)"
proof -
  from assms have "parent_error (fs w) p = None"
    by (auto simp: parent_error_def private_dir_def node_at_def)
  with assms show ?thesis
    by (simp add: create_new_def sys_calm create_new_os_def write_perm_def)
qed

lemma rename_calm:
  assumes "calm w" and "ino_at (fs w) p = Some i" and "private_dir w (butlast q)"
    and "map_option kind (node_at (fs w) q) \<noteq> Some Directory"
  shows "rename p q w = (Inr (), w\<lparr>fs := (fs w)\<lparr>dirents :=
     filter (\<lambda>(r, j). r \<noteq> p \<and> r \<noteq> q) (dirents (fs w)) @ [(q, i)]\<rparr>\<rparr>)"
proof -
  from assms have "parent_error (fs w) q = None"
    by (auto simp: parent_error_def private_dir_def node_at_def)
  with assms show ?thesis by (simp add: rename_def sys_calm rename_os_def)
qed

lemma private_same:
  assumes "wf_os (fs w)" and "ino_at s p = ino_at (fs w) p"
    and "\<forall>k < next_ino (fs w). inodes s k = inodes (fs w) k"
  shows "private_dir (w\<lparr>fs := s\<rparr>) p = private_dir w p"
    "private_file (w\<lparr>fs := s\<rparr>) p = private_file w p"
  using assms wf_ino_less [OF assms(1), of p] by (auto simp: private_dir_def private_file_def)

lemma write_atomic_calm:
  assumes calm: "calm w" and wf: "wf_os (fs w)" and d: "private_dir w (entries_dir inner)"
    and tmp: "ino_at (fs w) (temp_path inner d rnd) = None"
    and target: "map_option kind (node_at (fs w) (entry_path inner d)) \<noteq> Some Directory"
  shows "\<exists>s. write_atomic rnd inner d bytes w = (Inr (), w\<lparr>fs := s\<rparr>)
    \<and> wrote (entry_path inner d) (fresh_entry (euid w) (write_perm w) bytes (now_ms w)) (fs w) s"
proof -
  let ?s0 = "fs w" and ?p = "temp_path inner d rnd" and ?q = "entry_path inner d"
  let ?i = "next_ino ?s0" and ?E = "entries_dir inner"
  let ?f = "\<lparr>fd = next_fd ?s0, f_ino = ?i\<rparr>"
  let ?m0 = "new_node Regular (euid w) (write_perm w) ?s0"
  let ?m1 = "?m0\<lparr>data := bytes, mtime := at (now_ms w)\<rparr>"
  let ?a = "(add_node ?p ?m0 ?s0)\<lparr>next_fd := Suc (next_fd ?s0)\<rparr>"
  let ?b = "set_node ?i ?m1 ?a"
  let ?c = "?b\<lparr>dirents := filter (\<lambda>(r, j). r \<noteq> ?p \<and> r \<noteq> ?q) (dirents ?b) @ [(?q, ?i)]\<rparr>"
  let ?c' = "?c\<lparr>locks := filter (\<lambda>(d, i, m). d \<noteq> fd ?f) (locks ?c)\<rparr>"
  have bl: "butlast ?p = ?E" by (simp add: temp_path_def)
  have cn: "create_new ?p w = (Inr ?f, w\<lparr>fs := ?a\<rparr>)"
    using create_new_calm [OF calm tmp] d bl by simp
  have ino_a: "ino_at ?a r = (if r = ?p then Some ?i else ino_at ?s0 r)" for r
    using tmp by (simp add: ino_at_add_node split: option.split)
  have db: "private_dir (w\<lparr>fs := ?b\<rparr>) ?E"
  proof -
    have "?E \<noteq> ?p" by (simp add: temp_path_def)
    then have "ino_at ?b ?E = ino_at ?s0 ?E" using ino_a [of ?E] by simp
    from private_same(1) [OF wf this] d show ?thesis by simp
  qed
  have tb: "map_option kind (node_at ?b ?q) \<noteq> Some Directory"
    using target wf_ino_less [OF wf, of ?q] ino_a [of ?q]
    by (cases "ino_at ?s0 ?q") (auto simp: node_at_def)
  have rn: "rename ?p ?q (w\<lparr>fs := ?b\<rparr>) = (Inr (), w\<lparr>fs := ?c\<rparr>)"
  proof -
    have c: "calm (w\<lparr>fs := ?b\<rparr>)" using calm by simp
    have i: "ino_at (fs (w\<lparr>fs := ?b\<rparr>)) ?p = Some ?i" using ino_a [of ?p] by simp
    have dq: "private_dir (w\<lparr>fs := ?b\<rparr>) (butlast ?q)" using db by simp
    have t: "map_option kind (node_at (fs (w\<lparr>fs := ?b\<rparr>)) ?q) \<noteq> Some Directory" using tb by simp
    from rename_calm [OF c i dq t] show ?thesis by simp
  qed
  have wr: "write_all ?f bytes (w\<lparr>fs := ?a\<rparr>) =
      (Inr (), w\<lparr>fs := set_node ?i (?m0\<lparr>data := bytes, mtime := ktime ?s0\<rparr>) ?a\<rparr>)"
    using calm by (simp add: calm_simps new_node_def)
  have md: "set_modified ?f (at (now_ms w)) (w\<lparr>fs := set_node ?i (?m0\<lparr>data := bytes, mtime := ktime ?s0\<rparr>) ?a\<rparr>) =
      (Inr (), w\<lparr>fs := ?b\<rparr>)"
    using calm by (simp add: calm_simps set_node_def new_node_def)
  have wa: "wf_os ?b"
    using wf_next_fd [OF wf_add_node [OF wf tmp]] by (simp add: wf_set_node)
  have ino_b: "ino_at ?b ?p = Some ?i" using ino_a [of ?p] by simp
  have wc: "wf_os ?c" using wf_rename [OF wa ino_b] by simp
  have wc': "wf_os ?c'" using wf_drop [OF wc] .
  have ino_c: "ino_at ?c r = (if r = ?q then Some ?i else ino_at ?s0 r)" for r
    using ino_at_rename [OF ino_b, of ?q r] tmp ino_a [of r] by auto
  have "private_dir (w\<lparr>fs := ?c'\<rparr>) ?E"
  proof -
    have "?E \<noteq> ?q" by (simp add: entry_path_def)
    then have "ino_at ?c' ?E = ino_at ?s0 ?E" using ino_c [of ?E] by simp
    from private_same(1) [OF wf this] d show ?thesis by simp
  qed
  with sync_dir_reduced [of "w\<lparr>fs := ?c'\<rparr>" ?E] calm wc' obtain s where
    sd: "sync_dir ?E (w\<lparr>fs := ?c'\<rparr>) = (Inr (), w\<lparr>fs := s\<rparr>)" and s: "reduced {} ?c' s" by auto
  have nw: "now_ms (w\<lparr>fs := set_node ?i (?m0\<lparr>data := bytes, mtime := ktime ?s0\<rparr>) ?a\<rparr>) = now_ms w"
    by (simp add: now_ms_def)
  let ?body = "andThen (io (write_all ?f bytes)) (\<lambda>_ w.
          andThen (io (set_modified ?f (at (now_ms w)))) (\<lambda>_.
          andThen (io (sync_all ?f)) (\<lambda>_. io (rename ?p ?q))) w)"
  have sy: "sync_all ?f (w\<lparr>fs := ?b\<rparr>) = (Inr (), w\<lparr>fs := ?b\<rparr>)"
    using calm by (simp add: calm_simps)
  note wr' = io_calm_Inr [of "write_all ?f bytes", OF wr]
    and md' = io_calm_Inr [of "set_modified ?f (at (now_ms w))", OF md]
    and sy' = io_calm_Inr [of "sync_all ?f", OF sy] and rn' = io_calm_Inr [of "rename ?p ?q", OF rn]
    and cn' = io_calm_Inr [of "create_new ?p", OF cn]
  have body: "?body (w\<lparr>fs := ?a\<rparr>) = (Inr (), w\<lparr>fs := ?c\<rparr>)"
    by (simp only: andThen_Inr [of "io (write_all ?f bytes)", OF wr'] nw
        andThen_Inr [of "io (set_modified ?f (at (now_ms w)))", OF md']
        andThen_Inr [of "io (sync_all ?f)", OF sy'] rn')
  have dr: "drop_file ?f (w\<lparr>fs := ?c\<rparr>) = w\<lparr>fs := ?c'\<rparr>" by (simp add: drop_file_def)
  have "write_atomic rnd inner d bytes w = (Inr (), w\<lparr>fs := s\<rparr>)"
    unfolding write_atomic_def Let_def temp_path_def [symmetric]
    by (simp only: andThen_Inr [of "ensure_dir ?E", OF ensure_dir_private [OF calm d]]
        andThen_Inr [of "io (create_new ?p)", OF cn']
        andThen_Inr [of "on_error ?body (drop_temp ?p ?f)", OF on_error_Inr [of ?body, OF body]] dr sd)
  moreover have "ino_at s r = (if r = ?q then Some ?i else ino_at ?s0 r)" for r
    using reduced_ino_at [OF s, of r] ino_c [of r] by (simp only: ino_at_simps empty_iff if_False)
  then have "wrote ?q (fresh_entry (euid w) (write_perm w) bytes (now_ms w)) ?s0 s"
    using s reduced_wf [OF s wc'] wf_locks_filter [OF wf, of "next_fd ?s0"]
    by (auto simp: wrote_def reduced_def fresh_entry_def new_node_def
        intro!: exI [of _ ?i])
  ultimately show ?thesis by blast
qed

section \<open>Failures\<close>

definition failures_only :: "world \<Rightarrow> bool" where
  "failures_only w \<longleftrightarrow> (\<forall>(g, e) \<in> set (script w). g = id)"

text \<open>A world in which only failures happen, and whose shared state is as \<open>S\<close> says.\<close>

definition failing :: "u32 \<Rightarrow> (os \<Rightarrow> bool) \<Rightarrow> world \<Rightarrow> bool" where
  "failing u S w \<longleftrightarrow> failures_only w \<and> euid w = u \<and> S (fs w)"

lemma triple_sys:
  assumes "\<And>s x s'. S s \<Longrightarrow> f s = (Inr x, s') \<Longrightarrow> Q x s'"
    and "\<And>s e s'. S s \<Longrightarrow> f s = (Inl e, s') \<Longrightarrow> S s'"
  shows "triple (failing u S) (sys f) (\<lambda>x. failing u (Q x)) (failing u S)"
  unfolding triple_def failing_def failures_only_def sys_def
  using assms by (fastforce split: list.splits prod.splits option.splits sum.splits)

lemma triple_sys_same:
  assumes "\<And>s. S s \<Longrightarrow> S (snd (f s))"
  shows "triple (failing u S) (sys f) (\<lambda>_. failing u S) (failing u S)"
  by (rule triple_sys) (metis assms snd_conv)+

lemma steady_failing:
  assumes "\<And>s. S s \<Longrightarrow> S (snd (f s))"
  shows "steady (failing u S) (sys f)"
  using assms unfolding steady_def failing_def failures_only_def sys_def
  by (auto split: list.splits prod.splits option.splits) (metis snd_conv)+

lemma steady_triple: "steady P m \<Longrightarrow> triple P m (\<lambda>_. P) P"
  by (intro tripleI) (auto dest: steadyD)

lemma failing_weaken: "failing u S w \<Longrightarrow> (\<And>s. S s \<Longrightarrow> S' s) \<Longrightarrow> failing u S' w"
  by (simp add: failing_def)

text \<open>The file at a path but for its permission bits.\<close>

definition content_at :: "os \<Rightarrow> path \<Rightarrow> (ftype \<times> u32 \<times> int \<times> u8 list) option" where
  "content_at s p = map_option (\<lambda>m. (kind m, uid m, mtime m, data m)) (node_at s p)"

lemma content_at_simps [simp]:
  "content_at (s\<lparr>locks := x\<rparr>) p = content_at s p"
  "content_at (s\<lparr>next_fd := n\<rparr>) p = content_at s p"
  by (simp_all add: content_at_def node_at_def)

lemma content_at_other:
  "wf_os s \<Longrightarrow> ino_at s p = Some i \<Longrightarrow> q \<noteq> p \<Longrightarrow> content_at (set_node i m s) q = content_at s q"
  using wf_ino_inj [of s p i q] by (cases "ino_at s q") (auto simp: content_at_def node_at_def)

lemma content_at_chmod:
  "content_at (set_node i ((inodes s i)\<lparr>mode := m\<rparr>) s) q = content_at s q"
  by (cases "ino_at s q") (auto simp: content_at_def node_at_def)

lemma content_at_add:
  "wf_os s \<Longrightarrow> q \<noteq> p \<Longrightarrow> content_at (add_node p m s) q = content_at s q"
  using wf_ino_less [of s q]
  by (cases "ino_at s q") (auto simp: content_at_def node_at_def ino_at_add_node)

lemma content_at_remove:
  "q \<noteq> p \<Longrightarrow> content_at (remove_name p s) q = content_at s q"
  by (simp add: content_at_def node_at_def)

text \<open>
  Before the rename the entry's name leads to what it led to (\<open>untouched\<close>), and the temporary
  file, once it exists, holds what was written so far (\<open>temp_holds\<close>).
\<close>

definition untouched :: "path \<Rightarrow> u64 \<Rightarrow> (ftype \<times> u32 \<times> int \<times> u8 list) option \<Rightarrow> os \<Rightarrow> bool" where
  "untouched q c old s \<longleftrightarrow> wf_os s \<and> clock s = c \<and> content_at s q = old"

definition temp_holds :: "path \<Rightarrow> handle \<Rightarrow> u32 \<Rightarrow> (int \<Rightarrow> bool) \<Rightarrow> u8 list \<Rightarrow> os \<Rightarrow> bool" where
  "temp_holds tmp f u t bytes s \<longleftrightarrow> ino_at s tmp = Some (f_ino f)
     \<and> kind (inodes s (f_ino f)) = Regular \<and> uid (inodes s (f_ino f)) = u
     \<and> t (mtime (inodes s (f_ino f))) \<and> data (inodes s (f_ino f)) = bytes"

definition replaced :: "path \<Rightarrow> u64 \<Rightarrow> u32 \<Rightarrow> u8 list \<Rightarrow> os \<Rightarrow> bool" where
  "replaced q c u bytes s \<longleftrightarrow> wf_os s \<and> clock s = c
     \<and> content_at s q = Some (Regular, u, at c, bytes)"

lemma wf_remove_name: "wf_os s \<Longrightarrow> wf_os (remove_name p s)"
  by (auto simp: wf_os_def remove_name_def distinct_map_filter distinct_map_fst_filter)

lemma wf_mkdir: "wf_os s \<Longrightarrow> wf_os (snd (mkdir_os u perm p s))"
  by (auto simp: mkdir_os_def wf_add_node split: option.split)

lemma untouched_ensure_dir:
  assumes "p \<noteq> q"
  shows "steady (failing u (untouched q c old)) (ensure_dir p)"
proof (rule steady_ensure_dir)
  show "steady (failing u (untouched q c old)) (symlink_metadata p)"
    unfolding symlink_metadata_def
    by (rule steady_failing) (auto simp: stat_os_def split: option.split)
  show "steady (failing u (untouched q c old)) (set_permissions p mode_dir)"
    unfolding set_permissions_def
    by (rule steady_failing)
      (auto simp: chmod_os_def untouched_def wf_set_node content_at_chmod split: option.split sum.split)
  have "steady (failing u (untouched q c old)) (sys (mkdir_os a b p))" for a b
    using assms
    by (intro steady_failing) (auto simp: mkdir_os_def untouched_def wf_add_node content_at_add
        split: option.split)
  from steady_read [of "failing u (untouched q c old)"
      "\<lambda>(x, m). sys (mkdir_os x (511 AND NOT m) p)" "\<lambda>w. (euid w, umask w)"] this
  show "steady (failing u (untouched q c old)) (create_dir p)"
    by (simp add: create_dir_def [abs_def] split_beta)
qed

lemma replaced_sync_dir:
  "steady (failing u (replaced q c v bytes)) (\<lambda>w. sync_dir p (drop_file f w))"
proof (rule steady_after_drop)
  have d: "failing u (replaced q c v bytes) (drop_file f w)"
    if "failing u (replaced q c v bytes) w" for f w
    using that by (auto simp: failing_def failures_only_def drop_file_def replaced_def wf_drop)
  then show "failing u (replaced q c v bytes) w \<Longrightarrow>
      failing u (replaced q c v bytes) (drop_file f w)" for w .
  have "steady (failing u (replaced q c v bytes)) (sys (open_os fl a b p))" if "\<not> o_create fl" for a b fl
    using that by (intro steady_failing)
      (auto simp: open_os_def Let_def replaced_def wf_next_fd split: option.split sum.split ftype.split)
  then have o: "steady (failing u (replaced q c v bytes)) (open_with fl a p)" if "\<not> o_create fl" for fl a
    using steady_read [of "failing u (replaced q c v bytes)"
      "\<lambda>(x, m). sys (open_os fl x (a AND NOT m) p)" "\<lambda>w. (euid w, umask w)"] that
    by (simp add: open_with_def [abs_def] split_beta)
  have "steady (failing u (replaced q c v bytes)) (sync_all d)" for d
    unfolding sync_all_def by (rule steady_failing) (simp add: sync_os_def)
  then show "steady (failing u (replaced q c v bytes)) (sync_dir p)"
    unfolding sync_dir_def file_open_def by (intro steady_intros o d) simp
qed

lemma write_steps:
  fixes q tmp u bytes old c
  defines "U \<equiv> untouched q c old" and "T \<equiv> temp_holds tmp"
  assumes "tmp \<noteq> q"
  shows "triple (failing u U) (create_new tmp)
      (\<lambda>f. failing u (\<lambda>s. U s \<and> T f u (\<lambda>_. True) [] s)) (failing u U)"
    "triple (failing u (\<lambda>s. U s \<and> T f u (\<lambda>_. True) [] s)) (write_all f bytes)
      (\<lambda>_. failing u (\<lambda>s. U s \<and> T f u (\<lambda>_. True) bytes s)) (failing u U)"
    "triple (failing u (\<lambda>s. U s \<and> T f u (\<lambda>_. True) bytes s)) (set_modified f (at c))
      (\<lambda>_. failing u (\<lambda>s. U s \<and> T f u (\<lambda>t. t = at c) bytes s)) (failing u U)"
    "triple (failing u (\<lambda>s. U s \<and> T f u (\<lambda>t. t = at c) bytes s)) (sync_all f)
      (\<lambda>_. failing u (\<lambda>s. U s \<and> T f u (\<lambda>t. t = at c) bytes s)) (failing u U)"
    "triple (failing u (\<lambda>s. U s \<and> T f u (\<lambda>t. t = at c) bytes s)) (rename tmp q)
      (\<lambda>_. failing u (replaced q c u bytes)) (failing u U)"
proof -
  have cn: "triple (\<lambda>w. failing u U w \<and> (euid w, umask w) = (a, m)) (sys (create_new_os a (384 AND NOT m) tmp))
      (\<lambda>f. failing u (\<lambda>s. U s \<and> T f u (\<lambda>_. True) [] s)) (failing u U)" for a m
  proof (cases "a = u")
    case True
    have "triple (failing u U) (sys (create_new_os u (384 AND NOT m) tmp))
      (\<lambda>f. failing u (\<lambda>s. U s \<and> T f u (\<lambda>_. True) [] s)) (failing u U)"
      using assms(3)
      by (intro triple_sys) (auto simp: create_new_os_def U_def T_def untouched_def temp_holds_def
          wf_next_fd wf_add_node content_at_add ino_at_add_node new_node_def split: option.splits)
    with True show ?thesis by (auto intro: triple_weaken)
  next
    case False
    then show ?thesis by (auto simp: triple_def failing_def)
  qed
  have "triple (failing u U) (\<lambda>w. sys (create_new_os (fst (euid w, umask w))
        (384 AND NOT (snd (euid w, umask w))) tmp) w)
      (\<lambda>f. failing u (\<lambda>s. U s \<and> T f u (\<lambda>_. True) [] s)) (failing u U)"
  proof (rule triple_read [where f = "\<lambda>w. (euid w, umask w)"
        and m = "\<lambda>x. sys (create_new_os (fst x) (384 AND NOT (snd x)) tmp)"])
    fix x
    show "triple (\<lambda>w. failing u U w \<and> (euid w, umask w) = x)
      (sys (create_new_os (fst x) (384 AND NOT (snd x)) tmp))
      (\<lambda>f. failing u (\<lambda>s. U s \<and> T f u (\<lambda>_. True) [] s)) (failing u U)"
      using cn [of "fst x" "snd x"] by simp
  qed
  then show "triple (failing u U) (create_new tmp)
      (\<lambda>f. failing u (\<lambda>s. U s \<and> T f u (\<lambda>_. True) [] s)) (failing u U)"
    by (simp add: create_new_def [abs_def])
  have to_U: "triple (failing u S) m Q (failing u U)"
    if "triple (failing u S) m Q (failing u S)" and "\<And>s. S s \<Longrightarrow> U s" for S and m :: "unit syscall" and Q
    using that(1) by (rule triple_weaken) (auto simp: failing_def that(2))
  show "triple (failing u (\<lambda>s. U s \<and> T f u (\<lambda>_. True) [] s)) (write_all f bytes)
      (\<lambda>_. failing u (\<lambda>s. U s \<and> T f u (\<lambda>_. True) bytes s)) (failing u U)"
    unfolding write_all_def 
    by (rule to_U, rule triple_sys) (insert assms(3), auto simp: write_os_def Let_def U_def T_def untouched_def temp_holds_def
        wf_set_node content_at_other)
  show "triple (failing u (\<lambda>s. U s \<and> T f u (\<lambda>_. True) bytes s)) (set_modified f (at c))
      (\<lambda>_. failing u (\<lambda>s. U s \<and> T f u (\<lambda>t. t = at c) bytes s)) (failing u U)"
    unfolding set_modified_def 
    by (rule to_U, rule triple_sys) (insert assms(3), auto simp: set_modified_os_def U_def T_def untouched_def temp_holds_def
        wf_set_node content_at_other)
  show "triple (failing u (\<lambda>s. U s \<and> T f u (\<lambda>t. t = at c) bytes s)) (sync_all f)
      (\<lambda>_. failing u (\<lambda>s. U s \<and> T f u (\<lambda>t. t = at c) bytes s)) (failing u U)"
    unfolding sync_all_def by (rule to_U, rule triple_sys) (auto simp: sync_os_def)
  show "triple (failing u (\<lambda>s. U s \<and> T f u (\<lambda>t. t = at c) bytes s)) (rename tmp q)
      (\<lambda>_. failing u (replaced q c u bytes)) (failing u U)"
    unfolding rename_def
  proof (rule to_U, rule triple_sys)
    fix s x s'
    assume s: "U s \<and> T f u (\<lambda>t. t = at c) bytes s" and e: "rename_os tmp q s = (Inr x, s')"
    then have t: "ino_at s tmp = Some (f_ino f)" by (simp add: T_def temp_holds_def)
    with e have s': "s' = s\<lparr>dirents := filter (\<lambda>(r, j). r \<noteq> tmp \<and> r \<noteq> q) (dirents s) @ [(q, f_ino f)]\<rparr>"
      by (auto simp: rename_os_def split: option.splits if_splits)
    from s have "wf_os s'" unfolding s' using wf_rename [OF _ t assms(3)] by (simp add: U_def untouched_def)
    moreover have "content_at s' q = Some (Regular, u, at c, bytes)"
      using s ino_at_rename [OF t assms(3), of q]
      by (simp add: s' content_at_def node_at_def T_def temp_holds_def)
    ultimately show "replaced q c u bytes s'"
      using s by (simp add: replaced_def s' U_def untouched_def)
  next
    fix s e s'
    assume "U s \<and> T f u (\<lambda>t. t = at c) bytes s" and "rename_os tmp q s = (Inl e, s')"
    then show "U s' \<and> T f u (\<lambda>t. t = at c) bytes s'"
      by (auto simp: rename_os_def split: option.splits if_splits)
  qed simp
qed

lemma write_atomic_failing:
  defines "all_or_nothing q c u old bytes \<equiv>
      failing u (\<lambda>s. untouched q c old s \<or> replaced q c u bytes s)"
  shows "triple (failing u (untouched (entry_path inner d) c old)) (write_atomic rnd inner d bytes)
    (\<lambda>_. failing u (replaced (entry_path inner d) c u bytes))
    (all_or_nothing (entry_path inner d) c u old bytes)"
proof -
  let ?q = "entry_path inner d" and ?tmp = "temp_path inner d rnd" and ?E = "entries_dir inner"
  let ?U = "untouched ?q c old" and ?A = "all_or_nothing ?q c u old bytes"
  have A: "failing u ?U w \<Longrightarrow> ?A w" "failing u (replaced ?q c u bytes) w \<Longrightarrow> ?A w" for w
    by (auto simp: all_or_nothing_def failing_def)
  note cr = write_steps(1) [where tmp = ?tmp and q = ?q and c = c and u = u and old = old, OF temp_not_entry(1)]
    and st = write_steps(2-) [where tmp = ?tmp and q = ?q and c = c and u = u and old = old and bytes = bytes, OF temp_not_entry(1)]
  have rm: "failing u ?U (drop_temp ?tmp f w)" if w: "failing u ?U w" for f w
  proof -
    have "steady (failing u ?U) (remove_file ?tmp)"
      unfolding remove_file_def
      by (rule steady_failing)
        (auto simp: unlink_os_def untouched_def content_at_remove wf_remove_name split: option.split)
    from steadyD [OF this w] have "failing u ?U (snd (remove_file ?tmp w))" by (metis prod.collapse)
    then show ?thesis
      by (simp add: drop_temp_def drop_file_def failing_def failures_only_def untouched_def wf_drop)
  qed
  have body: "triple (failing u (\<lambda>s. ?U s \<and> temp_holds ?tmp f u (\<lambda>_. True) [] s))
      (andThen (io (write_all f bytes)) (\<lambda>_ w.
          andThen (io (set_modified f (at (now_ms w)))) (\<lambda>_.
          andThen (io (sync_all f)) (\<lambda>_.
          io (rename ?tmp ?q))) w))
      (\<lambda>_. failing u (replaced ?q c u bytes)) (failing u ?U)" for f
  proof (rule triple_andThen [OF triple_io [OF st(1)]])
    fix x :: unit
    show "triple (failing u (\<lambda>s. ?U s \<and> temp_holds ?tmp f u (\<lambda>_. True) bytes s))
      (\<lambda>w. andThen (io (set_modified f (at (now_ms w)))) (\<lambda>_.
          andThen (io (sync_all f)) (\<lambda>_. io (rename ?tmp ?q))) w)
      (\<lambda>_. failing u (replaced ?q c u bytes)) (failing u ?U)"
    proof (rule triple_read [where f = now_ms and m = "\<lambda>n. andThen (io (set_modified f (at n)))
        (\<lambda>_. andThen (io (sync_all f)) (\<lambda>_. io (rename ?tmp ?q)))"])
      fix now
      have "triple (failing u (\<lambda>s. ?U s \<and> temp_holds ?tmp f u (\<lambda>_. True) bytes s))
        (andThen (io (set_modified f (at c))) (\<lambda>_.
          andThen (io (sync_all f)) (\<lambda>_. io (rename ?tmp ?q))))
        (\<lambda>_. failing u (replaced ?q c u bytes)) (failing u ?U)"
        by (rule triple_andThen [OF triple_io [OF st(2)] triple_andThen [OF triple_io [OF st(3)] triple_io [OF st(4)]]])
      then show "triple (\<lambda>w. failing u (\<lambda>s. ?U s \<and> temp_holds ?tmp f u (\<lambda>_. True) bytes s) w \<and> now_ms w = now)
        (andThen (io (set_modified f (at now))) (\<lambda>_.
          andThen (io (sync_all f)) (\<lambda>_. io (rename ?tmp ?q))))
        (\<lambda>_. failing u (replaced ?q c u bytes)) (failing u ?U)"
        by (cases "now = c")
          (auto simp: triple_def failing_def now_ms_def untouched_def intro: triple_weaken)
    qed
  qed
  have onerr: "triple (failing u (\<lambda>s. ?U s \<and> temp_holds ?tmp f u (\<lambda>_. True) [] s))
      (on_error (andThen (io (write_all f bytes)) (\<lambda>_ w.
          andThen (io (set_modified f (at (now_ms w)))) (\<lambda>_.
          andThen (io (sync_all f)) (\<lambda>_.
          io (rename ?tmp ?q))) w)) (drop_temp ?tmp f))
      (\<lambda>_. failing u (replaced ?q c u bytes)) ?A" for f
    by (rule triple_on_error [OF body]) (use rm A in blast)
  have "?E \<noteq> ?q" by (simp add: entry_path_def)
  have ens: "triple (failing u ?U) (ensure_dir ?E) (\<lambda>_. failing u ?U) ?A"
    by (rule triple_weaken [OF steady_triple [OF untouched_ensure_dir [OF \<open>?E \<noteq> ?q\<close>]]]) (use A in auto)
  have cre: "triple (failing u ?U) (io (create_new ?tmp))
      (\<lambda>f. failing u (\<lambda>s. ?U s \<and> temp_holds ?tmp f u (\<lambda>_. True) [] s)) ?A"
    by (rule triple_weaken [OF triple_io [OF cr]]) (use A in auto)
  have syn: "triple (failing u (replaced ?q c u bytes)) (\<lambda>w. sync_dir ?E (drop_file f w))
      (\<lambda>_. failing u (replaced ?q c u bytes)) ?A" for f
    by (rule triple_weaken [OF steady_triple [OF replaced_sync_dir]]) (use A in auto)
  show ?thesis
    unfolding write_atomic_def Let_def temp_path_def [symmetric]
    by (intro triple_andThen [OF ens] triple_andThen [OF cre] triple_andThen [OF onerr] syn)
qed

end
