(* ===== verification/Storing.thy ===== *)
theory Storing
  imports Writing
begin

text \<open>
  A whole store in a cache nobody interferes with: taking the key's lock, writing, dropping
  the lock, and the maintenance that follows.
\<close>

section \<open>Taking and dropping a key's lock\<close>

definition locked_key :: "inner \<Rightarrow> key \<Rightarrow> key_lock \<Rightarrow> os \<Rightarrow> os \<Rightarrow> bool" where
  "locked_key inner k kl s s' \<longleftrightarrow> kl_inner kl = inner \<and> kl_key kl = k
     \<and> fd (kl_maintenance kl) = next_fd s
     \<and> (\<exists>mi < next_ino s. ino_at s (maintenance_path inner) = Some mi \<and> f_ino (kl_maintenance kl) = mi
       \<and> took (lock_path inner (digest k)) (kl_held kl) (with_lock mi Shared s) s')"

lemma lock_exclusive_private:
  assumes calm: "calm w" and l: "lockable w p" and wf: "wf_os (fs w)" and free: "\<not> lock_busy (fs w) p"
    and h: "lock_exclusive p w = (Inr h, w')"
  shows "private_file w' p"
proof -
  have run: "private_file w' p"
    if o: "open_lock p w = (Inr f, w\<lparr>fs := s\<rparr>)" and i: "ino_at s p = Some (f_ino f)"
      and c: "\<not> conflict f Exclusive s" and pf: "private_file (w\<lparr>fs := s\<rparr>) p" for f s
  proof -
    have "names p f (w\<lparr>fs := grant f Exclusive s\<rparr>) = (Inr True, w\<lparr>fs := grant f Exclusive s\<rparr>)"
      using calm i by (intro names_calm) simp_all
    with calm o c h have "w' = w\<lparr>fs := grant f Exclusive s\<rparr>"
      by (subst (asm) lock_exclusive.simps) (simp add: calm_simps)
    with pf show ?thesis by (simp add: private_file_def) (simp add: grant_def)
  qed
  from open_lock_lockable [OF calm l wf] free obtain f s where
    o: "open_lock p w = (Inr f, w\<lparr>fs := s\<rparr>)" and i: "ino_at s p = Some (f_ino f)"
    and c: "\<not> conflict f Exclusive s" by metis
  have "private_file (w\<lparr>fs := s\<rparr>) p"
  proof (cases "ino_at (fs w) p")
    case None
    with l have "private_dir w (butlast p)" by (simp add: lockable_def private_file_def)
    from open_lock_new [OF calm None this] o have f: "f_ino f = next_ino (fs w)"
      and w: "w\<lparr>fs := s\<rparr> = w\<lparr>fs := (add_node p (lock_node w) (fs w))\<lparr>next_fd := Suc (next_fd (fs w))\<rparr>\<rparr>" by simp_all
    from arg_cong [OF w, of fs] have "inodes s (f_ino f) = lock_node w" by (simp add: f add_node_def)
    with i show ?thesis by (simp add: private_file_def lock_node_def)
  next
    case (Some k)
    with l have pf: "private_file w p" by (simp add: lockable_def)
    from open_lock_existing [OF calm pf] o pf show ?thesis by (auto simp: private_file_def)
  qed
  with run [OF o i c] show ?thesis .
qed

lemma cache_lock_calm:
  assumes r: "ready inner w" and m: "\<not> excl_locked (fs w) (maintenance_path inner)"
    and k: "\<not> key_busy inner (fs w) (digest k)"
  shows "\<exists>kl s. cache_lock inner k w = (Inr kl, w\<lparr>fs := s\<rparr>) \<and> locked_key inner k kl (fs w) s
    \<and> private_file (w\<lparr>fs := s\<rparr>) (lock_path inner (digest k))"
proof -
  let ?M = "maintenance_path inner" and ?s0 = "fs w" and ?p = "lock_path inner (digest k)"
  from r have calm: "calm w" and wf: "wf_os ?s0" and d: "private_dir w (root inner)"
    "private_dir w (locks_dir inner)"
    by (simp_all add: ready_def)
  obtain mi where mi: "ino_at ?s0 ?M = Some mi" "mi < next_ino ?s0"
    and om: "open_lock ?M w = (Inr \<lparr>fd = next_fd ?s0, f_ino = mi\<rparr>,
      w\<lparr>fs := ?s0\<lparr>next_fd := Suc (next_fd ?s0)\<rparr>\<rparr>)"
    using open_lock_ready [OF r, of ?M] by blast
  let ?m = "\<lparr>fd = next_fd ?s0, f_ino = mi\<rparr>" and ?s1 = "with_lock mi Shared ?s0"
  have c1: "\<not> conflict ?m Shared (?s0\<lparr>next_fd := Suc (next_fd ?s0)\<rparr>)"
    using m mi(1) conflict_shared [OF _ wf, of ?M mi] by simp
  have tk: "take_lock ?m Shared (w\<lparr>fs := ?s0\<lparr>next_fd := Suc (next_fd ?s0)\<rparr>\<rparr>) = (Inr (), w\<lparr>fs := ?s1\<rparr>)"
    using calm c1 by (simp add: calm_simps grant_with_lock)
  have r1: "ready inner (w\<lparr>fs := ?s1\<rparr>)" using with_lock_ready [OF r mi(2)] .
  have "relocked inner ?s0 ?s1" by (rule with_lock_relocked [OF wf mi(1)]) (simp add: fixed_paths_def)
  with k have k1: "\<not> key_busy inner ?s1 (digest k)" by (simp add: relocked_def)
  from lock_exclusive_free [OF _ ready_lockable [OF r1] _ , of "digest k"] calm r1 k1 obtain h s where
    h: "lock_exclusive ?p (w\<lparr>fs := ?s1\<rparr>) = (Inr h, w\<lparr>fs := s\<rparr>)" and t: "took ?p h ?s1 s"
    by (auto simp: ready_def)
  let ?kl = "\<lparr>kl_inner = inner, kl_key = k, kl_held = h, kl_maintenance = ?m\<rparr>"
  have "cache_lock inner k w = (Inr ?kl, w\<lparr>fs := s\<rparr>)"
    using calm d om tk h by (simp add: cache_lock_def calm_simps)
  moreover have "locked_key inner k ?kl ?s0 s"
    using t mi by (auto simp: locked_key_def)
  moreover have "private_file (w\<lparr>fs := s\<rparr>) ?p"
    using lock_exclusive_private [OF _ ready_lockable [OF r1] _ _ h] calm r1 k1 by (simp add: ready_def)
  ultimately show ?thesis by blast
qed

text \<open>The state after a store: the new entry, and no lock file for its key.\<close>

definition entered :: "path \<Rightarrow> path \<Rightarrow> inode \<Rightarrow> os \<Rightarrow> os \<Rightarrow> bool" where
  "entered p q m s s' \<longleftrightarrow> (\<exists>i. next_ino s \<le> i \<and> inodes s' i = m
     \<and> (\<forall>r. ino_at s' r = (if r = q then Some i else if r = p then None else ino_at s r)))
     \<and> (\<forall>k < next_ino s. inodes s' k = inodes s k)
     \<and> locks s' = locks s \<and> clock s' = clock s \<and> ktime s' = ktime s \<and> wf_os s'"

lemma drop_key_lock_calm:
  assumes calm: "calm w" and wf: "wf_os s0" and t: "locked_key inner k kl s0 s1"
    and wr: "wrote q m s1 s2" and q: "q \<noteq> lock_path inner (digest k)"
  shows "\<exists>s. drop_key_lock kl (w\<lparr>fs := s2\<rparr>) = w\<lparr>fs := s\<rparr>
    \<and> entered (lock_path inner (digest k)) q m s0 s"
proof -
  let ?p = "lock_path inner (digest k)" and ?h = "kl_held kl" and ?n = "next_fd s0"
  from t obtain mi where mi: "mi < next_ino s0" and tk: "took ?p ?h (with_lock mi Shared s0) s1"
    and kn: "fd (kl_maintenance kl) = ?n"
    by (auto simp: locked_key_def)
  from wr q have p2: "ino_at s2 ?p = ino_at s1 ?p" by (auto simp: wrote_def)
  with tk have i: "ino_at s2 ?p = Some (f_ino (h_file ?h))" by (simp add: took_def)
  from tk wr have "kind (inodes s2 (f_ino (h_file ?h))) = Regular" by (auto simp: took_def wrote_def)
  with calm i have rm: "remove_file ?p (w\<lparr>fs := s2\<rparr>) = (Inr (), w\<lparr>fs := remove_name ?p s2\<rparr>)"
    by (simp add: calm_simps node_at_def)
  let ?s = "(remove_name ?p s2)\<lparr>locks := filter (\<lambda>(d, i, m). d \<noteq> ?n)
     (filter (\<lambda>(d, i, m). d \<noteq> fd (h_file ?h)) (locks s2))\<rparr>"
  have "drop_key_lock kl (w\<lparr>fs := s2\<rparr>) = w\<lparr>fs := ?s\<rparr>"
    using tk kn by (simp add: drop_key_lock_def drop_held_def took_def rm drop_file_def)
  moreover have "entered ?p q m s0 ?s"
  proof -
    from tk wr have "locks s2 = (fd (h_file ?h), f_ino (h_file ?h), Exclusive) # (?n, mi, Shared) # locks s0"
      by (simp add: took_def wrote_def)
    moreover from tk have "fd (h_file ?h) = Suc ?n" by (simp add: took_def)
    ultimately have l: "locks ?s = locks s0"
      using wf_locks_filter [OF wf, of ?n] wf_locks_filter [OF wf, of "Suc ?n"] by simp
    from wr obtain i where i: "next_ino s1 \<le> i" "inodes s2 i = m"
      "\<And>r. ino_at s2 r = (if r = q then Some i else ino_at s1 r)"
      by (auto simp: wrote_def)
    from tk have n: "next_ino s0 \<le> next_ino s1" by (simp add: took_def)
    have "ino_at ?s r = (if r = q then Some i else if r = ?p then None else ino_at s0 r)" for r
      using tk q by (simp add: i(3) took_def)
    moreover have "wf_os ?s"
    proof -
      have "wf_os (remove_name ?p s2)" using wr by (intro wf_remove_name) (simp add: wrote_def)
      from wf_drop [OF wf_drop [OF this]] show ?thesis by simp
    qed
    ultimately show ?thesis
      using tk wr i n l
      by (auto simp: entered_def took_def wrote_def intro!: exI [of _ i])
  qed
  ultimately show ?thesis by blast
qed

lemma took_lock_ready:
  assumes r: "ready inner w" and t: "locked_key inner k kl (fs w) s"
  shows "calm (w\<lparr>fs := s\<rparr>)" "wf_os s" "private_dir (w\<lparr>fs := s\<rparr>) (entries_dir inner)"
    "q \<noteq> lock_path inner (digest k) \<Longrightarrow> ino_at s q = ino_at (fs w) q"
    "\<forall>i < next_ino (fs w). inodes s i = inodes (fs w) i"
    "clock s = clock (fs w)"
proof -
  from t obtain mi where mi: "mi < next_ino (fs w)"
    and tk: "took (lock_path inner (digest k)) (kl_held kl) (with_lock mi Shared (fs w)) s"
    by (auto simp: locked_key_def)
  from with_lock_ready [OF r mi] have r1: "ready inner (w\<lparr>fs := with_lock mi Shared (fs w)\<rparr>)" .
  from took_ready [OF r1, of "digest k" "kl_held kl" s] tk show "calm (w\<lparr>fs := s\<rparr>)" "wf_os s"
    "private_dir (w\<lparr>fs := s\<rparr>) (entries_dir inner)"
    by simp_all
  from tk show "q \<noteq> lock_path inner (digest k) \<Longrightarrow> ino_at s q = ino_at (fs w) q"
    "\<forall>i < next_ino (fs w). inodes s i = inodes (fs w) i" "clock s = clock (fs w)"
    by (simp_all add: took_def)
qed

lemma entered_ready:
  assumes r: "ready inner w" and e: "entered (lock_path inner d) (entry_path inner d) m (fs w) s"
  shows "ready inner (w\<lparr>fs := s\<rparr>)"
proof -
  from r have wf: "wf_os (fs w)" by (simp add: ready_def)
  from e have i: "\<forall>k < next_ino (fs w). inodes s k = inodes (fs w) k" by (simp add: entered_def)
  have q: "entry_path inner d \<notin> fixed_paths inner"
    by (rule entry_path_not_fixed [of inner d]) (simp add: under_def)
  have same: "ino_at s p = ino_at (fs w) p" if "p \<in> fixed_paths inner" for p
    using that e q lock_path_not_fixed [of inner d] by (auto simp: entered_def)
  have lk: "private_file (w\<lparr>fs := s\<rparr>) p"
    if "child_of (locks_dir inner) p" and "ino_at s p \<noteq> None" for p
  proof -
    from that(1) have "p \<noteq> entry_path inner d" by auto
    moreover from e obtain i where "\<And>r. ino_at s r = (if r = entry_path inner d then Some i
        else if r = lock_path inner d then None else ino_at (fs w) r)"
      by (auto simp: entered_def)
    ultimately have "ino_at s p = ino_at (fs w) p" using that(2) by (simp split: if_splits)
    with private_same(2) [OF wf this i] that r show ?thesis by (simp add: ready_def)
  qed
  have dir: "private_dir (w\<lparr>fs := s\<rparr>) p = private_dir w p"
    and fil: "private_file (w\<lparr>fs := s\<rparr>) p = private_file w p" if "p \<in> fixed_paths inner" for p
    using private_same [OF wf same [OF that] i] by simp_all
  from r e lk dir fil show ?thesis
    by (auto simp: ready_def entered_def fixed_paths_def)
qed

section \<open>The maintenance after a write\<close>

definition due :: "inner \<Rightarrow> os \<Rightarrow> bool" where
  "due inner s \<longleftrightarrow> over_cap (i_limits inner) (usage_in inner s)
     \<or> (case metadata_at s (prune_lock_path inner) of None \<Rightarrow> False
        | Some m \<Rightarrow> saturating_sub (clock s) (modified_ms m) > millis (sweep_every (i_limits inner)))"

definition maintenance_of :: "'v serde \<Rightarrow> inner \<Rightarrow> os \<Rightarrow> maintenance" where
  "maintenance_of j inner s =
     (if \<not> due inner s then NotNeeded
      else if blocked inner s then Deferred Lock
      else Pruned (prune_result j inner s))"

lemma maintain_calm:
  assumes r: "ready inner w"
  shows "\<exists>s. maintain j inner w = (Inr (maintenance_of j inner (fs w)), w\<lparr>fs := s\<rparr>)
    \<and> (\<not> due inner (fs w) \<longrightarrow> s = fs w)"
proof -
  let ?s = "fs w"
  from r have calm: "calm w" by (simp add: ready_def)
  note u = usage_of_calm [OF r]
  from r obtain i where i: "ino_at ?s (prune_lock_path inner) = Some i"
    by (auto simp: ready_def private_file_def)
  have sd: "sweep_due inner w = (Inr (saturating_sub (clock ?s)
      (modified_ms \<lparr>m_ino = i, m_node = inodes ?s i\<rparr>) > millis (sweep_every (i_limits inner))), w)"
    using calm i by (simp add: sweep_due_def calm_simps now_ms_def)
  have due: "due inner ?s \<longleftrightarrow> over_cap (i_limits inner) (usage_in inner ?s)
     \<or> saturating_sub (clock ?s) (modified_ms \<lparr>m_ino = i, m_node = inodes ?s i\<rparr>)
       > millis (sweep_every (i_limits inner))"
    by (simp add: due_def metadata_at_def i)
  obtain s where p: "prune j inner Skip w = (if blocked inner ?s then Inl (Err Lock)
      else Inr (prune_result j inner ?s), w\<lparr>fs := s\<rparr>)"
    using prune_calm_free [OF r, of j Skip] prune_calm_blocked(2) [OF r, of j]
    by (cases "blocked inner ?s") auto
  show ?thesis
  proof (cases "due inner ?s")
    case True
    with u sd p due show ?thesis
      by (auto simp: maintain_def Let_def over_cap_def maintenance_of_def)
  next
    case False
    with u sd due have "maintain j inner w = (Inr NotNeeded, w\<lparr>fs := ?s\<rparr>)"
      by (simp add: maintain_def Let_def over_cap_def)
    with False show ?thesis by (auto simp: maintenance_of_def)
  qed
qed

section \<open>Storing\<close>

lemma store_calm:
  assumes r: "ready inner w" and m: "\<not> excl_locked (fs w) (maintenance_path inner)"
    and k: "\<not> key_busy inner (fs w) (digest k)"
    and tmp: "ino_at (fs w) (temp_path inner (digest k) rnd) = None"
    and target: "map_option kind (node_at (fs w) (entry_path inner (digest k))) \<noteq> Some Directory"
    and v: "to_vec j (entry_to_write inner k pol (now_ms w) v) = Some bytes"
    and fits: "\<not> u64_or_max (length bytes) > max_entry_bytes (i_limits inner)"
  shows "\<exists>kl s1 s2 s3. cache_lock inner k w = (Inr kl, w\<lparr>fs := s1\<rparr>)
    \<and> entered (lock_path inner (digest k)) (entry_path inner (digest k))
        (fresh_entry (euid w) (write_perm w) bytes (now_ms w)) (fs w) s2
    \<and> store rnd j kl v pol (w\<lparr>fs := s1\<rparr>) = (Inr (Written (maintenance_of j inner s2)), w\<lparr>fs := s3\<rparr>)
    \<and> (\<not> due inner s2 \<longrightarrow> s3 = s2)
    \<and> maintain j inner (w\<lparr>fs := s2\<rparr>) = (Inr (maintenance_of j inner s2), w\<lparr>fs := s3\<rparr>)"
proof -
  let ?q = "entry_path inner (digest k)" and ?p = "lock_path inner (digest k)" and ?s0 = "fs w"
  from r have wf: "wf_os ?s0" and calm: "calm w" by (simp_all add: ready_def)
  from cache_lock_calm [OF r m k] obtain kl s1 where
    l: "cache_lock inner k w = (Inr kl, w\<lparr>fs := s1\<rparr>)" and lk: "locked_key inner k kl ?s0 s1" by blast
  note after = took_lock_ready [OF r lk]
  have "temp_path inner (digest k) rnd \<noteq> ?p" by (simp add: temp_path_def lock_path_def entries_dir_def locks_dir_def)
  with tmp after(4) have tmp1: "ino_at s1 (temp_path inner (digest k) rnd) = None" by simp
  have target1: "map_option kind (node_at s1 ?q) \<noteq> Some Directory"
    using target after(4) [of ?q] after(5) wf_ino_less [OF wf, of ?q]
    by (cases "ino_at ?s0 ?q") (auto simp: node_at_def)
  from write_atomic_calm [OF after(1) _ after(3) _ , of "digest k" rnd bytes] after(2) tmp1 target1 obtain s2 where
    wa: "write_atomic rnd inner (digest k) bytes (w\<lparr>fs := s1\<rparr>) = (Inr (), w\<lparr>fs := s2\<rparr>)"
    and wr: "wrote ?q (fresh_entry (euid w) (write_perm w) bytes (now_ms (w\<lparr>fs := s1\<rparr>))) s1 s2"
    by (auto simp: write_perm_def)
  have now1: "now_ms (w\<lparr>fs := s1\<rparr>) = now_ms w" using after(6) by (simp add: now_ms_def)
  have "?q \<noteq> ?p" by simp
  from drop_key_lock_calm [OF calm wf lk wr this] now1 obtain s where
    d: "drop_key_lock kl (w\<lparr>fs := s2\<rparr>) = w\<lparr>fs := s\<rparr>"
    and e: "entered ?p ?q (fresh_entry (euid w) (write_perm w) bytes (now_ms w)) ?s0 s"
    by auto
  have rs: "ready inner (w\<lparr>fs := s\<rparr>)" by (rule entered_ready [OF r e])
  from maintain_calm [OF rs, of j] obtain s3 where
    mt: "maintain j inner (w\<lparr>fs := s\<rparr>) = (Inr (maintenance_of j inner s), w\<lparr>fs := s3\<rparr>)"
    and s3: "\<not> due inner s \<longrightarrow> s3 = s" by auto
  from lk have kl: "kl_inner kl = inner" "kl_key kl = k" by (simp_all add: locked_key_def)
  have "store rnd j kl v pol (w\<lparr>fs := s1\<rparr>) = (Inr (Written (maintenance_of j inner s)), w\<lparr>fs := s3\<rparr>)"
    using kl v fits now1 wa d mt by (simp add: store_def Let_def)
  with l e s3 mt show ?thesis by blast
qed

section \<open>What was stored is found again\<close>

text \<open>
  What the code relies on of \<open>serde_json\<close>: an entry it wrote parses back to the header and the
  value it was made of.
\<close>

definition reads_back :: "'v serde \<Rightarrow> bool" where
  "reads_back j \<longleftrightarrow> (\<forall>e bytes. to_vec j e = Some bytes \<longrightarrow>
     parse_header j bytes = Some (header_of e) \<and> parse_value j bytes = Some (w_value e))"

definition cached_of :: "'v written \<Rightarrow> u64 \<Rightarrow> 'v cached" where
  "cached_of e t = \<lparr>c_value = w_value e, stored_at_ms = h_stored_at_ms e,
     age_ms = saturating_sub t (h_stored_at_ms e), c_source = h_source e\<rparr>"

text \<open>What a lookup of a stored entry gives at time \<open>t\<close>.\<close>

definition lookup_at :: "'v written \<Rightarrow> u64 \<Rightarrow> 'v lookup" where
  "lookup_at e t = (if t \<le> h_fresh_until_ms e then Fresh (cached_of e t)
     else if t \<le> h_stale_until_ms e then Stale (cached_of e t) else Miss)"

lemma entry_to_write_consistent: "consistent (header_of (entry_to_write inner k pol now v))"
  using saturating_add_ge
  by (simp add: consistent_def header_of_def entry_to_write_def Let_def header.truncate_def)

lemma lookup_entered:
  assumes r: "ready inner w" and t: "clock (fs w) = t"
    and m: "regular_at (fs w) (entry_path inner (digest k)) = Some m" "data (m_node m) = bytes"
    and e: "e = entry_to_write inner k pol now v" "to_vec j e = Some bytes" and j: "reads_back j"
    and len: "length bytes < 2 ^ 64" and fits: "\<not> u64_or_max (length bytes) > max_entry_bytes (i_limits inner)"
  shows "fst (cache_lookup j inner k w) = Inr (lookup_at e t)"
proof -
  let ?p = "entry_path inner (digest k)" and ?lim = "max_entry_bytes (i_limits inner)"
  have "\<not> ?lim < m_len m" using fits m(2) by (simp add: m_len_def)
  with read_whole [of m ?lim] len m have rr: "read_result (regular_at (fs w) ?p) ?lim = Some (bytes, m)"
    by (simp add: read_result_def)
  from j e(2) have ps: "parse_header j bytes = Some (header_of e)" "parse_value j bytes = Some (w_value e)"
    by (auto simp: reads_back_def)
  have hd: "h_schema (header_of e) = schema inner" "h_digest (header_of e) = digest k"
    "h_namespace (header_of e) = namespace k" "consistent (header_of e)" "w_value e = v"
    "h_stale_until_ms (header_of e) = h_stale_until_ms e" "h_fresh_until_ms (header_of e) = h_fresh_until_ms e"
    "h_stored_at_ms (header_of e) = h_stored_at_ms e" "h_source (header_of e) = h_source e"
    using entry_to_write_consistent [of inner k pol now v]
    by (simp_all add: e(1) header_of_def entry_to_write_def Let_def header.truncate_def)
  have le: "h_fresh_until_ms e \<le> h_stale_until_ms e"
    using hd(4) by (simp add: consistent_def hd)
  have "verdict_lookup (verdict_on j inner k (fs w)) = lookup_at e t"
    unfolding verdict_on_def rr t judge_def Let_def
    using le by (auto simp: ps hd verdict_lookup_def lookup_at_def cached_of_def)
  with cache_read_calm [OF r, of j k False] show ?thesis
    by (auto simp: cache_lookup_def)
qed

lemma ino_at_clock [simp]: "ino_at (s\<lparr>clock := t\<rparr>) p = ino_at s p"
  by (simp add: ino_at_def)

lemma wf_clock [simp]: "wf_os (s\<lparr>clock := t\<rparr>) = wf_os s"
  by (simp add: wf_os_def)

lemma ready_clock: "ready inner w \<Longrightarrow> ready inner (w\<lparr>fs := (fs w)\<lparr>clock := t\<rparr>\<rparr>)"
  by (simp add: ready_def private_dir_def private_file_def)

lemma store_lookup:
  assumes r: "ready inner w" and m: "\<not> excl_locked (fs w) (maintenance_path inner)"
    and k: "\<not> key_busy inner (fs w) (digest k)"
    and tmp: "ino_at (fs w) (temp_path inner (digest k) rnd) = None"
    and target: "map_option kind (node_at (fs w) (entry_path inner (digest k))) \<noteq> Some Directory"
    and e: "e = entry_to_write inner k pol (now_ms w) v" "to_vec j e = Some bytes" and j: "reads_back j"
    and len: "length bytes < 2 ^ 64"
    and fits: "\<not> u64_or_max (length bytes) > max_entry_bytes (i_limits inner)"
    and kl: "cache_lock inner k w = (Inr kl, w1)"
  shows "\<exists>mt w2. store rnd j kl v pol w1 = (Inr (Written mt), w2)
    \<and> (mt = NotNeeded \<longrightarrow>
        fst (cache_lookup j inner k (w2\<lparr>fs := (fs w2)\<lparr>clock := t\<rparr>\<rparr>)) = Inr (lookup_at e t))"
proof -
  let ?q = "entry_path inner (digest k)"
  from store_calm [OF r m k tmp target e(2) [unfolded e(1)] fits] kl obtain s2 s3 where
    en: "entered (lock_path inner (digest k)) ?q (fresh_entry (euid w) (write_perm w) bytes (now_ms w)) (fs w) s2"
    and st: "store rnd j kl v pol w1 = (Inr (Written (maintenance_of j inner s2)), w\<lparr>fs := s3\<rparr>)"
    and s3: "\<not> due inner s2 \<longrightarrow> s3 = s2" by auto
  have "fst (cache_lookup j inner k (w\<lparr>fs := s3\<lparr>clock := t\<rparr>\<rparr>)) = Inr (lookup_at e t)"
    if "maintenance_of j inner s2 = NotNeeded"
  proof -
    from that s3 have s3: "s3 = s2" by (simp add: maintenance_of_def split: if_splits)
    have rt: "ready inner (w\<lparr>fs := s2\<lparr>clock := t\<rparr>\<rparr>)"
      using ready_clock [OF entered_ready [OF r en], of t] by simp
    from en obtain i where i: "ino_at s2 ?q = Some i"
      "inodes s2 i = fresh_entry (euid w) (write_perm w) bytes (now_ms w)"
      by (auto simp: entered_def)
    have "regular_at (s2\<lparr>clock := t\<rparr>) ?q =
        Some \<lparr>m_ino = i, m_node = fresh_entry (euid w) (write_perm w) bytes (now_ms w)\<rparr>"
      using i by (simp add: regular_at_def metadata_at_def is_file_def fresh_entry_def)
    from lookup_entered [OF rt _ _ _ e j len fits, of t] this s3 show ?thesis
      by (simp add: fresh_entry_def)
  qed
  with st show ?thesis by auto
qed

end
