(* ===== verification/Header_Scan.thy ===== *)
theory Header_Scan
  imports Entry
begin

text \<open>
  \<open>read_header\<close> finds the \<open>value\<close> key whatever the chunks it reads, and the first
  \<open>,"value":\<close> of a stored entry is that key. The second fact needs two documented properties
  of JSON as \<open>serde_json\<close> writes it (\<open>json_plain\<close>): a number is digits, and inside a string
  every quotation mark has a backslash before it.
\<close>

section \<open>Finding a pattern\<close>

definition occurs :: "u8 list \<Rightarrow> u8 list \<Rightarrow> nat \<Rightarrow> bool" where
  "occurs pat xs i \<longleftrightarrow> take (length pat) (drop i xs) = pat"

lemma position_Some: "position pat xs = Some i \<Longrightarrow>
    i < length xs \<and> occurs pat xs i \<and> (\<forall>j < i. \<not> occurs pat xs j)"
proof (induction pat xs arbitrary: i rule: position.induct)
  case (1 pat)
  then show ?case by simp
next
  case (2 pat x xs)
  show ?case
  proof (cases "take (length pat) (x # xs) = pat")
    case True
    with "2.prems" show ?thesis by (simp add: occurs_def)
  next
    case False
    with "2.prems" obtain k where k: "position pat xs = Some k" "i = Suc k" by auto
    from "2.IH" [OF False k(1)] k(2) False show ?thesis
      by (auto simp: occurs_def less_Suc_eq_0_disj)
  qed
qed

lemma position_None: "pat \<noteq> [] \<Longrightarrow> position pat xs = None \<Longrightarrow> \<not> occurs pat xs i"
proof (induction pat xs arbitrary: i rule: position.induct)
  case (1 pat)
  then show ?case by (simp add: occurs_def)
next
  case (2 pat x xs)
  then show ?case by (cases i) (auto simp: occurs_def split: if_splits)
qed

lemma position_eqI:
  assumes "i < length xs" and "occurs pat xs i" and "\<And>j. j < i \<Longrightarrow> \<not> occurs pat xs j"
    and "pat \<noteq> []"
  shows "position pat xs = Some i"
proof (cases "position pat xs")
  case None
  with assms show ?thesis using position_None by blast
next
  case (Some k)
  with assms position_Some [OF Some] show ?thesis by (metis linorder_neqE_nat)
qed

lemma occurs_append: "i + length pat \<le> length xs \<Longrightarrow> occurs pat (xs @ ys) i = occurs pat xs i"
  by (simp add: occurs_def)

lemma occurs_length: "occurs pat xs i \<Longrightarrow> pat \<noteq> [] \<Longrightarrow> i + length pat \<le> length xs"
proof -
  assume o: "occurs pat xs i" and "pat \<noteq> []"
  from o have "length (take (length pat) (drop i xs)) = length pat"
    by (simp add: occurs_def)
  with \<open>pat \<noteq> []\<close> show ?thesis by (cases pat) auto
qed

lemma occurs_mono: "occurs pat xs i \<Longrightarrow> pat \<noteq> [] \<Longrightarrow> occurs pat (xs @ ys) i"
  using occurs_length occurs_append by blast

lemma occurs_drop: "occurs pat (drop k xs) i = occurs pat xs (k + i)"
  by (simp add: occurs_def add.commute)

section \<open>The chunked search is the search of the whole file\<close>

definition scan_whole :: "u8 list \<Rightarrow> u8 list option" where
  "scan_whole bytes = (case position value_key bytes of
     None \<Rightarrow> None | Some i \<Rightarrow> Some (take i bytes @ close_brace))"

lemma value_key_not_Nil [simp]: "value_key \<noteq> []"
  by (simp add: value_key_def comma_def as_bytes_def)

lemma scan_header_whole:
  assumes "\<And>i. \<not> occurs value_key prefix i" and "[] \<notin> set chunks"
  shows "scan_header prefix chunks = scan_whole (prefix @ concat chunks)"
  using assms
proof (induction prefix chunks rule: scan_header.induct)
  case (1 prefix)
  have "position value_key prefix = None"
  proof (cases "position value_key prefix")
    case (Some i)
    with 1 position_Some show ?thesis by blast
  qed
  then show ?case by (simp add: scan_whole_def)
next
  case (2 prefix chunk chunks)
  let ?start = "length prefix - (length value_key - 1)" and ?all = "prefix @ chunk"
  have early: "\<not> occurs value_key ?all i" if "i < ?start" for i
  proof -
    from that have "i + length value_key \<le> length prefix" by simp
    with 2 show ?thesis by (simp add: occurs_append)
  qed
  show ?case
  proof (cases "position value_key (drop ?start ?all)")
    case None
    have "\<not> occurs value_key ?all i" for i
    proof (cases "i < ?start")
      case True
      then show ?thesis by (rule early)
    next
      case False
      with position_None [OF value_key_not_Nil None, of "i - ?start"] show ?thesis
        by (simp only: occurs_drop) simp
    qed
    with None "2.IH" [OF _ refl refl None] "2.prems" show ?thesis by auto
  next
    case (Some i)
    from position_Some [OF Some]
    have i: "?start + i < length ?all" "occurs value_key ?all (?start + i)"
      and first: "\<And>j. j < i \<Longrightarrow> \<not> occurs value_key ?all (?start + j)"
      by (auto simp: occurs_drop simp del: drop_append)
    have "\<not> occurs value_key ?all j" if "j < ?start + i" for j
      using early [of j] first [of "j - ?start"] that
      by (cases "j < ?start") (simp_all add: less_diff_conv2 add.commute)
    moreover have "occurs value_key (?all @ concat chunks) j = occurs value_key ?all j"
      if "j < ?start + i" for j
    proof -
      from occurs_length [OF i(2)] that have "j + length value_key \<le> length ?all" by simp
      then show ?thesis by (rule occurs_append)
    qed
    ultimately have "position value_key (?all @ concat chunks) = Some (?start + i)"
      using i occurs_mono [OF i(2), of "concat chunks"]
      by (intro position_eqI) simp_all
    with Some i(1) "2.prems" show ?thesis
      by (auto simp: scan_whole_def Let_def simp del: drop_append)
  qed
qed

lemma concat_chunks_of: "0 < n \<Longrightarrow> concat (chunks_of n xs) = xs"
proof (induction n xs rule: chunks_of.induct)
  case (1 n xs)
  then show ?case by (subst chunks_of.simps) auto
qed

lemma chunks_of_not_Nil: "[] \<notin> set (chunks_of n xs)"
proof (induction n xs rule: chunks_of.induct)
  case (1 n xs)
  then show ?case by (subst chunks_of.simps) auto
qed

lemma scan_header_chunks_of: "scan_header [] (chunks_of buffer_size bytes) = scan_whole bytes"
proof -
  have "\<not> occurs value_key [] i" for i
    by (simp add: occurs_def value_key_not_Nil [symmetric] del: value_key_not_Nil)
  then show ?thesis
    by (subst scan_header_whole)
      (simp_all add: chunks_of_not_Nil concat_chunks_of buffer_size_def)
qed

section \<open>The first occurrence is the value key\<close>

fun quotes_escaped :: "u8 \<Rightarrow> u8 list \<Rightarrow> bool" where
  "quotes_escaped prev [] = True"
| "quotes_escaped prev (b # bs) = ((b = 34 \<longrightarrow> prev = 92) \<and> quotes_escaped b bs)"

definition json_plain :: "'v serde \<Rightarrow> bool" where
  "json_plain j \<longleftrightarrow> (\<forall>n. set (json_number j n) \<subseteq> {48..57})
     \<and> (\<forall>s. \<exists>body. json_string j s = 34 # body @ [34] \<and> quotes_escaped 34 body)"

text \<open>
  A recogniser for a comma, a quotation mark and the letter \<open>v\<close> in a row: state 1 after a
  comma, 2 after a comma and a quotation mark, \<open>None\<close> once all three were seen.
\<close>

fun step_cqv :: "nat \<Rightarrow> u8 \<Rightarrow> nat option" where
  "step_cqv st b = (if st = 2 \<and> b = 118 then None
     else if b = 44 then Some 1 else if b = 34 \<and> st = 1 then Some 2 else Some 0)"

fun run_cqv :: "nat \<Rightarrow> u8 list \<Rightarrow> nat option" where
  "run_cqv st [] = Some st"
| "run_cqv st (b # bs) = (case step_cqv st b of None \<Rightarrow> None | Some st' \<Rightarrow> run_cqv st' bs)"

lemma run_cqv_append:
  "run_cqv st (xs @ ys) = (case run_cqv st xs of None \<Rightarrow> None | Some st' \<Rightarrow> run_cqv st' ys)"
  by (induction xs arbitrary: st) (auto split: option.splits)

lemma run_cqv_found: "run_cqv st (xs @ 44 # 34 # 118 # ys) = None"
  by (auto simp: run_cqv_append split: option.splits)

lemma run_cqv_number:
  "set bs \<subseteq> {48..57} \<Longrightarrow> st = 0 \<Longrightarrow> run_cqv st bs = Some 0"
proof (induction bs)
  case (Cons b bs)
  then have "b \<noteq> 44" by auto
  with Cons show ?case by simp
qed simp

lemma run_cqv_body:
  "quotes_escaped prev body \<Longrightarrow> (st = 1 \<longrightarrow> prev = 44) \<Longrightarrow> st \<in> {0, 1} \<Longrightarrow>
    \<exists>st' \<in> {0, 1}. run_cqv st body = Some st'"
proof (induction body arbitrary: prev st)
  case (Cons b body)
  show ?case
  proof (cases "b = 44")
    case True
    with Cons.prems Cons.IH [of b 1] show ?thesis by auto
  next
    case False
    with Cons.prems have "step_cqv st b = Some 0" by auto
    with Cons.prems Cons.IH [of b 0] show ?thesis by auto
  qed
qed simp

lemma run_cqv_string:
  assumes "json_plain j"
  shows "\<exists>st \<in> {0, 2}. run_cqv 0 (json_string j s) = Some st"
proof -
  from assms obtain body where b: "json_string j s = 34 # body @ [34]" "quotes_escaped 34 body"
    unfolding json_plain_def by blast
  from run_cqv_body [OF b(2), of 0] obtain st where "st \<in> {0, 1}" "run_cqv 0 body = Some st"
    by auto
  with b show ?thesis by (auto simp: run_cqv_append)
qed

text \<open>Fields that are not the value keep the recogniser off the pattern.\<close>

definition keeps_off :: "u8 list \<Rightarrow> bool" where
  "keeps_off xs \<longleftrightarrow> (\<forall>st \<in> {0, 2}. \<exists>st' \<in> {0, 2}. run_cqv st xs = Some st')"

lemma keeps_off_append: "keeps_off xs \<Longrightarrow> keeps_off ys \<Longrightarrow> keeps_off (xs @ ys)"
  unfolding keeps_off_def run_cqv_append by (metis option.simps(5))

lemma keeps_off_field:
  "(\<forall>st \<in> {0, 2}. run_cqv st key = Some 0) \<Longrightarrow> \<exists>st \<in> {0, 2}. run_cqv 0 val = Some st \<Longrightarrow>
    keeps_off (key @ val)"
  unfolding keeps_off_def run_cqv_append by (metis option.simps(5))

lemma run_cqv_keys:
  "\<forall>st \<in> {0, 2}. run_cqv st (open_brace @ json_key ''format'') = Some 0"
  "\<forall>st \<in> {0, 2}. run_cqv st (comma @ json_key ''schema'') = Some 0"
  "\<forall>st \<in> {0, 2}. run_cqv st (comma @ json_key ''namespace'') = Some 0"
  "\<forall>st \<in> {0, 2}. run_cqv st (comma @ json_key ''digest'') = Some 0"
  "\<forall>st \<in> {0, 2}. run_cqv st (comma @ json_key ''stored_at_ms'') = Some 0"
  "\<forall>st \<in> {0, 2}. run_cqv st (comma @ json_key ''fresh_until_ms'') = Some 0"
  "\<forall>st \<in> {0, 2}. run_cqv st (comma @ json_key ''stale_until_ms'') = Some 0"
  "\<forall>st \<in> {0, 2}. run_cqv st (comma @ json_key ''source'') = Some 0"
  by (simp_all add: comma_def open_brace_def json_key_def quotation_def as_bytes_def)

lemma header_json_fields: "header_json j h =
    ((open_brace @ json_key ''format'') @ json_number j (unat (h_format h)))
  @ ((comma @ json_key ''schema'') @ json_number j (unat (h_schema h)))
  @ ((comma @ json_key ''namespace'') @ json_string j (h_namespace h))
  @ ((comma @ json_key ''digest'') @ json_string j (h_digest h))
  @ ((comma @ json_key ''stored_at_ms'') @ json_number j (unat (h_stored_at_ms h)))
  @ ((comma @ json_key ''fresh_until_ms'') @ json_number j (unat (h_fresh_until_ms h)))
  @ ((comma @ json_key ''stale_until_ms'') @ json_number j (unat (h_stale_until_ms h)))
  @ ((comma @ json_key ''source'') @ json_string j (source_name (h_source h)))"
  by (simp add: header_json_def)

lemma keeps_off_header:
  assumes j: "json_plain j"
  shows "keeps_off (header_json j h)"
proof -
  have n: "\<exists>st \<in> {0, 2}. run_cqv 0 (json_number j k) = Some st" for k
    using j run_cqv_number [of "json_number j k" 0] by (auto simp: json_plain_def)
  note s = run_cqv_string [OF j]
  show ?thesis
    unfolding header_json_fields
    by (intro keeps_off_append keeps_off_field run_cqv_keys n s)
qed

lemma take_drop_append: "i + n \<le> length xs \<Longrightarrow> take n (drop i (xs @ ys)) = take n (drop i xs)"
  by simp

lemma first_value_key:
  assumes j: "json_plain j"
  shows "position value_key (header_json j h @ value_key @ rest) = Some (length (header_json j h))"
proof (rule position_eqI)
  let ?hd = "header_json j h"
  show "length ?hd < length (?hd @ value_key @ rest)" by simp
  show "occurs value_key (?hd @ value_key @ rest) (length ?hd)" by (simp add: occurs_def)
  fix i
  assume i: "i < length ?hd"
  show "\<not> occurs value_key (?hd @ value_key @ rest) i"
  proof
    assume o: "occurs value_key (?hd @ value_key @ rest) i"
    have vk: "value_key = 44 # 34 # 118 # drop 3 value_key"
      by (simp add: value_key_def comma_def json_key_def quotation_def as_bytes_def)
    let ?xs = "?hd @ [44, 34]"
    have "take 3 (drop i (?hd @ value_key @ rest)) = take 3 value_key"
    proof -
      from o have "take 3 (take (length value_key) (drop i (?hd @ value_key @ rest))) = take 3 value_key"
        by (simp only: occurs_def)
      moreover have "min 3 (length value_key) = 3" by (subst vk) simp
      ultimately show ?thesis by (simp only: take_take)
    qed
    moreover have "take 3 (drop i (?hd @ value_key @ rest)) = take 3 (drop i ?xs)"
    proof -
      have "?hd @ value_key @ rest = ?xs @ (118 # drop 3 value_key @ rest)" by (subst vk) simp
      then have "take 3 (drop i (?hd @ value_key @ rest))
          = take 3 (drop i (?xs @ (118 # drop 3 value_key @ rest)))"
        by (rule arg_cong)
      also have "\<dots> = take 3 (drop i ?xs)" using i by (intro take_drop_append) simp
      finally show ?thesis .
    qed
    moreover have "take 3 value_key = [44, 34, 118]" by (subst vk) simp
    ultimately have t: "take 3 (drop i ?xs) = [44, 34, 118]" by simp
    have "?xs = take i ?xs @ take 3 (drop i ?xs) @ drop 3 (drop i ?xs)"
      by (metis append_take_drop_id)
    with t have "run_cqv 0 ?xs = None"
      by (metis append_Cons append_Nil run_cqv_found)
    moreover from keeps_off_header [OF j, of h] have "run_cqv 0 ?xs \<noteq> None"
      by (auto simp: keeps_off_def run_cqv_append)
    ultimately show False by simp
  qed
qed simp

end
