(* ===== verification/Sample_Cache.thy ===== *)
theory Sample_Cache
  imports Storing Header_Scan
begin

text \<open>
  A concrete instance for the witnesses: a small cache on an otherwise empty machine, a key,
  a policy, and an encoding of entries that has the properties the theorems ask of
  \<open>serde_json\<close>. The encoding keeps the layout of the JSON text and writes every number as
  twenty digits and every byte of a string as three.
\<close>

section \<open>Digits\<close>

definition digit_byte :: "nat \<Rightarrow> u8" where
  "digit_byte d = of_nat (48 + d)"

definition byte_digit :: "u8 \<Rightarrow> nat" where
  "byte_digit b = unat b - 48"

lemma unat_digit_byte: "d < 10 \<Longrightarrow> unat (digit_byte d) = 48 + d"
  by (simp add: digit_byte_def unat_of_nat del: of_nat_add)

lemma byte_digit: "d < 10 \<Longrightarrow> byte_digit (digit_byte d) = d"
  by (simp add: byte_digit_def unat_digit_byte)

lemma digit_byte_range: "d < 10 \<Longrightarrow> digit_byte d \<in> {48..57}"
  by (simp add: word_le_nat_alt unat_digit_byte)

text \<open>The \<open>k\<close> lowest decimal digits, lowest first.\<close>

primrec le_digits :: "nat \<Rightarrow> nat \<Rightarrow> u8 list" where
  "le_digits 0 n = []"
| "le_digits (Suc k) n = digit_byte (n mod 10) # le_digits k (n div 10)"

definition from_digits :: "u8 list \<Rightarrow> nat" where
  "from_digits ds = foldr (\<lambda>b n. byte_digit b + 10 * n) ds 0"

lemma from_le_digits: "n < 10 ^ k \<Longrightarrow> from_digits (le_digits k n) = n"
proof (induction k arbitrary: n)
  case (Suc k)
  then have "n div 10 < 10 ^ k" by (simp add: less_mult_imp_div_less mult.commute)
  from Suc.IH [OF this] show ?case by (simp add: from_digits_def byte_digit)
qed (simp add: from_digits_def)

lemma set_le_digits: "set (le_digits k n) \<subseteq> {48..57}"
proof (induction k arbitrary: n)
  case (Suc k)
  then show ?case using digit_byte_range [of "n mod 10"] by simp
qed simp

lemma length_le_digits [simp]: "length (le_digits k n) = k"
  by (induction k arbitrary: n) simp_all

fun from_triples :: "u8 list \<Rightarrow> u8 list" where
  "from_triples (x # y # z # bs) = of_nat (from_digits [x, y, z]) # from_triples bs"
| "from_triples bs = []"

definition triples :: "u8 list \<Rightarrow> u8 list" where
  "triples bs = concat (map (\<lambda>b. le_digits 3 (unat b)) bs)"

lemma from_triples: "from_triples (triples bs) = bs"
proof (induction bs)
  case (Cons b bs)
  obtain x y z where t: "le_digits 3 (unat b) = [x, y, z]" by (simp add: numeral_3_eq_3)
  have "unat b < 10 ^ 3" using unat_less_u8 [of b] by simp
  from from_le_digits [OF this] t Cons show ?case by (simp add: triples_def)
qed (simp add: triples_def)

lemma set_triples: "set (triples bs) \<subseteq> {48..57}"
  using set_le_digits [of 3] by (force simp: triples_def)

section \<open>The encoding\<close>

definition from_bytes :: "u8 list \<Rightarrow> str" where
  "from_bytes bs = map (\<lambda>b. char_of (unat b)) bs"

lemma from_bytes: "from_bytes (as_bytes s) = s"
proof -
  have "char_of (unat (of_nat (of_char c) :: u8)) = c" for c :: char
    by (simp add: unat_of_nat)
  then show ?thesis by (simp add: from_bytes_def as_bytes_def map_idI)
qed

definition sample_number :: "nat \<Rightarrow> u8 list" where
  "sample_number n = le_digits 20 n"

definition sample_string :: "str \<Rightarrow> u8 list" where
  "sample_string s = 34 # triples (as_bytes s) @ [34]"

definition number_in :: "u8 list \<Rightarrow> nat" where
  "number_in t = from_digits t"

definition string_in :: "u8 list \<Rightarrow> str" where
  "string_in t = from_bytes (from_triples (butlast (tl t)))"

definition in_token :: "u8 \<Rightarrow> bool" where
  "in_token b \<longleftrightarrow> b \<noteq> 44 \<and> b \<noteq> 125"

lemma number_in: "n < 10 ^ 20 \<Longrightarrow> number_in (sample_number n) = n"
  by (simp add: number_in_def sample_number_def from_le_digits)

lemma string_in: "string_in (sample_string s) = s"
  by (simp add: string_in_def sample_string_def from_triples from_bytes)

lemma digits_in_token: "b \<in> {48..57} \<Longrightarrow> in_token b"
  by (auto simp: in_token_def)

lemma number_token: "\<forall>b \<in> set (sample_number n). in_token b"
  using set_le_digits [of 20 n] digits_in_token by (auto simp: sample_number_def)

lemma string_token: "\<forall>b \<in> set (sample_string s). in_token b"
  using set_triples [of "as_bytes s"] digits_in_token by (auto simp: sample_string_def in_token_def)

text \<open>The value of the field that comes next, and the rest after the comma or brace.\<close>

definition next_field :: "str \<Rightarrow> u8 list \<Rightarrow> u8 list \<times> u8 list" where
  "next_field name bs = (let r = drop (length (json_key name)) bs in
     (takeWhile in_token r, drop 1 (dropWhile in_token r)))"

lemma next_field: "\<forall>b \<in> set t. in_token b \<Longrightarrow> \<not> in_token c \<Longrightarrow>
    next_field name (json_key name @ t @ c # rest) = (t, rest)"
  by (simp add: next_field_def Let_def takeWhile_append2 dropWhile_append2)

definition sample_parse :: "u8 list \<Rightarrow> header \<times> u8 list" where
  "sample_parse bs =
     (let (t1, b1) = next_field ''format'' (drop 1 bs);
          (t2, b2) = next_field ''schema'' b1;
          (t3, b3) = next_field ''namespace'' b2;
          (t4, b4) = next_field ''digest'' b3;
          (t5, b5) = next_field ''stored_at_ms'' b4;
          (t6, b6) = next_field ''fresh_until_ms'' b5;
          (t7, b7) = next_field ''stale_until_ms'' b6;
          (t8, b8) = next_field ''source'' b7
      in (\<lparr>h_format = of_nat (number_in t1), h_schema = of_nat (number_in t2), h_namespace = string_in t3,
           h_digest = string_in t4, h_stored_at_ms = of_nat (number_in t5),
           h_fresh_until_ms = of_nat (number_in t6), h_stale_until_ms = of_nat (number_in t7),
           h_source = (if string_in t8 = ''cache_control'' then CacheControl else CallerDefault)\<rparr>, b8))"

definition sample_serde :: "u64 serde" where
  "sample_serde = \<lparr>json_string = sample_string, json_number = sample_number,
     json_value = (\<lambda>v. Some (sample_number (unat v))),
     parse_header = (\<lambda>bs. Some (fst (sample_parse bs))),
     parse_value = (\<lambda>bs. Some (of_nat (number_in (fst (next_field ''value'' (snd (sample_parse bs)))))))\<rparr>"

lemma sample_parse:
  assumes "\<not> in_token c"
  shows "sample_parse (header_json sample_serde h @ c # rest) = (header.truncate h, rest)"
proof -
  have n: "number_in (sample_number (unat (x :: 64 word))) = unat x" for x
    using unat_less_u64 [of x] by (intro number_in) simp
  have n8: "number_in (sample_number (unat (x :: 8 word))) = unat x" for x
    using unat_less_u8 [of x] by (intro number_in) simp
  have n32: "number_in (sample_number (unat (x :: 32 word))) = unat x" for x
    by (intro number_in order.strict_trans2 [OF unsigned_less]) simp
  have comma: "\<not> in_token 44" by (simp add: in_token_def)
  have src: "(if source_name s = ''cache_control'' then CacheControl else CallerDefault) = s" for s
    by (cases s) (simp_all add: source_name_def)
  have c44: "comma = [44]" by (simp add: comma_def as_bytes_def)
  have br: "open_brace = [123]" by (simp add: open_brace_def as_bytes_def)
  note nf = next_field [OF number_token comma] next_field [OF string_token comma] next_field [OF string_token assms]
  show ?thesis
    by (simp add: sample_parse_def header_json_def sample_serde_def c44 br nf n n8 n32 string_in src
        header.truncate_def)
qed

lemma sample_reads_back: "reads_back sample_serde"
  unfolding reads_back_def
proof (intro allI impI)
  fix e :: "u64 written" and bytes
  assume "to_vec sample_serde e = Some bytes"
  then have b: "bytes = header_json sample_serde (header_of e) @ value_key @ sample_number (unat (w_value e)) @ close_brace"
    by (simp add: to_vec_def sample_serde_def)
  have vk: "value_key = 44 # json_key ''value''" by (simp add: value_key_def comma_def as_bytes_def)
  have cb: "close_brace = [125]" by (simp add: close_brace_def as_bytes_def)
  have tok: "\<not> in_token 44" "\<not> in_token 125" by (simp_all add: in_token_def)
  have p: "sample_parse bytes = (header.truncate (header_of e), json_key ''value'' @ sample_number (unat (w_value e)) @ [125])"
    unfolding b vk cb using sample_parse [OF tok(1)] by simp
  have "number_in (sample_number (unat (w_value e))) = unat (w_value e)"
    using unat_less_u64 [of "w_value e"] by (intro number_in) simp
  with p next_field [OF number_token tok(2), of "''value''" "unat (w_value e)" "[]"]
  show "parse_header sample_serde bytes = Some (header_of e) \<and> parse_value sample_serde bytes = Some (w_value e)"
    by (simp add: sample_serde_def header_of_def header.truncate_def)
qed

lemma sample_plain: "json_plain sample_serde"
proof -
  have esc: "set bs \<subseteq> {48..57} \<Longrightarrow> quotes_escaped prev bs" for bs prev
    by (induction bs arbitrary: prev) auto
  show ?thesis
    unfolding json_plain_def
    using set_le_digits set_triples esc by (auto simp: sample_serde_def sample_number_def sample_string_def)
qed

section \<open>The machine\<close>

definition sample_inner :: inner where
  "sample_inner = \<lparr>root = [''c''], schema = 2, i_limits = default_limits\<rparr>"

definition sample_dir :: inode where
  "sample_dir = \<lparr>kind = Directory, uid = 7, mode = mode_dir, mtime = 0, data = []\<rparr>"

definition sample_file :: inode where
  "sample_file = \<lparr>kind = Regular, uid = 7, mode = mode_file, mtime = 0, data = []\<rparr>"

text \<open>An empty cache, last pruned at its clock's zero.\<close>

definition sample_os :: os where
  "sample_os = \<lparr>
     dirents = [([], 0), ([''c''], 1), ([''c'', ''entries''], 2), ([''c'', ''locks''], 3),
       ([''c'', ''maintenance.lock''], 4), ([''c'', ''prune.lock''], 5)],
     inodes = (\<lambda>i. if i < 4 then sample_dir else sample_file),
     locks = [], next_ino = 6, next_fd = 0, ktime = 0, clock = 1000\<rparr>"

definition sample_world :: world where
  "sample_world = \<lparr>fs = sample_os, script = [], euid = 7, umask = 18\<rparr>"

lemmas sample_world_defs = sample_inner_def sample_dir_def sample_file_def sample_os_def sample_world_def

lemmas sample_paths = entries_dir_def locks_dir_def maintenance_path_def prune_lock_path_def
  entries_name_def locks_name_def maintenance_name_def prune_lock_name_def

lemma sample_ready: "ready sample_inner sample_world"
  unfolding ready_def
proof (intro conjI allI impI)
  show "calm sample_world" by (simp add: calm_def sample_world_def)
  show "wf_os (fs sample_world)" by (simp add: wf_os_def sample_world_def sample_os_def)
  show "private_dir sample_world (root sample_inner)" "private_dir sample_world (entries_dir sample_inner)"
    "private_dir sample_world (locks_dir sample_inner)"
    by (simp_all add: private_dir_def sample_world_defs sample_paths ino_at_def)
  show "private_file sample_world (maintenance_path sample_inner)"
    "private_file sample_world (prune_lock_path sample_inner)"
    by (simp_all add: private_file_def sample_world_defs sample_paths ino_at_def)
  fix p
  assume "child_of (locks_dir sample_inner) p" "ino_at (fs sample_world) p \<noteq> None"
  then show "private_file sample_world p"
    by (auto simp: child_of_def sample_world_defs sample_paths ino_at_def split: if_splits)
qed

lemma sample_unlocked: "lock_busy sample_os p = False" "excl_locked sample_os p = False"
  by (simp_all add: lock_busy_def excl_locked_def sample_os_def split: option.split)

definition sample_key :: key where
  "sample_key = \<lparr>namespace = ''n'', digest = replicate 64 CHR ''a''\<rparr>"

lemma sample_key_digest: "is_digest (digest sample_key)"
  by (simp add: is_digest_def sample_key_def is_ascii_hexdigit_def list_all_iff)

definition sample_policy :: policy where
  "sample_policy = policy_new (from_secs 60) (from_secs 600)"

lemma sample_absent:
  "ino_at sample_os (temp_path sample_inner (digest sample_key) rnd) = None"
  "ino_at sample_os (entry_path sample_inner d) = None"
  "ino_at sample_os (lock_path sample_inner d) = None"
  by (simp_all add: temp_path_def entry_path_def lock_path_def sample_world_defs sample_paths ino_at_def)

definition sample_bytes :: "u8 list" where
  "sample_bytes = the (to_vec sample_serde (entry_to_write sample_inner sample_key sample_policy 1000 5))"

lemma sample_to_vec: "to_vec sample_serde (entry_to_write sample_inner sample_key sample_policy 1000 5)
    = Some sample_bytes"
  by (simp add: sample_bytes_def to_vec_def sample_serde_def)

lemma length_triples [simp]: "length (triples bs) = 3 * length bs"
  by (induction bs) (simp_all add: triples_def)

lemma length_json_key [simp]: "length (json_key name) = length name + 3"
  by (simp add: json_key_def quotation_def)

lemma length_sample_bytes: "length sample_bytes = 478"
  by (simp add: sample_bytes_def to_vec_def sample_serde_def header_json_def value_key_def comma_def
      open_brace_def close_brace_def sample_number_def sample_string_def entry_to_write_def Let_def
      header_of_def header.truncate_def sample_key_def sample_policy_def policy_new_def source_name_def)

text \<open>The sample cache with the sample entry in it.\<close>

definition sample_stored :: os where
  "sample_stored = sample_os\<lparr>
     dirents := dirents sample_os @ [(entry_path sample_inner (digest sample_key), 6)],
     inodes := (inodes sample_os)(6 := sample_file\<lparr>mtime := at 1000, data := sample_bytes\<rparr>), next_ino := 7\<rparr>"

definition sample_full :: world where
  "sample_full = sample_world\<lparr>fs := sample_stored\<rparr>"

lemma sample_stored_ino: "ino_at sample_stored p =
    (if p = entry_path sample_inner (digest sample_key) then Some 6 else ino_at sample_os p)"
proof -
  have "ino_at sample_os (entry_path sample_inner (digest sample_key)) = None" by (rule sample_absent)
  then show ?thesis
    by (simp add: ino_at_def sample_stored_def map_add_def split: option.split)
qed

lemma sample_os_ino: "ino_at sample_os p = Some i \<Longrightarrow> i < 6"
  by (auto simp: ino_at_def sample_os_def split: if_splits)

lemma sample_full_ready: "ready sample_inner sample_full"
proof -
  have d: "private_dir sample_full p" if "private_dir sample_world p" "p \<noteq> entry_path sample_inner (digest sample_key)" for p
  proof -
    from that(1) obtain i where i: "ino_at sample_os p = Some i" "kind (inodes sample_os i) = Directory"
      "uid (inodes sample_os i) = 7" "mode (inodes sample_os i) = mode_dir"
      by (auto simp: private_dir_def sample_world_def)
    from sample_os_ino [OF i(1)] have "inodes sample_stored i = inodes sample_os i"
      by (simp add: sample_stored_def)
    with i that(2) show ?thesis
      by (simp add: private_dir_def sample_full_def sample_world_def sample_stored_ino)
  qed
  have f: "private_file sample_full p" if "private_file sample_world p" "p \<noteq> entry_path sample_inner (digest sample_key)" for p
  proof -
    from that(1) obtain i where i: "ino_at sample_os p = Some i" "kind (inodes sample_os i) = Regular"
      "uid (inodes sample_os i) = 7" "mode (inodes sample_os i) = mode_file"
      by (auto simp: private_file_def sample_world_def)
    from sample_os_ino [OF i(1)] have "inodes sample_stored i = inodes sample_os i"
      by (simp add: sample_stored_def)
    with i that(2) show ?thesis
      by (simp add: private_file_def sample_full_def sample_world_def sample_stored_ino)
  qed
  have fixed: "p \<noteq> entry_path sample_inner (digest sample_key)" if "p \<in> fixed_paths sample_inner" for p
    using that names_of_entry [of sample_os sample_inner "digest sample_key"] by (auto simp: names_of_def sample_absent node_at_def)
  have "private_file sample_full p" if "child_of (locks_dir sample_inner) p" "ino_at (fs sample_full) p \<noteq> None" for p
    using that by (auto simp: child_of_def sample_full_def sample_stored_def sample_os_def ino_at_def
        sample_inner_def sample_paths entry_path_def split: if_splits)
  moreover have "wf_os (fs sample_full)"
    by (simp add: wf_os_def sample_full_def sample_stored_def sample_os_def entry_path_def sample_inner_def sample_paths)
  moreover have "calm sample_full" by (simp add: calm_def sample_full_def sample_world_def)
  ultimately show ?thesis
    using sample_ready d f fixed by (simp add: ready_def fixed_paths_def)
qed

lemma sample_regular: "regular_at sample_stored (entry_path sample_inner (digest sample_key)) =
    Some \<lparr>m_ino = 6, m_node = sample_file\<lparr>mtime := at 1000, data := sample_bytes\<rparr>\<rparr>"
  by (simp add: regular_at_def metadata_at_def sample_stored_ino is_file_def)
     (simp add: sample_stored_def sample_file_def)

lemma sample_hit: "fst (cache_lookup sample_serde sample_inner sample_key sample_full) =
    Inr (lookup_at (entry_to_write sample_inner sample_key sample_policy 1000 5) 1000)"
proof (rule lookup_entered [OF sample_full_ready _ _ _ refl sample_to_vec sample_reads_back])
  show "clock (fs sample_full) = 1000" by (simp add: sample_full_def sample_stored_def sample_os_def)
  show "regular_at (fs sample_full) (entry_path sample_inner (digest sample_key)) =
      Some \<lparr>m_ino = 6, m_node = sample_file\<lparr>mtime := at 1000, data := sample_bytes\<rparr>\<rparr>"
    by (simp add: sample_full_def sample_regular)
  show "length sample_bytes < 2 ^ 64" by (simp add: length_sample_bytes)
  show "\<not> u64_or_max (length sample_bytes) > max_entry_bytes (i_limits sample_inner)"
    by (simp add: length_sample_bytes u64_or_max_def sample_inner_def default_limits_def)
qed simp

lemma sample_fresh: "\<exists>c. lookup_at (entry_to_write sample_inner sample_key sample_policy 1000 5) 1000 = Fresh c"
  by (simp add: lookup_at_def entry_to_write_def Let_def sample_policy_def policy_new_def millis_def from_secs_def
      as_millis_def u64_or_max_def saturating_add_def)

end
