(* ===== verification/Key_Properties.thy ===== *)
theory Key_Properties
  imports Sample_Cache "HOL-Library.Multiset"
begin

text \<open>
  Properties of cache keys and of the file names made of them.
\<close>

section \<open>Parts\<close>

lemma parts_builder [simp]: "parts (builder ns) = []" "b_namespace (builder ns) = ns"
  by (simp_all add: builder_def)

lemma add_parts_Inl:
  "parts_ok b \<Longrightarrow> add_parts nvs b = Inl e \<Longrightarrow> \<exists>n. e = DuplicateKeyPart n
    \<and> 2 \<le> length (filter (\<lambda>x. fst x = n) nvs) + (if n \<in> fst ` set (parts b) then 1 else 0)"
proof (induction nvs arbitrary: b)
  case (Cons nv nvs)
  obtain n v where nv: "nv = (n, v)" by (cases nv)
  show ?case
  proof (cases "part n v b")
    case (Inl e')
    with Cons.prems part_eq [OF Cons.prems(1), of n v] nv show ?thesis
      by (auto split: if_splits)
  next
    case (Inr b')
    from part_Inr [OF Cons.prems(1) Inr] have b': "parts_ok b'" "set (parts b') = insert (n, v) (set (parts b))"
      by simp_all
    from Cons.IH [OF b'(1)] Cons.prems(2) Inr nv obtain m where m: "e = DuplicateKeyPart m"
      "2 \<le> length (filter (\<lambda>x. fst x = m) nvs) + (if m \<in> fst ` set (parts b') then 1 else 0)"
      by auto
    with b'(2) nv show ?thesis by (intro exI [of _ m]) (auto split: if_splits)
  qed
qed simp

text \<open>C21: Part order does not matter: adding the same named parts in any order succeeds or fails
  alike, and when it succeeds gives the same builder, hence the same key.\<close>

theorem part_order_irrelevant:
  assumes "mset nvs = mset nvs'"
  shows "add_parts nvs (builder ns) = Inr b \<longleftrightarrow> add_parts nvs' (builder ns) = Inr b"
proof -
  have one: "add_parts ys (builder ns) = Inr b" if "mset xs = mset ys" and b: "add_parts xs (builder ns) = Inr b"
    for xs ys
  proof -
    from add_parts_Inr [OF parts_ok_builder b] have xs: "parts_ok b" "b_namespace b = ns"
      "set (parts b) = set xs" "distinct (map fst xs)" by simp_all
    from that(1) have "mset (map fst xs) = mset (map fst ys)" by simp
    with xs(4) have "distinct (map fst ys)" by (metis mset_eq_imp_distinct_iff)
    with add_parts_total [OF parts_ok_builder, of ys ns] obtain b' where b': "add_parts ys (builder ns) = Inr b'"
      by auto
    from add_parts_Inr [OF parts_ok_builder b'] have ys: "parts_ok b'" "b_namespace b' = ns"
      "set (parts b') = set ys" by simp_all
    from that(1) have "set xs = set ys" by (metis set_mset_mset)
    with xs ys sorted_keys_unique [of "parts b" "parts b'"] have "parts b = parts b'" by (simp add: parts_ok_def)
    with xs ys have "b = b'" by (simp add: key_builder.equality)
    with b' show ?thesis by simp
  qed
  from one [OF assms] one [OF assms [symmetric]] show ?thesis by blast
qed

lemma part_order_irrelevant_witness:
  "add_parts [(''q'', ''1''), (''p'', ''2'')] (builder ''n'') = Inr \<lparr>b_namespace = ''n'', parts = [(''p'', ''2''), (''q'', ''1'')]\<rparr>"
proof -
  have "add_parts [(''p'', ''2''), (''q'', ''1'')] (builder ''n'') = Inr \<lparr>b_namespace = ''n'', parts = [(''p'', ''2''), (''q'', ''1'')]\<rparr>"
    by code_simp
  with part_order_irrelevant [of "[(''q'', ''1''), (''p'', ''2'')]" "[(''p'', ''2''), (''q'', ''1'')]" "''n''"]
  show ?thesis by simp
qed

text \<open>A part name given twice is rejected, and nothing else is: adding parts succeeds exactly
  when their names are distinct, and the error names a part that was given more than once.\<close>

theorem duplicate_part_rejected:
  "(\<exists>b. add_parts nvs (builder ns) = Inr b) = distinct (map fst nvs)
    \<and> {e. add_parts nvs (builder ns) = Inl e} \<subseteq>
        {DuplicateKeyPart n | n. 2 \<le> length (filter (\<lambda>x. fst x = n) nvs)}"
proof
  show "(\<exists>b. add_parts nvs (builder ns) = Inr b) = distinct (map fst nvs)"
    using add_parts_total [OF parts_ok_builder, of nvs ns] add_parts_Inr [OF parts_ok_builder, of nvs ns] by auto
  show "{e. add_parts nvs (builder ns) = Inl e} \<subseteq>
      {DuplicateKeyPart n | n. 2 \<le> length (filter (\<lambda>x. fst x = n) nvs)}"
    using add_parts_Inl [OF parts_ok_builder, of nvs ns] by fastforce
qed

text \<open>C20: Two builders with one key are the same builder, or they are a collision of the hash:
  the bytes that are hashed determine the namespace and every name and value. The fields are
  shorter than the largest 64-bit length.\<close>

theorem equal_keys_equal_builders:
  assumes "fields_fit a" and "fields_fit b" and "build sha256 a = build sha256 b"
  shows "a = b \<or> (hash_input a \<noteq> hash_input b \<and> sha256 (hash_input a) = sha256 (hash_input b))"
proof (cases "hash_input a = hash_input b")
  case True
  with hash_input_inj [OF assms(1,2)] show ?thesis by blast
next
  case False
  from assms(3) have "hex (sha256 (hash_input a)) = hex (sha256 (hash_input b))" by (simp add: build_def)
  with False show ?thesis by (blast dest: hex_inj)
qed

lemma equal_keys_equal_builders_witness:
  "hash_input \<lparr>b_namespace = ''a'', parts = []\<rparr> \<noteq> hash_input \<lparr>b_namespace = ''a'', parts = [(''p'', ''v'')]\<rparr>"
  using equal_keys_equal_builders [of "\<lparr>b_namespace = ''a'', parts = []\<rparr>"
      "\<lparr>b_namespace = ''a'', parts = [(''p'', ''v'')]\<rparr>" "\<lambda>_. []"]
  by (simp add: fields_fit_def build_def)

section \<open>File names\<close>

lemma digest_no_dot: "is_digest d \<Longrightarrow> CHR ''.'' \<notin> set d"
proof -
  have "\<not> is_ascii_hexdigit CHR ''.''" by (simp add: is_ascii_hexdigit_def)
  then show "is_digest d \<Longrightarrow> CHR ''.'' \<notin> set d" by (auto simp: is_digest_def list_all_iff)
qed

lemma ends_with_append: "length q \<le> length s \<Longrightarrow> ends_with q (p @ s) = ends_with q s"
  by (simp add: ends_with_def)

text \<open>C22: The names of a key's files say what they are. A key's digest is 64 hexadecimal digits
  when the hash has 32 bytes; from the entry's file name the digest is read back; a temporary
  file of any random part is recognised as one, for the same digest, and never taken for an
  entry, nor an entry for a temporary file.\<close>

theorem file_names_classified:
  assumes "length (sha256 (hash_input b)) = 32" and "d = digest (build sha256 b)"
  shows "is_digest d
    \<and> entry_digest (entry_path inner d) = Some d \<and> \<not> is_temporary (entry_path inner d)
    \<and> temporary_digest (temp_path inner d rnd) = Some d \<and> is_temporary (temp_path inner d rnd)
    \<and> entry_digest (temp_path inner d rnd) = None"
proof -
  have d: "is_digest d"
    using assms hex_hexdigits by (simp add: is_digest_def build_def)
  then obtain c cs where c: "d = c # cs" "c \<noteq> CHR ''.''"
    using digest_no_dot [OF d] by (cases d) (auto simp: is_digest_def)
  have e: "entry_digest (entry_path inner d) = Some d"
    using d by (simp add: entry_digest_def entry_path_def file_name_def entry_name_def strip_suffix_def ends_with_def)
  have nt: "\<not> is_temporary (entry_path inner d)"
    using c by (simp add: is_temporary_def entry_path_def file_name_def entry_name_def starts_with_def)
  have "takeWhile (\<lambda>c. c \<noteq> CHR ''.'') (d @ CHR ''.'' # xs) = d" for xs
    using digest_no_dot [OF d] by (subst takeWhile_append2) auto
  with d have td: "temporary_digest (temp_path inner d rnd) = Some d"
    by (simp add: temporary_digest_def temp_path_def file_name_def temporary_name_def strip_prefix_def
        starts_with_def Let_def)
  have it: "is_temporary (temp_path inner d rnd)"
    by (simp add: is_temporary_def temp_path_def file_name_def temporary_name_def starts_with_def
        ends_with_def temporary_suffix_def)
  have "\<not> ends_with ''.json'' (temporary_name d rnd)"
  proof
    assume "ends_with ''.json'' (temporary_name d rnd)"
    then have "last (temporary_name d rnd) = last ''.json''"
      by (metis append_take_drop_id ends_with_def last_append list.distinct(1))
    then show False by (simp add: temporary_name_def temporary_suffix_def)
  qed
  then have "entry_digest (temp_path inner d rnd) = None"
    by (simp add: entry_digest_def temp_path_def file_name_def strip_suffix_def)
  with d e nt td it show ?thesis by simp
qed

lemma file_names_classified_witness:
  "is_digest (hex (replicate 32 0))"
  using file_names_classified [of "\<lambda>_. replicate 32 0" "builder ''n''" "hex (replicate 32 0)" sample_inner "''x''"]
  by (simp add: build_def)

end
