(* ===== verification/Header_Properties.thy ===== *)
theory Header_Properties
  imports Sample_Cache
begin

text \<open>
  Properties of \<open>read_header\<close>: it does not depend on how the file is cut into reads, and it
  finds the header of everything \<open>store\<close> writes.
\<close>

text \<open>C19: The header is found whatever the chunks: however the bytes of a file are cut into
  non-empty reads, the loop stops at the first value key of the whole file, also one that lies
  across two or more reads, and gives the bytes before it, closed by a brace; it reads to the
  end when there is none.\<close>

theorem header_any_chunks:
  assumes "[] \<notin> set chunks"
  shows "scan_header [] chunks = (case position value_key (concat chunks) of
     None \<Rightarrow> None | Some i \<Rightarrow> Some (take i (concat chunks) @ close_brace))"
proof -
  have "\<not> occurs value_key [] i" for i
    by (simp add: occurs_def value_key_not_Nil [symmetric] del: value_key_not_Nil)
  with scan_header_whole [of "[]" chunks] assms show ?thesis by (simp add: scan_whole_def)
qed

lemma header_any_chunks_witness:
  "scan_header [] [[7], take 3 value_key, drop 3 value_key @ [9]] = Some ([7] @ close_brace)"
proof -
  have "[] \<notin> set [[7], take 3 value_key, drop 3 value_key @ [9]]"
    by (simp add: value_key_def comma_def json_key_def as_bytes_def quotation_def)
  from header_any_chunks [OF this] show ?thesis
    by (simp add: value_key_def comma_def json_key_def as_bytes_def quotation_def)
qed

text \<open>The parser reads back a header that was cut off before its value.\<close>

definition reads_header :: "'v serde \<Rightarrow> bool" where
  "reads_header j \<longleftrightarrow> (\<forall>h. parse_header j (header_json j h @ close_brace) = Some h)"

lemma header_in_stored:
  fixes e :: "'v written" and j :: "'v serde"
  assumes "json_plain j" and r: "reads_header j" and b: "to_vec j e = Some bytes"
  shows "header_in j bytes = Some (header_of e)"
proof -
  from b obtain v where "bytes = header_json j (header_of e) @ value_key @ v @ close_brace"
    by (auto simp: to_vec_def split: option.splits)
  with first_value_key [OF assms(1)] have "scan_whole bytes = Some (header_json j (header_of e) @ close_brace)"
    by (simp add: scan_whole_def)
  moreover from r have "parse_header j (header_json j (header_of e) @ close_brace) = Some (header_of e)"
    by (simp add: reads_header_def)
  ultimately show ?thesis by (simp add: header_in_def scan_header_chunks_of)
qed


lemma sample_reads_header: "reads_header sample_serde"
proof -
  have t: "\<not> in_token 125" by (simp add: in_token_def)
  have cb: "close_brace = [125]" by (simp add: close_brace_def as_bytes_def)
  have "parse_header sample_serde bs = Some (fst (sample_parse bs))" for bs by (simp add: sample_serde_def)
  with sample_parse [OF t, of _ "[]"] show ?thesis
    by (simp add: reads_header_def cb header.truncate_def)
qed

lemma sample_digest: "is_digest (digest sample_key)"
  by (simp add: is_digest_def sample_key_def list_all_iff is_ascii_hexdigit_def)

lemma sample_stale: "h_stale_until_ms (entry_to_write sample_inner sample_key sample_policy 1000 5) = 661000"
  by (simp add: entry_to_write_def Let_def sample_policy_def policy_new_def millis_def from_secs_def
      as_millis_def u64_or_max_def saturating_add_def)

lemma sample_fits: "length sample_bytes \<le> unat (max_entry_bytes (i_limits sample_inner))"
  by (simp add: length_sample_bytes sample_inner_def default_limits_def)


end
