(* ===== verification/Cache_Properties.thy ===== *)
theory Cache_Properties
  imports Sample_Cache
begin

text \<open>
  Properties of the operations on one key: what a lookup serves, what a store leaves behind,
  and what the private-file functions refuse.
\<close>

section \<open>Lookups\<close>

lemma discard_misses: "discard p locked w = (Inr r, w') \<Longrightarrow> r = Miss"
  by (auto simp: discard_def andThen_eq_Inr_iff split: if_splits)

text \<open>A read that is not a miss takes the last branch of \<open>read\<close>.\<close>

lemma served_found:
  assumes run: "cache_read j inner k locked w = (Inr r, w')" and hit: "r \<noteq> Miss"
  obtains w1 w2 bytes m h v where
    "ensure_dir (entries_dir inner) w = (Inr (), w1)"
    "private_read (entry_path inner (digest k)) (max_entry_bytes (i_limits inner)) w1
      = (Inr (Some (bytes, m)), w2)"
    "parse_header j bytes = Some h" "h_schema h \<le> schema inner"
    "consistent h" "h_digest h = digest k" "h_namespace h = namespace k"
    "now_ms w2 \<le> h_stale_until_ms h" "parse_value j bytes = Some v"
proof -
  let ?p = "entry_path inner (digest k)" and ?lim = "max_entry_bytes (i_limits inner)"
  have miss: "discard ?p locked u \<noteq> (Inr r, u')" for u u' using hit discard_misses by blast
  obtain w1 where dir: "ensure_dir (entries_dir inner) w = (Inr (), w1)"
    using run unfolding cache_read_def Let_def by (auto simp: andThen_eq_Inr_iff)
  obtain found w2 where rd: "private_read ?p ?lim w1 = (Inr found, w2)"
    using run dir unfolding cache_read_def Let_def by (auto simp: andThen_eq_Inr_iff)
  note body = run [unfolded cache_read_def Let_def andThen_Inr [where m = "ensure_dir (entries_dir inner)", OF dir]
    andThen_Inr [where m = "private_read ?p ?lim", OF rd]]
  obtain bytes m where f: "found = Some (bytes, m)" using body miss by (cases found) auto
  obtain h where h: "parse_header j bytes = Some h"
    using body miss unfolding f by (cases "parse_header j bytes") simp_all
  have le: "h_schema h \<le> schema inner" using body hit unfolding f by (simp add: h not_less split: if_split_asm)
  have c: "consistent h \<and> h_digest h = digest k \<and> h_namespace h = namespace k"
    using body miss le unfolding f by (simp add: h not_less split: if_split_asm)
  have t: "now_ms w2 \<le> h_stale_until_ms h"
    using body miss le c unfolding f by (simp add: h not_less split: if_split_asm)
  obtain v where v: "parse_value j bytes = Some v"
    using body miss le c t unfolding f by (cases "parse_value j bytes") (auto simp: h not_less split: if_split_asm)
  show thesis using that [OF dir rd [unfolded f] h le _ _ _ t v] c by blast
qed



text \<open>What a lookup does in a cache nobody else touches: it returns what the header, the value,
  the schema, the clock and the limits decide, and the only names it removes are those at the
  entry's own path, when the key is locked and the entry is corrupt, mismatched or expired. In
  particular an entry of a newer schema stays, even under the lock.\<close>

theorem lookup_effect:
  assumes "ready inner w"
  shows "\<exists>w'. cache_read j inner k locked w = (Inr (verdict_lookup (verdict_on j inner k (fs w))), w')
    \<and> (\<forall>p. ino_at (fs w') p =
        (if locked \<and> verdict_on j inner k (fs w) = Discard \<and> p \<in> names_of (fs w) (entry_path inner (digest k))
         then None else ino_at (fs w) p))
    \<and> locks (fs w') = locks (fs w)"
proof -
  let ?v = "verdict_on j inner k (fs w)" and ?p = "entry_path inner (digest k)"
  obtain s where s: "cache_read j inner k locked w = (Inr (verdict_lookup ?v), w\<lparr>fs := s\<rparr>)"
    and e: "verdict_effect ?v locked ?p (at (now_ms w)) (fs w) s"
    using cache_read_calm [OF assms, of j k locked] by blast
  have "(\<forall>p. ino_at s p = (if locked \<and> ?v = Discard \<and> p \<in> names_of (fs w) ?p then None else ino_at (fs w) p))
    \<and> locks s = locks (fs w)"
  proof (cases ?v)
    case Discard
    with e have "reduced (if locked then names_of (fs w) ?p else {}) (fs w) s" by (simp add: verdict_effect_def)
    with Discard show ?thesis by (auto simp: reduced_ino_at) (simp add: reduced_def)
  next
    case Ignore
    with e have "reduced {} (fs w) s" by (simp add: verdict_effect_def)
    with Ignore show ?thesis by (auto simp: reduced_ino_at) (simp add: reduced_def)
  next
    case (Serve r t)
    show ?thesis
    proof (cases t)
      case True
      with e Serve obtain i where "reduced {} (set_node i ((inodes (fs w) i)\<lparr>mtime := at (now_ms w)\<rparr>) (fs w)) s"
        by (auto simp: verdict_effect_def touched_def)
      with Serve show ?thesis by (auto simp: reduced_ino_at) (simp add: reduced_def)
    next
      case False
      with e Serve have "reduced {} (fs w) s" by (simp add: verdict_effect_def)
      with Serve show ?thesis by (auto simp: reduced_ino_at) (simp add: reduced_def)
    qed
  qed
  with s show ?thesis by (intro exI [of _ "w\<lparr>fs := s\<rparr>"]) simp
qed

lemma sample_verdict: "verdict_on sample_serde sample_inner sample_key sample_os = Discard"
  by (simp add: verdict_on_def regular_at_def metadata_at_def sample_absent read_result_def judge_def)

lemma lookup_effect_witness:
  "\<exists>w'. cache_read sample_serde sample_inner sample_key True sample_world = (Inr Miss, w')
    \<and> locks (fs w') = []"
  using lookup_effect [OF sample_ready, of sample_serde sample_key True]
  by (auto simp: sample_world_def sample_verdict verdict_lookup_def) (auto simp: sample_os_def)

section \<open>Writing\<close>

text \<open>C2: A write is all or nothing. Whichever of its system calls fail, and however many, the
  entry's name leads afterwards to what it led to before, or to a file of this user that holds
  exactly the new bytes, stamped with the cache's clock; and when the write returns success it
  is the new file. A process that dies in the middle is one whose remaining calls all fail.\<close>

theorem write_is_atomic:
  assumes "failures_only w" and "wf_os (fs w)"
    and "write_atomic rnd inner d bytes w = (r, w')"
  shows "(content_at (fs w') (entry_path inner d) = content_at (fs w) (entry_path inner d) \<and> r \<noteq> Inr ())
    \<or> content_at (fs w') (entry_path inner d) = Some (Regular, euid w, at (now_ms w), bytes)"
proof -
  let ?q = "entry_path inner d" and ?c = "clock (fs w)" and ?u = "euid w"
  note t = write_atomic_failing [of ?u inner d ?c "content_at (fs w) ?q" rnd bytes]
  have pre: "failing ?u (untouched ?q ?c (content_at (fs w) ?q)) w"
    using assms(1,2) by (simp add: failing_def untouched_def)
  show ?thesis
  proof (cases r)
    case (Inr x)
    from triple_Inr [OF t pre] assms(3) Inr have "failing ?u (replaced ?q ?c ?u bytes) w'" by simp
    then show ?thesis by (simp add: failing_def replaced_def now_ms_def)
  next
    case (Inl e)
    from triple_Inl [OF t pre] assms(3) Inl
    have "failing ?u (\<lambda>s. untouched ?q ?c (content_at (fs w) ?q) s \<or> replaced ?q ?c ?u bytes s) w'" by simp
    with Inl show ?thesis by (auto simp: failing_def replaced_def untouched_def now_ms_def)
  qed
qed

lemma write_is_atomic_witness:
  "\<exists>r w'. write_atomic ''x'' sample_inner ''d'' [1] (sample_world\<lparr>script := [(id, None), (id, Some OtherKind)]\<rparr>) = (r, w')
    \<and> content_at (fs w') (entry_path sample_inner ''d'') \<in> {None, Some (Regular, 7, at 1000, [1])}"
proof -
  let ?w = "sample_world\<lparr>script := [(id, None), (id, Some OtherKind)]\<rparr>"
  obtain r w' where m: "write_atomic ''x'' sample_inner ''d'' [1] ?w = (r, w')"
    by (cases "write_atomic ''x'' sample_inner ''d'' [1] ?w")
  have "failures_only ?w" by (simp add: failures_only_def)
  moreover have "wf_os (fs ?w)" using sample_ready by (simp add: ready_def)
  moreover have "content_at (fs ?w) (entry_path sample_inner ''d'') = None"
    by (simp add: content_at_def node_at_def sample_absent sample_world_def)
  ultimately show ?thesis
    using write_is_atomic [OF _ _ m] m by (auto simp: sample_world_def sample_os_def now_ms_def)
qed

text \<open>C3: What was stored is what is looked up. In a cache nobody else touches, a caller that locks
  a key and stores a value gets \<open>Written\<close>; and when the store needed no maintenance, a lookup of
  that key at any later or earlier clock gives back that value with its age: \<open>Fresh\<close> up to the
  fresh horizon, \<open>Stale\<close> up to the stale horizon, then \<open>Miss\<close>.\<close>

theorem stored_is_looked_up:
  assumes "ready inner w" and "\<not> excl_locked (fs w) (maintenance_path inner)"
    and "\<not> key_busy inner (fs w) (digest k)"
    and "ino_at (fs w) (temp_path inner (digest k) rnd) = None"
    and "map_option kind (node_at (fs w) (entry_path inner (digest k))) \<noteq> Some Directory"
    and "e = entry_to_write inner k pol (now_ms w) v" and "to_vec j e = Some bytes" and "reads_back j"
    and "length bytes < 2 ^ 64" and "\<not> u64_or_max (length bytes) > max_entry_bytes (i_limits inner)"
    and "cache_lock inner k w = (Inr kl, w1)"
  shows "\<exists>mt w2. store rnd j kl v pol w1 = (Inr (Written mt), w2)
    \<and> (mt = NotNeeded \<longrightarrow>
        fst (cache_lookup j inner k (w2\<lparr>fs := (fs w2)\<lparr>clock := t\<rparr>\<rparr>)) = Inr (lookup_at e t))"
  using assms by (rule store_lookup)

lemma stored_is_looked_up_witness:
  "\<exists>kl w1 mt w2. cache_lock sample_inner sample_key sample_world = (Inr kl, w1)
    \<and> store ''x'' sample_serde kl 5 sample_policy w1 = (Inr (Written mt), w2)"
proof -
  obtain kl s where kl: "cache_lock sample_inner sample_key sample_world = (Inr kl, sample_world\<lparr>fs := s\<rparr>)"
    using cache_lock_calm [OF sample_ready, of sample_key] sample_unlocked by (auto simp: sample_world_def)
  have "\<exists>mt w2. store ''x'' sample_serde kl 5 sample_policy (sample_world\<lparr>fs := s\<rparr>) = (Inr (Written mt), w2)
      \<and> (mt = NotNeeded \<longrightarrow> fst (cache_lookup sample_serde sample_inner sample_key
        (w2\<lparr>fs := (fs w2)\<lparr>clock := 0\<rparr>\<rparr>)) = Inr (lookup_at (entry_to_write sample_inner sample_key sample_policy 1000 5) 0))"
  proof (rule stored_is_looked_up [OF sample_ready _ _ _ _ _ sample_to_vec sample_reads_back _ _ kl])
    show "\<not> excl_locked (fs sample_world) (maintenance_path sample_inner)"
      "\<not> key_busy sample_inner (fs sample_world) (digest sample_key)"
      by (simp_all add: sample_unlocked sample_world_def)
    show "ino_at (fs sample_world) (temp_path sample_inner (digest sample_key) ''x'') = None"
      "map_option kind (node_at (fs sample_world) (entry_path sample_inner (digest sample_key))) \<noteq> Some Directory"
      by (simp_all add: sample_absent sample_world_def node_at_def)
    show "entry_to_write sample_inner sample_key sample_policy 1000 5 =
        entry_to_write sample_inner sample_key sample_policy (now_ms sample_world) 5"
      by (simp add: now_ms_def sample_world_def sample_os_def)
    show "length sample_bytes < 2 ^ 64" by (simp add: length_sample_bytes)
    show "\<not> u64_or_max (length sample_bytes) > max_entry_bytes (i_limits sample_inner)"
      by (simp add: length_sample_bytes u64_or_max_def sample_inner_def default_limits_def)
  qed
  with kl show ?thesis by blast
qed

text \<open>A store refuses before it writes: whatever interferes, it reports \<open>TooLarge\<close> with the
  serialized size exactly when that is over the limit, and \<open>Encode\<close> exactly when the value does
  not serialize, and in both cases it has done nothing but release the lock.\<close>

theorem store_refuses_unwritten:
  defines "entry v pol w kl \<equiv> entry_to_write (kl_inner kl) (kl_key kl) pol (now_ms w) v"
  assumes "store rnd j kl v pol w = (r, w')"
  shows "(r = Inr (TooLarge n) \<longrightarrow> (\<exists>bytes. to_vec j (entry v pol w kl) = Some bytes
        \<and> n = u64_or_max (length bytes) \<and> n > max_entry_bytes (i_limits (kl_inner kl)))
        \<and> w' = drop_key_lock kl w)
    \<and> (to_vec j (entry v pol w kl) = None \<longrightarrow> r = Inl (Err Encode) \<and> w' = drop_key_lock kl w)
    \<and> (\<forall>mt. r = Inr (Written mt) \<longrightarrow> (\<exists>bytes. to_vec j (entry v pol w kl) = Some bytes
        \<and> u64_or_max (length bytes) \<le> max_entry_bytes (i_limits (kl_inner kl))))"
  using assms(2)
  by (auto simp: store_def entry_def Let_def not_less andThen_def scoped_def
      split: option.splits if_split_asm prod.splits sum.splits stop.splits)

lemma store_refuses_unwritten_witness:
  "\<exists>kl w'. store ''x'' (sample_serde\<lparr>json_value := (\<lambda>_. None)\<rparr>) kl 5 sample_policy sample_world =
    (Inl (Err Encode), w')"
proof -
  let ?j = "sample_serde\<lparr>json_value := (\<lambda>_. None)\<rparr>"
    and ?kl = "\<lparr>kl_inner = sample_inner, kl_key = sample_key, kl_held = \<lparr>h_path = [], h_file = \<lparr>fd = 0, f_ino = 0\<rparr>\<rparr>,
      kl_maintenance = \<lparr>fd = 0, f_ino = 0\<rparr>\<rparr>"
  obtain r w' where st: "store ''x'' ?j ?kl 5 sample_policy sample_world = (r, w')"
    by (cases "store ''x'' ?j ?kl 5 sample_policy sample_world")
  have "to_vec ?j e = None" for e by (simp add: to_vec_def)
  with store_refuses_unwritten [OF st] st show ?thesis by blast
qed

text \<open>Horizons saturate and never cross: the horizons written with an entry are the clock plus
  the policy's durations, each sum stopping at the largest 64-bit number, so a header just
  written is always consistent, however long the durations are.\<close>

theorem horizons_saturate:
  fixes now :: u64 and inner :: inner and k :: key and pol :: policy and v :: 'v
  defines "e \<equiv> entry_to_write inner k pol now v"
  shows "unat (h_fresh_until_ms e) = min (unat now + min (as_millis (fresh pol)) (2 ^ 64 - 1)) (2 ^ 64 - 1)
    \<and> unat (h_stale_until_ms e) =
        min (unat (h_fresh_until_ms e) + min (as_millis (stale_if_error pol)) (2 ^ 64 - 1)) (2 ^ 64 - 1)
    \<and> h_stored_at_ms e = now \<and> consistent (header_of e)"
  using entry_to_write_consistent [of inner k pol now v]
  by (simp add: e_def entry_to_write_def Let_def millis_def sat_simps)

end
