(* ===== verification/Prune_Properties.thy ===== *)
theory Prune_Properties
  imports Header_Properties
begin

text \<open>
  Properties of \<open>prune\<close> in a cache nobody else touches: what it removes and reports, what it
  never removes, the order in which it evicts, and that it waits or refuses exactly when
  another maintenance runs.
\<close>

section \<open>What goes\<close>

lemma stamped_ino_at: "stamped i t D s s' \<Longrightarrow> ino_at s' p = (if p \<in> D then None else ino_at s p)"
  by (auto simp: stamped_def reduced_ino_at)

lemma stamped_data: "stamped i t D s s' \<Longrightarrow> n < next_ino s \<Longrightarrow> data (inodes s' n) = data (inodes s n)"
  by (auto simp: stamped_def reduced_def)

text \<open>C5: A prune that is let run does what it reports, in either way of waiting: it returns the
  outcome computed from the state in which it started, removes exactly the names \<open>prune_names\<close>
  gives, namely key locks nobody holds, leftover temporary files, expired, invalid and unused
  entries and the evicted ones, changes the content of no file, releases every lock it took, and
  stamps \<open>prune.lock\<close>.\<close>

theorem prune_runs:
  assumes "ready inner w" and "\<not> blocked inner (fs w)"
  shows "\<exists>w'. prune j inner wt w = (Inr (prune_result j inner (fs w)), w')
    \<and> (\<forall>p. ino_at (fs w') p = (if p \<in> prune_names j inner (fs w) then None else ino_at (fs w) p))
    \<and> {n. n < next_ino (fs w) \<and> data (inodes (fs w') n) \<noteq> data (inodes (fs w) n)} = {}
    \<and> locks (fs w') = locks (fs w)"
proof -
  obtain s i where "prune j inner wt w = (Inr (prune_result j inner (fs w)), w\<lparr>fs := s\<rparr>)"
    and st: "stamped i (at (clock (fs w))) (prune_names j inner (fs w)) (fs w) s"
    using prune_calm_free [OF assms, of j wt] by blast
  moreover from st have "locks s = locks (fs w)" by (simp add: stamped_def reduced_def)
  ultimately show ?thesis
    using stamped_ino_at [OF st] stamped_data [OF st] by (intro exI [of _ "w\<lparr>fs := s\<rparr>"]) simp
qed

lemma sample_unblocked: "\<not> blocked sample_inner sample_os"
  by (simp add: blocked_def sample_unlocked)

lemma prune_runs_witness:
  "\<exists>w'. prune sample_serde sample_inner Skip sample_world = (Inr (prune_result sample_serde sample_inner sample_os), w')
    \<and> locks (fs w') = []"
  using prune_runs [OF sample_ready, of sample_serde Skip] sample_unblocked
  by (auto simp: sample_world_def) (auto simp: sample_os_def)


definition sample_pruning :: world where
  "sample_pruning = sample_world\<lparr>fs := sample_os\<lparr>locks := [(0, 5, Exclusive)], next_fd := 1\<rparr>\<rparr>"


section \<open>What stays\<close>

lemma prune_names_entry:
  assumes wf: "wf_os s" and p: "child_of (entries_dir inner) p"
    and gone: "p \<in> prune_names j inner s"
  shows "p \<in> fate_names s p (fate j inner (clock s) s p)
    \<or> p \<in> evicted_names inner (evictions j inner s)"
proof -
  from gone consider "p \<in> set (free_locks inner s)"
    | q where "q \<in> set (children s (entries_dir inner))" "p \<in> fate_names s q (fate j inner (clock s) s q) \<union> lock_names inner s q"
    | "p \<in> evicted_names inner (evictions j inner s)"
    by (auto simp: prune_names_def swept_def)
  then show ?thesis
  proof cases
    case 1
    with free_locks_off [OF p] show ?thesis by blast
  next
    case 2
    have "p \<notin> lock_names inner s q"
      using entry_child(1) [OF p] by (auto simp: lock_names_def split: option.splits if_splits)
    with 2 sibling [OF children_child [OF 2(1)] p] show ?thesis by (cases "p = q") auto
  qed simp
qed

lemma evictions_survive: "set (evictions j inner s) \<subseteq> set (survivors j inner (clock s) s)"
proof -
  have "set (evicted te tb ks u) \<subseteq> set ks" for te tb ks u
    by (induction te tb ks u rule: evicted.induct) auto
  then show ?thesis by (force simp: evictions_def Let_def)
qed

lemma evicted_names_fate:
  assumes "entry_path inner d \<in> evicted_names inner (evictions j inner s) \<or> lock_path inner d \<in> evicted_names inner (evictions j inner s)"
  shows "\<not> key_busy inner s d \<and> over_cap (i_limits inner) (usage_in inner s)
    \<and> (\<exists>m. fate j inner (clock s) s (entry_path inner d) = Keep m)"
proof -
  from assms obtain k where k: "k \<in> set (evictions j inner s)" "fst (snd k) = d"
    by (force simp: evicted_names_def)
  with evictions_survive have "k \<in> set (survivors j inner (clock s) s)" by blast
  then obtain p where p: "p \<in> set (children s (entries_dir inner))"
    and "kept_of p (fate j inner (clock s) s p) = Some k"
    by (auto simp: survivors_def map_filter_def)
  from kept_of_fate [OF children_child [OF p] this(2)] k(2)
  have "\<not> key_busy inner s d \<and> (\<exists>m. fate j inner (clock s) s (entry_path inner d) = Keep m)" by (metis fst_conv snd_conv)
  moreover from k(1) have "over_cap (i_limits inner) (usage_in inner s)"
    by (auto simp: evictions_def Let_def split: if_splits)
  ultimately show ?thesis by blast
qed

lemma fate_entry_path:
  assumes "is_digest d"
  shows "fate j inner now s (entry_path inner d) =
    (if key_busy inner s d then Leave else entry_fate j inner now s (entry_path inner d))"
proof -
  have "entry_digest (entry_path inner d) = Some d"
    using assms by (simp add: entry_digest_def entry_path_def file_name_def entry_name_def strip_suffix_def ends_with_def)
  moreover have "\<not> is_temporary (entry_path inner d)"
  proof
    assume "is_temporary (entry_path inner d)"
    then have "starts_with ''.'' (d @ ''.json'')" by (simp add: is_temporary_def entry_path_def file_name_def entry_name_def)
    with assms show False
      by (cases d) (auto simp: is_digest_def starts_with_def is_ascii_hexdigit_def)
  qed
  ultimately show ?thesis by (simp add: fate_def)
qed

lemma child_entry_path [simp]: "child_of (entries_dir inner) (entry_path inner d)"
  by (simp add: child_of_def entry_path_def)

lemma kept_stays:
  assumes "wf_os s" and "is_digest d" and cap: "\<not> over_cap (i_limits inner) (usage_in inner s)"
    and m: "regular_at s (entry_path inner d) = Some m" "m_len m \<le> max_entry_bytes (i_limits inner)"
      "live_in j (entry_path inner d) (clock s) (take (unat (max_entry_bytes (i_limits inner))) (data (m_node m)))"
      "saturating_sub (clock s) (modified_ms m) \<le> millis (unused_after (i_limits inner))"
  shows "entry_path inner d \<notin> prune_names j inner s"
proof -
  let ?p = "entry_path inner d"
  have "entry_fate j inner (clock s) s ?p = Keep m"
    using m by (auto simp: entry_fate_def Let_def not_less)
  with fate_entry_path [OF assms(2), of j inner "clock s" s]
  have "fate_names s ?p (fate j inner (clock s) s ?p) = {}" by (simp add: fate_names_def)
  with prune_names_entry [OF assms(1) child_entry_path, of inner d j] cap evicted_names_fate [of inner d j s]
  show ?thesis by auto
qed

lemma held_entry_stays:
  assumes "wf_os s" and "is_digest d" and "key_busy inner s d"
  shows "entry_path inner d \<notin> prune_names j inner s"
  using prune_names_entry [OF assms(1) child_entry_path, of inner d j] assms(3) evicted_names_fate [of inner d j s]
    fate_entry_path [OF assms(2), of j inner "clock s" s]
  by (auto simp: fate_names_def)

lemma held_lock_stays:
  assumes busy: "key_busy inner s d"
  shows "lock_path inner d \<notin> prune_names j inner s"
proof
  assume "lock_path inner d \<in> prune_names j inner s"
  then consider "lock_path inner d \<in> set (free_locks inner s)"
    | q where "q \<in> set (children s (entries_dir inner))" "lock_path inner d \<in> fate_names s q (fate j inner (clock s) s q) \<union> lock_names inner s q"
    | "lock_path inner d \<in> evicted_names inner (evictions j inner s)"
    by (auto simp: prune_names_def swept_def)
  then show False
  proof cases
    case 1
    with busy show False by (simp add: free_locks_def unheld_def)
  next
    case 2
    from entry_child [OF children_child [OF 2(1)]] 2(2) busy fate_names_subset
    show False by (fastforce simp: lock_names_def split: option.splits if_splits)
  next
    case 3
    with busy evicted_names_fate [of inner d j s] show False by blast
  qed
qed


text \<open>The sample cache while somebody holds the sample key.\<close>

definition sample_held :: os where
  "sample_held = sample_os\<lparr>dirents := dirents sample_os @ [(lock_path sample_inner (digest sample_key), 6)],
     locks := [(0, 6, Exclusive)], next_ino := 7, next_fd := 1\<rparr>"


text \<open>C12: A prune leaves no dead entry behind: whatever entry file of a key nobody holds is still
  there after a prune that ran is a regular file of at most the largest size, whose header is
  consistent, carries the digest of its name and has not passed its stale horizon, and which was
  used within \<open>unused_after\<close>.\<close>

theorem prune_leaves_only_live:
  assumes "ready inner w" and "prune j inner wt w = (Inr out, w')" and "\<not> blocked inner (fs w)"
    and "is_digest d" and "\<not> key_busy inner (fs w) d" and "ino_at (fs w') (entry_path inner d) \<noteq> None"
  shows "\<exists>m. regular_at (fs w) (entry_path inner d) = Some m \<and> m_len m \<le> max_entry_bytes (i_limits inner)
    \<and> live_in j (entry_path inner d) (clock (fs w)) (take (unat (max_entry_bytes (i_limits inner))) (data (m_node m)))
    \<and> saturating_sub (clock (fs w)) (modified_ms m) \<le> millis (unused_after (i_limits inner))"
proof -
  let ?p = "entry_path inner d" and ?s = "fs w"
  from assms(1) have wf: "wf_os ?s" by (simp add: ready_def)
  obtain s i where "prune j inner wt w = (Inr (prune_result j inner ?s), w\<lparr>fs := s\<rparr>)"
    and st: "stamped i (at (clock ?s)) (prune_names j inner ?s) ?s s"
    using prune_calm_free [OF assms(1,3), of j wt] by blast
  with assms(2,6) have p: "?p \<notin> prune_names j inner ?s" "ino_at ?s ?p \<noteq> None"
    by (auto simp: stamped_ino_at split: if_splits)
  then have ch: "?p \<in> set (children ?s (entries_dir inner))" by (simp add: children_ino_at [OF wf])
  with p(1) have none: "?p \<notin> fate_names ?s ?p (fate j inner (clock ?s) ?s ?p)"
    by (auto simp: prune_names_def swept_def)
  have fate: "fate j inner (clock ?s) ?s ?p = entry_fate j inner (clock ?s) ?s ?p"
    using assms(5) by (subst fate_entry_path [OF assms(4)]) simp
  have "?p \<in> names_of ?s ?p" by (simp add: names_of_def under_def)
  with none fate obtain m where "entry_fate j inner (clock ?s) ?s ?p = Keep m"
    by (auto simp: fate_names_def entry_fate_def Let_def split: option.splits if_splits)
  then show ?thesis by (auto simp: entry_fate_def Let_def not_less split: option.splits if_splits)
qed

lemma prune_leaves_only_live_witness:
  "\<exists>m. regular_at (fs sample_full) (entry_path sample_inner (digest sample_key)) = Some m
    \<and> m_len m \<le> max_entry_bytes (i_limits sample_inner)"
proof -
  let ?p = "entry_path sample_inner (digest sample_key)" and ?s = "fs sample_full"
  have s: "?s = sample_stored" "clock ?s = 1000" by (simp_all add: sample_full_def sample_stored_def sample_os_def)
  have free: "lock_busy sample_stored q = False" "excl_locked sample_stored q = False" for q
    by (simp_all add: lock_busy_def excl_locked_def sample_stored_def sample_os_def split: option.split)
  have nb: "\<not> blocked sample_inner ?s" "\<not> key_busy sample_inner ?s (digest sample_key)"
    by (simp_all add: blocked_def s(1) free)
  have wf: "wf_os ?s" using sample_full_ready by (simp add: ready_def)
  let ?m = "\<lparr>m_ino = 6, m_node = sample_file\<lparr>mtime := at 1000, data := sample_bytes\<rparr>\<rparr>"
  have reg: "regular_at ?s ?p = Some ?m"
    unfolding s(1) by (simp add: regular_at_def metadata_at_def sample_stored_ino is_file_def)
      (simp add: sample_stored_def sample_file_def)
  have ch: "children ?s (entries_dir sample_inner) = [?p]"
    unfolding s(1) by (simp add: children_def sample_stored_def sample_os_def child_of_def entries_dir_def sample_inner_def
        sample_paths entry_path_def)
  have cap: "\<not> over_cap (i_limits sample_inner) (usage_in sample_inner ?s)"
  proof -
    have "entry_digest ?p = Some (digest sample_key)"
      using sample_digest by (simp add: entry_digest_def entry_path_def file_name_def entry_name_def
        strip_suffix_def ends_with_def)
    then have "usage_in sample_inner ?s = \<lparr>u_entries = 1, u_bytes = 478\<rparr>"
      by (simp add: usage_in_def ch entry_files_def reg map_filter_simps add_usage_def m_len_def
          length_sample_bytes u64_or_max_def saturating_add_def)
    then show ?thesis by (simp add: over_cap_def sample_inner_def default_limits_def)
  qed
  have len: "m_len ?m \<le> max_entry_bytes (i_limits sample_inner)"
    by (simp add: m_len_def length_sample_bytes u64_or_max_def sample_inner_def default_limits_def)
  have live: "live_in sample_serde ?p (clock ?s) (take (unat (max_entry_bytes (i_limits sample_inner))) (data (m_node ?m)))"
  proof -
    from header_in_stored [OF sample_plain sample_reads_header sample_to_vec]
    have "header_in sample_serde sample_bytes = Some (header_of (entry_to_write sample_inner sample_key sample_policy 1000 (5 :: u64)))" .
    moreover have "entry_digest ?p = Some (digest sample_key)"
      using sample_digest by (simp add: entry_digest_def entry_path_def file_name_def entry_name_def
        strip_suffix_def ends_with_def)
    moreover have "take (unat (max_entry_bytes (i_limits sample_inner))) sample_bytes = sample_bytes"
      using sample_fits by simp
    moreover note entry_to_write_consistent [of sample_inner sample_key sample_policy 1000 "5 :: u64"] sample_stale
    ultimately show ?thesis
      by (simp add: live_in_def s(2) header_of_def header.truncate_def) (simp add: entry_to_write_def Let_def)
  qed
  have "saturating_sub (clock ?s) (modified_ms ?m) \<le> millis (unused_after (i_limits sample_inner))"
    by (simp add: s(2) modified_ms_def at_def u64_or_max_def saturating_sub_def)
  from kept_stays [OF wf sample_digest cap reg len live this]
  have stays: "?p \<notin> prune_names sample_serde sample_inner ?s" .
  obtain s' i where run: "prune sample_serde sample_inner Skip sample_full =
      (Inr (prune_result sample_serde sample_inner ?s), sample_full\<lparr>fs := s'\<rparr>)"
    and st: "stamped i (at (clock ?s)) (prune_names sample_serde sample_inner ?s) ?s s'"
    using prune_calm_free [OF sample_full_ready nb(1), of sample_serde Skip] by blast
  have "ino_at (fs (sample_full\<lparr>fs := s'\<rparr>)) ?p \<noteq> None"
    using stays stamped_ino_at [OF st, of ?p] by (simp add: s(1) sample_stored_ino)
  from prune_leaves_only_live [OF sample_full_ready run nb(1) sample_digest nb(2) this] show ?thesis by blast
qed

section \<open>The order of evictions\<close>

definition reached :: "u64 \<Rightarrow> u64 \<Rightarrow> usage \<Rightarrow> bool" where
  "reached te tb u \<longleftrightarrow> u_entries u \<le> te \<and> u_bytes u \<le> tb"

lemma usage_after_Cons: "usage_after ((a, d, sz) # ks) u = usage_after ks (usage_remove sz u)"
  by (simp add: usage_after_def)

lemma evicted_prefix:
  "\<exists>n. evicted te tb ks u = take n ks \<and> n \<le> length ks
    \<and> (n = length ks \<or> reached te tb (usage_after (take n ks) u))
    \<and> (\<forall>m < n. \<not> reached te tb (usage_after (take m ks) u))"
proof (induction te tb ks u rule: evicted.induct)
  case (1 te tb u)
  then show ?case by simp
next
  case (2 te tb a d sz ks u)
  show ?case
  proof (cases "reached te tb u")
    case True
    then show ?thesis by (intro exI [of _ 0]) (simp add: reached_def usage_after_def)
  next
    case False
    then obtain n where n: "evicted te tb ks (usage_remove sz u) = take n ks" "n \<le> length ks"
      "n = length ks \<or> reached te tb (usage_after (take n ks) (usage_remove sz u))"
      "\<forall>m < n. \<not> reached te tb (usage_after (take m ks) (usage_remove sz u))"
      using 2 by (auto simp: reached_def)
    have "\<not> reached te tb (usage_after (take m ((a, d, sz) # ks)) u)" if "m < Suc n" for m
      using that n(4) False by (cases m) (auto simp: usage_after_def)
    with n(1-3) False show ?thesis
      by (intro exI [of _ "Suc n"]) (simp add: reached_def usage_after_Cons)
  qed
qed


end
