(* ===== verification/Opening.thy ===== *)
theory Opening
  imports Writing
begin

text \<open>
  Opening a cache where nobody interferes: \<open>with_clock\<close> makes what is missing, sets the modes
  of what is there, and ends in the state \<open>ready\<close> that the operations start from.
  \<open>settled X s s'\<close> is the effect of each of its steps: only the names in \<open>X\<close> are made, or lead
  to a file whose mode or times changed.
\<close>

section \<open>Steps that settle a name\<close>

definition own_dir :: "world \<Rightarrow> path \<Rightarrow> bool" where
  "own_dir w p \<longleftrightarrow> (\<exists>i. ino_at (fs w) p = Some i \<and> kind (inodes (fs w) i) = Directory
     \<and> uid (inodes (fs w) i) = euid w)"

definition own_file :: "world \<Rightarrow> path \<Rightarrow> bool" where
  "own_file w p \<longleftrightarrow> (\<exists>i. ino_at (fs w) p = Some i \<and> kind (inodes (fs w) i) = Regular
     \<and> uid (inodes (fs w) i) = euid w)"

definition settled :: "path set \<Rightarrow> os \<Rightarrow> os \<Rightarrow> bool" where
  "settled X s s' \<longleftrightarrow> wf_os s' \<and> locks s' = locks s \<and> clock s' = clock s \<and> next_fd s \<le> next_fd s'
     \<and> (\<forall>p. p \<notin> X \<longrightarrow> ino_at s' p = ino_at s p)
     \<and> (\<forall>p i. p \<notin> X \<longrightarrow> ino_at s p = Some i \<longrightarrow> inodes s' i = inodes s i)"

lemma settledD:
  "settled X s s' \<Longrightarrow> wf_os s'" "settled X s s' \<Longrightarrow> locks s' = locks s" "settled X s s' \<Longrightarrow> clock s' = clock s"
  "settled X s s' \<Longrightarrow> next_fd s \<le> next_fd s'" "settled X s s' \<Longrightarrow> p \<notin> X \<Longrightarrow> ino_at s' p = ino_at s p"
  by (simp_all add: settled_def)

lemma settled_refl: "wf_os s \<Longrightarrow> settled X s s"
  by (simp add: settled_def)

lemma settled_trans: "settled X s s' \<Longrightarrow> settled Y s' s'' \<Longrightarrow> settled (X \<union> Y) s s''"
  by (auto simp: settled_def)

lemma settled_same:
  assumes "settled X (fs w) s" and "p \<notin> X"
  shows "private_dir (w\<lparr>fs := s\<rparr>) p = private_dir w p" "private_file (w\<lparr>fs := s\<rparr>) p = private_file w p"
    "own_dir (w\<lparr>fs := s\<rparr>) p = own_dir w p" "own_file (w\<lparr>fs := s\<rparr>) p = own_file w p"
  using assms by (auto simp: settled_def private_dir_def private_file_def own_dir_def own_file_def)

lemma settled_set_node:
  assumes "wf_os s" and "ino_at s p = Some i"
  shows "settled {p} s (set_node i m s)"
  using assms wf_ino_inj [OF assms(1)] by (auto simp: settled_def wf_set_node)

lemma settled_add_node:
  assumes "wf_os s" and "ino_at s p = None"
  shows "settled {p} s (add_node p m s)"
  using assms wf_ino_less [OF assms(1)]
  by (fastforce simp: settled_def wf_add_node ino_at_add_node split: option.split)

lemma settled_next_fd: "settled X s s' \<Longrightarrow> next_fd s' \<le> n \<Longrightarrow> settled X s (s'\<lparr>next_fd := n\<rparr>)"
  by (fastforce simp: settled_def wf_os_def)

section \<open>Directories\<close>

lemma own_dir_mode:
  assumes "calm w" and "wf_os (fs w)" and "own_dir w p"
  shows "\<exists>s. set_mode p mode_dir w = (Inr (), w\<lparr>fs := s\<rparr>) \<and> settled {p} (fs w) s \<and> private_dir (w\<lparr>fs := s\<rparr>) p"
proof -
  obtain i where i: "ino_at (fs w) p = Some i" "kind (inodes (fs w) i) = Directory" "uid (inodes (fs w) i) = euid w"
    using assms(3) by (auto simp: own_dir_def)
  let ?s = "set_node i ((inodes (fs w) i)\<lparr>mode := mode_dir\<rparr>) (fs w)"
  have "set_mode p mode_dir w = (Inr (), w\<lparr>fs := ?s\<rparr>)"
    using assms(1) i by (simp add: set_mode_def set_permissions_def io_def sys_calm chmod_os_def resolve_dir map_err_def)
  moreover have "private_dir (w\<lparr>fs := ?s\<rparr>) p" using i by (simp add: private_dir_def)
  ultimately show ?thesis using settled_set_node [OF assms(2) i(1)] by blast
qed

lemma made_dir:
  assumes "wf_os (fs w)" and "ino_at (fs w) p = None"
  shows "own_dir (w\<lparr>fs := add_node p (new_node Directory (euid w) m (fs w)) (fs w)\<rparr>) p"
  using assms by (simp add: own_dir_def ino_at_add_node new_node_def)

lemma ensure_dir_makes:
  assumes "calm w" and "wf_os (fs w)"
    and "own_dir w p \<or> ino_at (fs w) p = None \<and> own_dir w (butlast p)"
  shows "\<exists>s. ensure_dir p w = (Inr (), w\<lparr>fs := s\<rparr>) \<and> settled {p} (fs w) s \<and> private_dir (w\<lparr>fs := s\<rparr>) p"
proof (cases "own_dir w p")
  case True
  have "ensure_dir p w = set_mode p mode_dir w"
    using assms(1) True by (subst ensure_dir.simps) (auto simp: own_dir_def calm_simps is_dir_def owned_def)
  then show ?thesis using own_dir_mode [OF assms(1,2) True] by simp
next
  case False
  with assms(3) have p: "ino_at (fs w) p = None" "own_dir w (butlast p)" by auto
  let ?s = "add_node p (new_node Directory (euid w) (511 AND NOT (umask w)) (fs w)) (fs w)"
  have "parent_error (fs w) p = None" using p(2) by (auto simp: parent_error_def own_dir_def node_at_def)
  then have "create_dir p w = (Inr (), w\<lparr>fs := ?s\<rparr>)"
    using assms(1) p(1) by (simp add: create_dir_def sys_calm mkdir_os_def)
  then have "ensure_dir p w = set_mode p mode_dir (w\<lparr>fs := ?s\<rparr>)"
    using assms(1) p(1) by (subst ensure_dir.simps) (simp add: calm_simps)
  moreover have "calm (w\<lparr>fs := ?s\<rparr>)" "wf_os (fs (w\<lparr>fs := ?s\<rparr>))" "own_dir (w\<lparr>fs := ?s\<rparr>) p"
    using assms(1) wf_add_node [OF assms(2) p(1)] made_dir [OF assms(2) p(1)] by simp_all
  from own_dir_mode [OF this] obtain s where
    "set_mode p mode_dir (w\<lparr>fs := ?s\<rparr>) = (Inr (), w\<lparr>fs := s\<rparr>)" "settled {p} ?s s" "private_dir (w\<lparr>fs := s\<rparr>) p"
    by auto
  ultimately show ?thesis
    using settled_trans [OF settled_add_node [OF assms(2) p(1)], where Y = "{p}"] by auto
qed

text \<open>The root: its own directory, or missing below directories that exist\<close>

definition root_openable :: "world \<Rightarrow> path \<Rightarrow> bool" where
  "root_openable w r \<longleftrightarrow> own_dir w r \<or> r \<noteq> [] \<and> ino_at (fs w) r = None
     \<and> (\<forall>n < length r. map_option kind (node_at (fs w) (take n r)) = Some Directory)"

lemma mkdirs_existing:
  "\<forall>q \<in> set ps. map_option kind (node_at s q) = Some Directory \<Longrightarrow>
     mkdirs_os u m (ps @ qs) s = mkdirs_os u m qs s"
  by (induction ps) (auto split: option.split)

lemma ensure_root_makes:
  assumes calm: "calm w" and wf: "wf_os (fs w)" and r: "root_openable w r"
  shows "\<exists>s. ensure_root r w = (Inr (), w\<lparr>fs := s\<rparr>) \<and> settled {r} (fs w) s \<and> private_dir (w\<lparr>fs := s\<rparr>) r"
proof -
  have validate: "validate_root r v = set_mode r mode_dir v" if "calm v" "own_dir v r" for v
    using that by (auto simp: validate_root_def own_dir_def calm_simps is_dir_def owned_def)
  show ?thesis
  proof (cases "own_dir w r")
    case True
    then have "ensure_root r w = validate_root r w"
      using calm by (auto simp: ensure_root_def own_dir_def calm_simps)
    then show ?thesis using own_dir_mode [OF calm wf True] validate [OF calm True] by simp
  next
    case False
    with r have missing: "r \<noteq> []" "ino_at (fs w) r = None"
      and above: "\<forall>n < length r. map_option kind (node_at (fs w) (take n r)) = Some Directory"
      by (auto simp: root_openable_def)
    let ?s = "add_node r (new_node Directory (euid w) (511 AND NOT (umask w)) (fs w)) (fs w)"
    have "butlast r = take (length r - 1) r" by (rule butlast_conv_take)
    with above missing(1) have "map_option kind (node_at (fs w) (butlast r)) = Some Directory" by simp
    then have parent: "parent_error (fs w) r = None" by (auto simp: parent_error_def)
    have "prefixes_of r = map (\<lambda>n. take n r) [0..<length r] @ [r]" by (simp add: prefixes_of_def)
    then have "mkdirs_os (euid w) (511 AND NOT (umask w)) (prefixes_of r) (fs w) = (Inr (), ?s)"
      using above missing(2) parent mkdirs_existing [of "map (\<lambda>n. take n r) [0..<length r]" "fs w"]
      by (auto simp: node_at_def mkdir_os_def)
    then have "create_dir_all r w = (Inr (), w\<lparr>fs := ?s\<rparr>)"
      using calm by (simp add: create_dir_all_def sys_calm)
    then have "ensure_root r w = validate_root r (w\<lparr>fs := ?s\<rparr>)"
      using calm missing(2) by (simp add: ensure_root_def calm_simps)
    moreover have w': "calm (w\<lparr>fs := ?s\<rparr>)" "wf_os (fs (w\<lparr>fs := ?s\<rparr>))" "own_dir (w\<lparr>fs := ?s\<rparr>) r"
      using calm wf_add_node [OF wf missing(2)] made_dir [OF wf missing(2)] by simp_all
    moreover from own_dir_mode [OF w'] obtain s where
      "set_mode r mode_dir (w\<lparr>fs := ?s\<rparr>) = (Inr (), w\<lparr>fs := s\<rparr>)" "settled {r} ?s s" "private_dir (w\<lparr>fs := s\<rparr>) r"
      by auto
    ultimately show ?thesis
      using settled_trans [OF settled_add_node [OF wf missing(2)], where Y = "{r}"] validate [OF w'(1,3)] by auto
  qed
qed

section \<open>Files\<close>

lemma private_own: "private_dir w p \<Longrightarrow> own_dir w p" "private_file w p \<Longrightarrow> own_file w p"
  by (auto simp: private_dir_def private_file_def own_dir_def own_file_def)

text \<open>Opening a lock file and closing it again\<close>

lemma open_lock_makes:
  assumes calm: "calm w" and wf: "wf_os (fs w)"
    and p: "own_file w p \<or> ino_at (fs w) p = None" and dir: "private_dir w (butlast p)"
  shows "\<exists>f s. open_lock p w = (Inr f, w\<lparr>fs := s\<rparr>) \<and> settled {p} (fs w) s \<and> private_file (w\<lparr>fs := s\<rparr>) p
    \<and> drop_file f (w\<lparr>fs := s\<rparr>) = w\<lparr>fs := s\<rparr>"
proof (cases "ino_at (fs w) p")
  case None
  let ?f = "\<lparr>fd = next_fd (fs w), f_ino = next_ino (fs w)\<rparr>"
  let ?s = "(add_node p (lock_node w) (fs w))\<lparr>next_fd := Suc (next_fd (fs w))\<rparr>"
  have "settled {p} (fs w) ?s" by (rule settled_next_fd [OF settled_add_node [OF wf None]]) simp
  moreover have "private_file (w\<lparr>fs := ?s\<rparr>) p"
    using None by (simp add: private_file_def ino_at_add_node lock_node_def new_node_def)
  moreover have "drop_file ?f (w\<lparr>fs := ?s\<rparr>) = w\<lparr>fs := ?s\<rparr>"
    using wf_locks_filter [OF wf, of "next_fd (fs w)"] by (simp add: drop_file_def)
  ultimately show ?thesis using open_lock_new [OF calm None dir] by blast
next
  case (Some i)
  with p have i: "kind (inodes (fs w) i) = Regular" "uid (inodes (fs w) i) = euid w"
    by (auto simp: own_file_def)
  let ?f = "\<lparr>fd = next_fd (fs w), f_ino = i\<rparr>"
  let ?o = "(fs w)\<lparr>next_fd := Suc (next_fd (fs w))\<rparr>"
  let ?s = "(set_node i ((inodes (fs w) i)\<lparr>mode := mode_file\<rparr>) (fs w))\<lparr>next_fd := Suc (next_fd (fs w))\<rparr>"
  have "open_with lock_flags mode_file p w = (Inr ?f, w\<lparr>fs := ?o\<rparr>)"
    using i Some calm by (simp add: open_with_def sys_calm open_os_def lock_flags_def Let_def)
  moreover have "secure_lock ?f (w\<lparr>fs := ?o\<rparr>) = (Inr ?f, w\<lparr>fs := ?s\<rparr>)"
    using i calm by (subst secure_lock_calm) (simp_all add: set_node_def)
  ultimately have "open_lock p w = (Inr ?f, w\<lparr>fs := ?s\<rparr>)" by (simp add: open_lock_def)
  moreover have "settled {p} (fs w) ?s" by (rule settled_next_fd [OF settled_set_node [OF wf Some]]) simp
  moreover have "private_file (w\<lparr>fs := ?s\<rparr>) p" using Some i by (simp add: private_file_def)
  moreover have "drop_file ?f (w\<lparr>fs := ?s\<rparr>) = w\<lparr>fs := ?s\<rparr>"
    using wf_locks_filter [OF wf, of "next_fd (fs w)"] by (simp add: drop_file_def)
  ultimately show ?thesis by blast
qed

text \<open>The tag: an existing one is left alone, a new one appears whole under its name.\<close>

lemma create_private_makes:
  assumes calm: "calm w" and wf: "wf_os (fs w)" and dir: "private_dir w d"
    and tmp: "ino_at (fs w) (d @ [temp]) = None" and ne: "temp \<noteq> name"
  shows "\<exists>s. create_private temp d name bytes w = (Inr (), w\<lparr>fs := s\<rparr>) \<and> settled {d @ [name]} (fs w) s"
proof (cases "ino_at (fs w) (d @ [name])")
  case (Some i)
  then have "create_private temp d name bytes w = (Inr (), w\<lparr>fs := fs w\<rparr>)"
    using calm by (simp add: create_private_def Let_def calm_simps)
  then show ?thesis using settled_refl [OF wf] by blast
next
  case None
  let ?p = "d @ [temp]" and ?q = "d @ [name]" and ?i = "next_ino (fs w)"
  let ?f = "\<lparr>fd = next_fd (fs w), f_ino = ?i\<rparr>"
  let ?m0 = "new_node Regular (euid w) (write_perm w) (fs w)"
  let ?m1 = "?m0\<lparr>data := bytes, mtime := ktime (fs w)\<rparr>"
  let ?a = "(add_node ?p ?m0 (fs w))\<lparr>next_fd := Suc (next_fd (fs w))\<rparr>"
  let ?b = "set_node ?i ?m1 ?a"
  let ?c = "?b\<lparr>dirents := filter (\<lambda>(r, j). r \<noteq> ?p \<and> r \<noteq> ?q) (dirents ?b) @ [(?q, ?i)]\<rparr>"
  have cn: "create_new ?p w = (Inr ?f, w\<lparr>fs := ?a\<rparr>)"
    using create_new_calm [OF calm tmp] dir by simp
  have wr: "write_all ?f bytes (w\<lparr>fs := ?a\<rparr>) = (Inr (), w\<lparr>fs := ?b\<rparr>)"
    using calm by (simp add: calm_simps new_node_def)
  have ino_b: "ino_at ?b r = (if r = ?p then Some ?i else ino_at (fs w) r)" for r
    using tmp by (simp add: ino_at_add_node split: option.split)
  have wfb: "wf_os ?b" using wf_next_fd [OF wf_add_node [OF wf tmp]] by (simp add: wf_set_node)
  have ino_p: "ino_at ?b ?p = Some ?i" using ino_b [of ?p] by simp
  have dne: "d \<noteq> ?p" by simp
  have "private_dir (w\<lparr>fs := ?b\<rparr>) d"
    using private_same(1) [OF wf, of ?b d] dir ino_b [of d] by simp
  then have parent: "parent_error ?b ?q = None"
    by (auto simp: parent_error_def private_dir_def node_at_def)
  have noq: "ino_at ?b ?q = None" using ino_b [of ?q] None ne by simp
  have rn: "rename_new ?p ?q (w\<lparr>fs := ?b\<rparr>) = (Inr (), w\<lparr>fs := ?c\<rparr>)"
    unfolding rename_new_def using calm ino_p noq parent
    by (simp only: sys_calm calm_update) (simp add: rename_new_os_def rename_os_def node_at_def)
  have ino_c: "ino_at ?c r = (if r = ?q then Some ?i else ino_at (fs w) r)" for r
    using ino_at_rename [OF ino_p, of ?q r] tmp ino_b [of r] ne by auto
  have wfc: "wf_os ?c" using wf_rename [OF wfb ino_p] ne by simp
  have st: "settled {?q} (fs w) ?c"
    unfolding settled_def using wfc ino_c wf_ino_less [OF wf] by auto
  have drop: "drop_file ?f (w\<lparr>fs := ?c\<rparr>) = w\<lparr>fs := ?c\<rparr>"
    using wf_locks_filter [OF wf, of "next_fd (fs w)"] by (simp add: drop_file_def)
  have "create_private temp d name bytes w = (Inr (), w\<lparr>fs := ?c\<rparr>)"
    unfolding create_private_def Let_def symlink_metadata_calm [OF calm] None option.case prod.case sum.case stop.case
      andThen_Inr [where m = "io (create_new ?p)", OF io_calm_Inr [of "create_new ?p", OF cn]]
      io_calm_Inr [of "write_all ?f bytes", OF wr] rn drop by (rule refl)
  with st show ?thesis by blast
qed

lemma touch_settles:
  assumes calm: "calm w" and wf: "wf_os (fs w)" and f: "private_file w p"
  shows "\<exists>s. touch p t w = (Inr (), w\<lparr>fs := s\<rparr>) \<and> settled {p} (fs w) s \<and> private_file (w\<lparr>fs := s\<rparr>) p"
proof -
  obtain i where i: "ino_at (fs w) p = Some i" "kind (inodes (fs w) i) = Regular"
    "uid (inodes (fs w) i) = euid w" "mode (inodes (fs w) i) = mode_file" using f by (auto simp: private_file_def)
  let ?f = "\<lparr>fd = next_fd (fs w), f_ino = i\<rparr>"
  let ?s = "(set_node i ((inodes (fs w) i)\<lparr>mtime := t\<rparr>) (fs w))\<lparr>next_fd := Suc (next_fd (fs w))\<rparr>"
  have "open_with read_flags 0 p w = (Inr ?f, w\<lparr>fs := (fs w)\<lparr>next_fd := Suc (next_fd (fs w))\<rparr>\<rparr>)"
    using i calm by (simp add: open_with_def sys_calm open_os_def read_flags_def Let_def)
  then have "touch p t w = (Inr (), w\<lparr>fs := ?s\<rparr>)"
    using calm wf_locks_filter [OF wf, of "next_fd (fs w)"]
    by (simp add: touch_def calm_simps drop_file_def set_node_def)
  moreover have "settled {p} (fs w) ?s" by (rule settled_next_fd [OF settled_set_node [OF wf i(1)]]) simp
  moreover have "private_file (w\<lparr>fs := ?s\<rparr>) p" using i by (simp add: private_file_def)
  ultimately show ?thesis by blast
qed

section \<open>Opening a cache\<close>

text \<open>
  What is there may be missing or one's own; \<open>temp\<close> is a name nobody has, as \<open>tempfile\<close>
  picks one. An existing \<open>prune.lock\<close> and existing key locks already have their modes, since
  opening does not look into them.
\<close>

definition tag_path :: "inner \<Rightarrow> path" where
  "tag_path inner = root inner @ [cachedir_tag]"

definition openable :: "str \<Rightarrow> inner \<Rightarrow> world \<Rightarrow> bool" where
  "openable temp inner w \<longleftrightarrow> calm w \<and> wf_os (fs w) \<and> root_openable w (root inner)
     \<and> (own_dir w (entries_dir inner) \<or> ino_at (fs w) (entries_dir inner) = None)
     \<and> (own_dir w (locks_dir inner) \<or> ino_at (fs w) (locks_dir inner) = None)
     \<and> (own_file w (maintenance_path inner) \<or> ino_at (fs w) (maintenance_path inner) = None)
     \<and> (private_file w (prune_lock_path inner) \<or> ino_at (fs w) (prune_lock_path inner) = None)
     \<and> (\<forall>p. child_of (locks_dir inner) p \<longrightarrow> ino_at (fs w) p \<noteq> None \<longrightarrow> private_file w p)
     \<and> ino_at (fs w) (root inner @ [temp]) = None
     \<and> temp \<notin> {entries_name, locks_name, maintenance_name, prune_lock_name, cachedir_tag}"

lemmas root_names = entries_dir_def locks_dir_def maintenance_path_def prune_lock_path_def tag_path_def
  entries_name_def locks_name_def maintenance_name_def prune_lock_name_def cachedir_tag_def

lemma root_names_distinct:
  "distinct [root inner, entries_dir inner, locks_dir inner, maintenance_path inner, prune_lock_path inner, tag_path inner]"
  by (simp add: root_names)

text \<open>The last step: a missing \<open>prune.lock\<close> is made and stamped with the cache's clock.\<close>

lemma prune_lock_made:
  assumes calm: "calm w" and wf: "wf_os (fs w)" and p: "private_file w p \<or> ino_at (fs w) p = None"
    and dir: "private_dir w (butlast p)"
  shows "\<exists>s. (case symlink_metadata p w of
         (Inl Pending, w1) \<Rightarrow> (Inl Pending, w1)
       | (Inr _, w1) \<Rightarrow> (Inr x, w1)
       | (Inl (Err _), w1) \<Rightarrow>
           andThen (open_lock p) (\<lambda>f w2.
             let w3 = drop_file f w2 in andThen (touch p (at (now_ms w3))) (\<lambda>_. ok x) w3) w1) = (Inr x, w\<lparr>fs := s\<rparr>)
    \<and> settled {p} (fs w) s \<and> private_file (w\<lparr>fs := s\<rparr>) p"
proof (cases "ino_at (fs w) p")
  case (Some i)
  with p have "private_file w p" by simp
  with Some calm show ?thesis
    by (intro exI [of _ "fs w"]) (simp add: calm_simps settled_refl wf)
next
  case None
  with p have "own_file w p \<or> ino_at (fs w) p = None" by simp
  from open_lock_makes [OF calm wf this dir] obtain f s1 where
    o: "open_lock p w = (Inr f, w\<lparr>fs := s1\<rparr>)" "settled {p} (fs w) s1" "private_file (w\<lparr>fs := s1\<rparr>) p"
    "drop_file f (w\<lparr>fs := s1\<rparr>) = w\<lparr>fs := s1\<rparr>" by blast
  have c1: "calm (w\<lparr>fs := s1\<rparr>)" "wf_os (fs (w\<lparr>fs := s1\<rparr>))" using calm settledD(1) [OF o(2)] by simp_all
  obtain s2 where t: "touch p (at (now_ms (w\<lparr>fs := s1\<rparr>))) (w\<lparr>fs := s1\<rparr>) = (Inr (), w\<lparr>fs := s2\<rparr>)"
    "settled {p} s1 s2" "private_file (w\<lparr>fs := s2\<rparr>) p"
    using touch_settles [OF c1 o(3), of "at (now_ms (w\<lparr>fs := s1\<rparr>))"] by auto
  have "settled {p} (fs w) s2" using settled_trans [OF o(2) t(2)] by simp
  moreover have "symlink_metadata p w = (Inl (Err NotFound), w)" using None calm by (simp add: calm_simps)
  ultimately show ?thesis using o(1,4) t(1,3) by (intro exI [of _ s2]) (simp add: Let_def)
qed

lemma openableD:
  assumes "openable temp inner w"
  shows "calm w" "wf_os (fs w)" "root_openable w (root inner)"
    "own_dir w (entries_dir inner) \<or> ino_at (fs w) (entries_dir inner) = None"
    "own_dir w (locks_dir inner) \<or> ino_at (fs w) (locks_dir inner) = None"
    "own_file w (maintenance_path inner) \<or> ino_at (fs w) (maintenance_path inner) = None"
    "private_file w (prune_lock_path inner) \<or> ino_at (fs w) (prune_lock_path inner) = None"
    "child_of (locks_dir inner) p \<Longrightarrow> ino_at (fs w) p \<noteq> None \<Longrightarrow> private_file w p"
    "ino_at (fs w) (root inner @ [temp]) = None" "temp \<noteq> cachedir_tag"
    "root inner @ [temp] \<notin> {root inner, entries_dir inner, locks_dir inner, maintenance_path inner}"
proof -
  from assms show "calm w" "wf_os (fs w)" "root_openable w (root inner)"
    "own_dir w (entries_dir inner) \<or> ino_at (fs w) (entries_dir inner) = None"
    "own_dir w (locks_dir inner) \<or> ino_at (fs w) (locks_dir inner) = None"
    "own_file w (maintenance_path inner) \<or> ino_at (fs w) (maintenance_path inner) = None"
    "private_file w (prune_lock_path inner) \<or> ino_at (fs w) (prune_lock_path inner) = None"
    "ino_at (fs w) (root inner @ [temp]) = None" "temp \<noteq> cachedir_tag"
    unfolding openable_def by - (elim conjE; simp only: insert_iff de_Morgan_disj simp_thms)+
  from assms show "child_of (locks_dir inner) p \<Longrightarrow> ino_at (fs w) p \<noteq> None \<Longrightarrow> private_file w p"
    unfolding openable_def by (elim conjE) metis
  from assms show "root inner @ [temp] \<notin> {root inner, entries_dir inner, locks_dir inner, maintenance_path inner}"
    by (simp add: openable_def entries_dir_def locks_dir_def maintenance_path_def)
qed

text \<open>One more name settled\<close>

lemma one_settled:
  assumes "settled X (fs w) s" and "settled {q} s s'"
  shows "settled (insert q X) (fs w) s'"
    "p \<noteq> q \<Longrightarrow> private_dir (w\<lparr>fs := s\<rparr>) p \<Longrightarrow> private_dir (w\<lparr>fs := s'\<rparr>) p"
    "p \<noteq> q \<Longrightarrow> private_file (w\<lparr>fs := s\<rparr>) p \<Longrightarrow> private_file (w\<lparr>fs := s'\<rparr>) p"
  using settled_trans [OF assms] settled_same [where w = "w\<lparr>fs := s\<rparr>", simplified, OF assms(2)] by auto

lemma dirs_made:
  assumes open_it: "openable temp inner w"
  obtains s1 s2 s3 where
    "ensure_root (root inner) w = (Inr (), w\<lparr>fs := s1\<rparr>)"
    "ensure_dir (entries_dir inner) (w\<lparr>fs := s1\<rparr>) = (Inr (), w\<lparr>fs := s2\<rparr>)"
    "ensure_dir (locks_dir inner) (w\<lparr>fs := s2\<rparr>) = (Inr (), w\<lparr>fs := s3\<rparr>)"
    "settled {locks_dir inner, entries_dir inner, root inner} (fs w) s3"
    "private_dir (w\<lparr>fs := s3\<rparr>) (root inner)" "private_dir (w\<lparr>fs := s3\<rparr>) (entries_dir inner)"
    "private_dir (w\<lparr>fs := s3\<rparr>) (locks_dir inner)"
proof -
  let ?r = "root inner" and ?E = "entries_dir inner" and ?L = "locks_dir inner"
  note H = openableD [OF open_it]
  have c: "calm (w\<lparr>fs := s\<rparr>)" for s using H(1) by simp
  have ne: "?E \<noteq> ?r" "?L \<noteq> ?r" "?L \<noteq> ?E" "?r \<noteq> ?E" "?r \<noteq> ?L" "?E \<noteq> ?L"
    using root_names_distinct [of inner] by auto
  obtain s1 where s1: "ensure_root ?r w = (Inr (), w\<lparr>fs := s1\<rparr>)" "settled {?r} (fs w) s1"
    "private_dir (w\<lparr>fs := s1\<rparr>) ?r"
    using ensure_root_makes [OF H(1-3)] by blast
  have "own_dir (w\<lparr>fs := s1\<rparr>) ?E \<or> ino_at s1 ?E = None \<and> own_dir (w\<lparr>fs := s1\<rparr>) (butlast ?E)"
    using H(4) ne settled_same(3) [OF s1(2), of ?E] settledD(5) [OF s1(2), of ?E] private_own(1) [OF s1(3)] by simp
  then obtain s2 where s2: "ensure_dir ?E (w\<lparr>fs := s1\<rparr>) = (Inr (), w\<lparr>fs := s2\<rparr>)" "settled {?E} s1 s2"
    "private_dir (w\<lparr>fs := s2\<rparr>) ?E"
    using ensure_dir_makes [OF c, of s1 ?E] settledD(1) [OF s1(2)] by auto
  note k2 = one_settled [OF s1(2) s2(2)]
  have r2: "private_dir (w\<lparr>fs := s2\<rparr>) ?r" using k2(2) ne s1(3) by blast
  have "own_dir (w\<lparr>fs := s2\<rparr>) ?L \<or> ino_at s2 ?L = None \<and> own_dir (w\<lparr>fs := s2\<rparr>) (butlast ?L)"
    using H(5) ne settled_same(3) [OF k2(1), of ?L] settledD(5) [OF k2(1), of ?L] private_own(1) [OF r2] by simp
  then obtain s3 where s3: "ensure_dir ?L (w\<lparr>fs := s2\<rparr>) = (Inr (), w\<lparr>fs := s3\<rparr>)" "settled {?L} s2 s3"
    "private_dir (w\<lparr>fs := s3\<rparr>) ?L"
    using ensure_dir_makes [OF c, of s2 ?L] settledD(1) [OF k2(1)] by auto
  note k3 = one_settled [OF k2(1) s3(2)]
  show thesis
    by (rule that [OF s1(1) s2(1) s3(1) k3(1) _ _ s3(3)]) (use k3(2) r2 s2(3) ne in blast)+
qed

lemma with_clock_calm:
  assumes open_it: "openable temp inner w"
  shows "\<exists>s. with_clock temp (root inner) (schema inner) (i_limits inner) w = (Inr inner, w\<lparr>fs := s\<rparr>)
    \<and> ready inner (w\<lparr>fs := s\<rparr>) \<and> settled (insert (tag_path inner) (fixed_paths inner)) (fs w) s"
proof -
  let ?r = "root inner" and ?E = "entries_dir inner" and ?L = "locks_dir inner"
  let ?M = "maintenance_path inner" and ?P = "prune_lock_path inner" and ?T = "tag_path inner"
  note H = openableD [OF open_it]
  have c: "calm (w\<lparr>fs := s\<rparr>)" for s using H(1) by simp
  have dist: "?M \<noteq> ?r" "?M \<noteq> ?E" "?M \<noteq> ?L" "?T \<noteq> ?r" "?T \<noteq> ?E" "?T \<noteq> ?L" "?T \<noteq> ?M" "?P \<noteq> ?r" "?P \<noteq> ?E" "?P \<noteq> ?L"
    "?P \<noteq> ?M" "?P \<noteq> ?T" using root_names_distinct [of inner] by auto
  obtain s1 s2 s3 where dirs: "ensure_root ?r w = (Inr (), w\<lparr>fs := s1\<rparr>)"
    "ensure_dir ?E (w\<lparr>fs := s1\<rparr>) = (Inr (), w\<lparr>fs := s2\<rparr>)" "ensure_dir ?L (w\<lparr>fs := s2\<rparr>) = (Inr (), w\<lparr>fs := s3\<rparr>)"
    and t3: "settled {?L, ?E, ?r} (fs w) s3"
    and r3: "private_dir (w\<lparr>fs := s3\<rparr>) ?r" "private_dir (w\<lparr>fs := s3\<rparr>) ?E" "private_dir (w\<lparr>fs := s3\<rparr>) ?L"
    by (rule dirs_made [OF open_it])
  have "own_file (w\<lparr>fs := s3\<rparr>) ?M \<or> ino_at s3 ?M = None"
    using H(6) dist settled_same(4) [OF t3, of ?M] settledD(5) [OF t3, of ?M] by simp
  then obtain m s4 where s4: "open_lock ?M (w\<lparr>fs := s3\<rparr>) = (Inr m, w\<lparr>fs := s4\<rparr>)" "settled {?M} s3 s4"
    "private_file (w\<lparr>fs := s4\<rparr>) ?M" "drop_file m (w\<lparr>fs := s4\<rparr>) = w\<lparr>fs := s4\<rparr>"
    using open_lock_makes [OF c, of s3 ?M] settledD(1) [OF t3] r3(1) by auto
  note k4 = one_settled [OF t3 s4(2)]
  have tmp: "ino_at s4 (?r @ [temp]) = None"
    using H(9,11) settledD(5) [OF k4(1), of "?r @ [temp]"] by simp
  have r4: "private_dir (w\<lparr>fs := s4\<rparr>) ?r" by (rule k4(2); (rule dist [symmetric] | rule r3))
  have "wf_os (fs (w\<lparr>fs := s4\<rparr>))" "ino_at (fs (w\<lparr>fs := s4\<rparr>)) (?r @ [temp]) = None"
    using settledD(1) [OF k4(1)] tmp by simp_all
  note tag = create_private_makes [OF c this(1) r4 this(2) H(10), of "as_bytes cachedir_tag_text"]
  obtain s5 where s5: "create_private temp ?r cachedir_tag (as_bytes cachedir_tag_text) (w\<lparr>fs := s4\<rparr>)
      = (Inr (), w\<lparr>fs := s5\<rparr>)" "settled {?T} s4 s5"
    using tag unfolding tag_path_def world.update_convs by (elim exE conjE) simp
  note k5 = one_settled [OF k4(1) s5(2)]
  have r5: "private_dir (w\<lparr>fs := s5\<rparr>) ?r" "private_dir (w\<lparr>fs := s5\<rparr>) ?E" "private_dir (w\<lparr>fs := s5\<rparr>) ?L"
    "private_file (w\<lparr>fs := s5\<rparr>) ?M"
    by (rule k5(2) k5(3); (rule dist [symmetric] | rule k4(2); (rule dist [symmetric] | rule r3) | rule s4(3)))+
  have "private_file (w\<lparr>fs := s5\<rparr>) ?P \<or> ino_at s5 ?P = None"
    using H(7) dist settled_same(2) [OF k5(1), of ?P] settledD(5) [OF k5(1), of ?P] by simp
  with prune_lock_made [OF c, of s5 ?P inner] settledD(1) [OF k5(1)] r5(1) obtain s6 where
    s6: "(case symlink_metadata ?P (w\<lparr>fs := s5\<rparr>) of
         (Inl Pending, w1) \<Rightarrow> (Inl Pending, w1)
       | (Inr _, w1) \<Rightarrow> (Inr inner, w1)
       | (Inl (Err _), w1) \<Rightarrow>
           andThen (open_lock ?P) (\<lambda>f w2.
             let w3 = drop_file f w2 in andThen (touch ?P (at (now_ms w3))) (\<lambda>_. ok inner) w3) w1)
        = (Inr inner, w\<lparr>fs := s6\<rparr>)" "settled {?P} s5 s6" "private_file (w\<lparr>fs := s6\<rparr>) ?P"
    by auto
  note k6 = one_settled [OF k5(1) s6(2)]
  have r6: "private_dir (w\<lparr>fs := s6\<rparr>) ?r" "private_dir (w\<lparr>fs := s6\<rparr>) ?E" "private_dir (w\<lparr>fs := s6\<rparr>) ?L"
    "private_file (w\<lparr>fs := s6\<rparr>) ?M"
    by (rule k6(2) k6(3); (rule dist [symmetric] | rule r5))+
  have t6: "settled (insert ?T (fixed_paths inner)) (fs w) s6"
    using k6(1) by (simp add: fixed_paths_def insert_commute)
  have "private_file (w\<lparr>fs := s6\<rparr>) p" if "child_of ?L p" "ino_at s6 p \<noteq> None" for p
  proof -
    have "length p = Suc (Suc (length (root inner)))"
      using that(1) by (cases p rule: rev_cases) (auto simp: child_of_def locks_dir_def)
    then have "p \<notin> insert ?T (fixed_paths inner)"
      by (auto simp: fixed_paths_def root_names)
    with that H(8) settled_same(2) [OF t6, of p] settledD(5) [OF t6, of p] show ?thesis by simp
  qed
  then have "ready inner (w\<lparr>fs := s6\<rparr>)"
    using c settledD(1) [OF t6] r6 s6(3) by (simp add: ready_def)
  moreover have eta: "\<lparr>root = ?r, schema = schema inner, i_limits = i_limits inner\<rparr> = inner" by simp
  have "with_clock temp ?r (schema inner) (i_limits inner) w = (Inr inner, w\<lparr>fs := s6\<rparr>)"
    unfolding with_clock_def Let_def eta using dirs s4(1,4) s5(1) s6(1) [unfolded Let_def] by simp
  ultimately show ?thesis using t6 by blast
qed

end
