(* ===== verification/Clearing.thy ===== *)
theory Clearing
  imports Storing
begin

text \<open>
  \<open>clear\<close> in a cache nobody interferes with: it waits while anybody uses the cache, and else
  leaves no entry, no key lock and no leftover file, whatever they were.
\<close>

section \<open>Removing everything in a directory\<close>

text \<open>The names that go with the children \<open>ps\<close> of a directory\<close>

definition gone_with :: "os \<Rightarrow> path list \<Rightarrow> path set" where
  "gone_with s ps = (\<Union>p \<in> set ps. names_of s p)"

lemma gone_with_Cons: "gone_with s (p # ps) = names_of s p \<union> gone_with s ps"
  by (simp add: gone_with_def)

lemma names_of_under: "q \<in> names_of s p \<Longrightarrow> under p q"
  by (auto simp: names_of_def under_def split: if_splits)

lemma length_child: "child_of d p \<Longrightarrow> length p = Suc (length d)"
  by (cases p rule: rev_cases) (auto simp: child_of_def)

lemma under_sibling: "child_of d p \<Longrightarrow> child_of d q \<Longrightarrow> under p q \<Longrightarrow> p = q"
  by (auto simp: under_def dest!: length_child)

lemma gone_with_reduced:
  assumes "reduced (names_of s p) s s'" and "wf_os s" and "list_all (child_of d) (p # ps)" and "p \<notin> set ps"
  shows "gone_with s' ps = gone_with s ps"
proof -
  have "names_of s' q = names_of s q" if "q \<in> set ps" for q
  proof -
    from that assms(3,4) have "q \<notin> names_of s p"
      using names_of_under under_sibling [of d p q] by (fastforce simp: list_all_iff)
    with reduced_node_at [OF assms(1,2), of q] show ?thesis by (simp add: names_of_def)
  qed
  then show ?thesis by (simp add: gone_with_def)
qed

lemma remove_each_calm:
  assumes "calm w" and "wf_os (fs w)" and "list_all (child_of d) ps" and "distinct ps"
  shows "\<exists>s. remove_each ps w = (Inr (), w\<lparr>fs := s\<rparr>) \<and> reduced (gone_with (fs w) ps) (fs w) s"
  using assms
proof (induction ps arbitrary: w)
  case Nil
  then show ?case by (intro exI [of _ "fs w"]) (simp add: gone_with_def)
next
  case (Cons p ps)
  from private_remove_calm [OF Cons.prems(1)] obtain s1 where
    s1: "private_remove p w = (Inr (), w\<lparr>fs := s1\<rparr>)" "reduced (names_of (fs w) p) (fs w) s1" by blast
  with Cons.prems Cons.IH [of "w\<lparr>fs := s1\<rparr>"] obtain s2 where
    s2: "remove_each ps (w\<lparr>fs := s1\<rparr>) = (Inr (), w\<lparr>fs := s2\<rparr>)" "reduced (gone_with s1 ps) s1 s2"
    by (auto simp: reduced_wf)
  have "gone_with s1 ps = gone_with (fs w) ps"
    using gone_with_reduced [OF s1(2) Cons.prems(2,3)] Cons.prems(4) by simp
  with reduced_trans [OF s1(2) s2(2)] s1(1) s2(1) show ?case by (auto simp: gone_with_Cons)
qed

text \<open>What goes when the directory \<open>d\<close> is cleared\<close>

definition contents_of :: "os \<Rightarrow> path \<Rightarrow> path set" where
  "contents_of s d = gone_with s (children s d)"

lemma child_under: "child_of d p \<Longrightarrow> under d p"
  by (cases p rule: rev_cases) (auto simp: child_of_def under_def)

lemma under_below: "under d p \<Longrightarrow> under p q \<Longrightarrow> under d q \<and> length p \<le> length q"
  by (metis append_eq_conv_conj append_take_drop_id append.assoc length_append le_add1 under_def)

lemma contents_of_under:
  assumes "q \<in> contents_of s d"
  shows "under d q \<and> length d < length q"
proof -
  from assms obtain p where "p \<in> set (children s d)" "q \<in> names_of s p"
    by (auto simp: contents_of_def gone_with_def)
  then have c: "child_of d p" and u: "under p q" using children_child names_of_under by blast+
  from under_below [OF child_under [OF c] u] length_child [OF c] show ?thesis by simp
qed

lemma contents_of_child: "wf_os s \<Longrightarrow> child_of d p \<Longrightarrow> ino_at s p \<noteq> None \<Longrightarrow> p \<in> contents_of s d"
  using children_ino_at [of s p d]
  by (auto simp: contents_of_def gone_with_def names_of_def under_def intro!: bexI [of _ p])

lemma contents_not_fixed:
  assumes "d \<in> {entries_dir inner, locks_dir inner}"
  shows "contents_of s d \<inter> fixed_paths inner = {}"
  using assms
  by (auto simp: fixed_paths_def entries_dir_def locks_dir_def maintenance_path_def prune_lock_path_def
      dest!: contents_of_under)

lemma clear_dir_calm:
  assumes calm: "calm w" and wf: "wf_os (fs w)" and d: "private_dir w d"
  shows "\<exists>s. clear_dir d w = (Inr (), w\<lparr>fs := s\<rparr>) \<and> reduced (contents_of (fs w) d) (fs w) s"
proof -
  let ?ps = "children (fs w) d"
  have relist: "map (\<lambda>c. d @ [last c]) ?ps = ?ps"
    using child_relist children_child by (intro map_idI) blast
  obtain s1 where s1: "remove_each ?ps w = (Inr (), w\<lparr>fs := s1\<rparr>)" "reduced (contents_of (fs w) d) (fs w) s1"
    using remove_each_calm [OF calm wf, of d ?ps] distinct_children [OF wf] children_child
    by (auto simp: contents_of_def list_all_iff)
  have "d \<notin> contents_of (fs w) d" by (auto dest: contents_of_under)
  with private_dir_reduced [OF s1(2) wf, of d] d calm reduced_wf [OF s1(2) wf] obtain s2 where
    s2: "sync_dir d (w\<lparr>fs := s1\<rparr>) = (Inr (), w\<lparr>fs := s2\<rparr>)" "reduced {} s1 s2"
    using sync_dir_reduced [of "w\<lparr>fs := s1\<rparr>" d] by auto
  have "clear_dir d w = (Inr (), w\<lparr>fs := s2\<rparr>)"
    using calm d s1(1) s2(1) relist by (simp add: clear_dir_def calm_simps)
  with reduced_before [OF s1(2) s2(2)] show ?thesis by blast
qed

section \<open>The whole clear\<close>

definition cleared :: "inner \<Rightarrow> os \<Rightarrow> path set" where
  "cleared inner s = contents_of s (entries_dir inner) \<union> contents_of s (locks_dir inner)"

lemma cleared_not_fixed: "cleared inner s \<inter> fixed_paths inner = {}"
  using contents_not_fixed [of "entries_dir inner" inner s] contents_not_fixed [of "locks_dir inner" inner s]
  by (auto simp: cleared_def)

lemma under_other_dir:
  "under (entries_dir inner) q \<Longrightarrow> \<not> under (locks_dir inner) q"
  by (auto simp: under_def entries_dir_def locks_dir_def)

lemma contents_of_reduced:
  assumes "reduced D s s'" and "wf_os s" and "\<And>q. q \<in> D \<Longrightarrow> \<not> under d q"
  shows "contents_of s' d = contents_of s d"
proof -
  have nd: "p \<notin> D" if "child_of d p" for p
    using child_under [OF that] assms(3) by blast
  then have "children s' d = children s d"
    using children_child by (auto simp: reduced_children [OF assms(1)] intro!: filter_True)
  moreover have "names_of s' p = names_of s p" if "p \<in> set (children s d)" for p
    using nd [OF children_child [OF that]] reduced_node_at [OF assms(1,2), of p] by (simp add: names_of_def)
  ultimately show ?thesis by (simp add: contents_of_def gone_with_def)
qed

lemma clear_calm_free:
  assumes r: "ready inner w" and free: "\<not> lock_busy (fs w) (maintenance_path inner)"
  shows "\<exists>s. clear inner w = (Inr (), w\<lparr>fs := s\<rparr>) \<and> reduced (cleared inner (fs w)) (fs w) s"
proof -
  let ?M = "maintenance_path inner" and ?E = "entries_dir inner" and ?L = "locks_dir inner" and ?s0 = "fs w"
  from r have calm: "calm w" and wf: "wf_os ?s0" and d: "private_dir w (root inner)" by (simp_all add: ready_def)
  obtain mi where mi: "ino_at ?s0 ?M = Some mi" "mi < next_ino ?s0"
    and om: "open_lock ?M w = (Inr \<lparr>fd = next_fd ?s0, f_ino = mi\<rparr>, w\<lparr>fs := ?s0\<lparr>next_fd := Suc (next_fd ?s0)\<rparr>\<rparr>)"
    using open_lock_ready [OF r, of ?M] by blast
  let ?m = "\<lparr>fd = next_fd ?s0, f_ino = mi\<rparr>" and ?s1 = "with_lock mi Exclusive ?s0"
  have "\<not> conflict ?m Exclusive (?s0\<lparr>next_fd := Suc (next_fd ?s0)\<rparr>)"
    using free conflict_exclusive [OF mi(1) wf] by simp
  then have tk: "take_lock ?m Exclusive (w\<lparr>fs := ?s0\<lparr>next_fd := Suc (next_fd ?s0)\<rparr>\<rparr>) = (Inr (), w\<lparr>fs := ?s1\<rparr>)"
    using calm by (simp add: calm_simps grant_with_lock)
  have r1: "ready inner (w\<lparr>fs := ?s1\<rparr>)" using with_lock_ready [OF r mi(2)] .
  then obtain s2 where s2: "clear_dir ?E (w\<lparr>fs := ?s1\<rparr>) = (Inr (), w\<lparr>fs := s2\<rparr>)" "reduced (contents_of ?s1 ?E) ?s1 s2"
    using clear_dir_calm [of "w\<lparr>fs := ?s1\<rparr>" ?E] by (auto simp: ready_def)
  have r2: "ready inner (w\<lparr>fs := s2\<rparr>)"
    using ready_reduced [OF r1, of _ s2] s2(2) contents_not_fixed [of ?E] by simp
  then obtain s3 where s3: "clear_dir ?L (w\<lparr>fs := s2\<rparr>) = (Inr (), w\<lparr>fs := s3\<rparr>)" "reduced (contents_of s2 ?L) s2 s3"
    using clear_dir_calm [of "w\<lparr>fs := s2\<rparr>" ?L] by (auto simp: ready_def)
  have "contents_of s2 ?L = contents_of ?s1 ?L"
    using contents_of_reduced [OF s2(2) with_lock_wf [OF wf mi(2)]] under_other_dir contents_of_under by blast
  moreover have "contents_of ?s1 x = contents_of ?s0 x" for x
    by (simp add: contents_of_def gone_with_def children_def names_of_def node_at_def)
  ultimately have s3': "reduced (cleared inner ?s0) ?s1 s3"
    using reduced_trans [OF s2(2) s3(2)] by (simp add: cleared_def)
  let ?s4 = "s3\<lparr>locks := filter (\<lambda>(d, i, m). d \<noteq> next_fd ?s0) (locks s3)\<rparr>"
  have "clear inner w = (Inr (), w\<lparr>fs := ?s4\<rparr>)"
    using calm d om tk s2(1) s3(1) by (simp add: clear_def calm_simps drop_file_def)
  with reduced_drop_lock [OF s3' wf] show ?thesis by blast
qed

lemma clear_calm_blocked:
  assumes r: "ready inner w" and busy: "lock_busy (fs w) (maintenance_path inner)"
  shows "fst (clear inner w) = Inl Pending"
proof -
  let ?M = "maintenance_path inner" and ?s0 = "fs w"
  from r have calm: "calm w" and wf: "wf_os ?s0" and d: "private_dir w (root inner)" by (simp_all add: ready_def)
  obtain mi where mi: "ino_at ?s0 ?M = Some mi" "mi < next_ino ?s0"
    and om: "open_lock ?M w = (Inr \<lparr>fd = next_fd ?s0, f_ino = mi\<rparr>, w\<lparr>fs := ?s0\<lparr>next_fd := Suc (next_fd ?s0)\<rparr>\<rparr>)"
    using open_lock_ready [OF r, of ?M] by blast
  have "conflict \<lparr>fd = next_fd ?s0, f_ino = mi\<rparr> Exclusive (?s0\<lparr>next_fd := Suc (next_fd ?s0)\<rparr>)"
    using busy conflict_exclusive [OF mi(1) wf] by simp
  with calm d om show ?thesis by (simp add: clear_def calm_simps scoped_def)
qed

end
