(* ===== verification/Transitions.thy ===== *)
theory Transitions
  imports Main
begin

text \<open>
  What the state machines of the development share: states reachable by steps, and two
  interfaces. \<open>guarded\<close> is a machine with an invariant, \<open>winding\<close> one whose every step also
  lowers a measure. The key lock, the flights of \<open>SingleFlight\<close> and the daemon's accept loop
  and drain interpret them.
\<close>

inductive reachable :: "('s \<Rightarrow> 's \<Rightarrow> bool) \<Rightarrow> 's \<Rightarrow> 's \<Rightarrow> bool" for step s0 where
  start: "reachable step s0 s0"
| further: "reachable step s0 s \<Longrightarrow> step s s' \<Longrightarrow> reachable step s0 s'"

lemma reachable_trans: "reachable step s1 s2 \<Longrightarrow> reachable step s0 s1 \<Longrightarrow> reachable step s0 s2"
  by (induction rule: reachable.induct) (auto intro: reachable.intros)

text \<open>Exactly \<open>n\<close> steps\<close>

inductive reachable_in :: "('s \<Rightarrow> 's \<Rightarrow> bool) \<Rightarrow> nat \<Rightarrow> 's \<Rightarrow> 's \<Rightarrow> bool" for step where
  none: "reachable_in step 0 s s"
| one_more: "step s s' \<Longrightarrow> reachable_in step n s' s'' \<Longrightarrow> reachable_in step (Suc n) s s''"

locale guarded =
  fixes initial :: "'s \<Rightarrow> bool" and step :: "'s \<Rightarrow> 's \<Rightarrow> bool" and good :: "'s \<Rightarrow> bool"
  assumes initial_good: "initial s \<Longrightarrow> good s"
    and step_good: "good s \<Longrightarrow> step s s' \<Longrightarrow> good s'"
begin

lemma stays_good: "reachable step s s' \<Longrightarrow> good s \<Longrightarrow> good s'"
  by (induction rule: reachable.induct) (auto intro: step_good)

lemma reachable_good: "reachable step s s' \<Longrightarrow> initial s \<Longrightarrow> good s'"
  by (blast intro: stays_good initial_good)

end

locale winding = guarded +
  fixes weight :: "'s \<Rightarrow> nat"
  assumes step_lighter: "good s \<Longrightarrow> step s s' \<Longrightarrow> weight s' < weight s"
begin

lemma run_bounded: "reachable_in step n s s' \<Longrightarrow> good s \<Longrightarrow> n + weight s' \<le> weight s"
proof (induction rule: reachable_in.induct)
  case (one_more s s' n s'')
  have "n + weight s'' \<le> weight s'" using one_more by (blast intro: step_good)
  moreover have "weight s' < weight s" using one_more by (blast intro: step_lighter)
  ultimately show ?case by simp
qed simp

lemma stops: "\<not> (\<forall>i. step (f i) (f (Suc i)) \<and> good (f i))"
proof
  assume f: "\<forall>i. step (f i) (f (Suc i)) \<and> good (f i)"
  have "reachable_in step n (f i) (f (i + n))" for i n
  proof (induction n arbitrary: i)
    case (Suc n)
    then have "reachable_in step n (f (Suc i)) (f (Suc i + n))" .
    moreover have "step (f i) (f (Suc i))" using f by simp
    ultimately show ?case using reachable_in.one_more by fastforce
  qed (simp add: reachable_in.none)
  from run_bounded [OF this [of "Suc (weight (f 0))" 0]] f show False by simp
qed

end

end
