(* ===== verification/Resting.thy ===== *)
theory Resting
  imports Opening Clearing Transitions
begin

text \<open>
  A cache at rest: ready, with no lock held and no directory under the name of an entry. Every
  complete operation of a process alone in the cache succeeds there and leaves the cache at
  rest again.
\<close>

section \<open>At rest\<close>

definition tidy :: "inner \<Rightarrow> os \<Rightarrow> bool" where
  "tidy inner s \<longleftrightarrow> (\<forall>d. map_option kind (node_at s (entry_path inner d)) \<noteq> Some Directory)"

definition at_rest :: "inner \<Rightarrow> world \<Rightarrow> bool" where
  "at_rest inner w \<longleftrightarrow> ready inner w \<and> locks (fs w) = [] \<and> tidy inner (fs w)"

lemma at_rest_free:
  assumes "at_rest inner w"
  shows "\<not> lock_busy (fs w) p" "\<not> excl_locked (fs w) p" "\<not> blocked inner (fs w)"
  using assms by (auto simp: at_rest_def lock_busy_def excl_locked_def blocked_def split: option.splits)

text \<open>
  What reading an entry and touching it may do to the names and the files: names go, but none
  of the cache's own and no key lock, and what stays keeps its kind, owner and mode.
\<close>

definition kept_names :: "inner \<Rightarrow> os \<Rightarrow> os \<Rightarrow> bool" where
  "kept_names inner s s' \<longleftrightarrow> wf_os s' \<and> locks s' = locks s \<and> next_ino s \<le> next_ino s'
     \<and> (\<forall>q. ino_at s' q = None \<or> ino_at s' q = ino_at s q)
     \<and> (\<forall>q. q \<in> fixed_paths inner \<or> child_of (locks_dir inner) q \<longrightarrow> ino_at s' q = ino_at s q)
     \<and> (\<forall>i < next_ino s. kind (inodes s' i) = kind (inodes s i) \<and> uid (inodes s' i) = uid (inodes s i)
          \<and> mode (inodes s' i) = mode (inodes s i))"

lemma kept_refl: "wf_os s \<Longrightarrow> kept_names inner s s"
  by (simp add: kept_names_def)

lemma kept_reduced:
  assumes "reduced D s s'" and "wf_os s" and "D \<inter> fixed_paths inner = {}"
    and "\<And>q. q \<in> D \<Longrightarrow> \<not> child_of (locks_dir inner) q"
  shows "kept_names inner s s'"
  using assms reduced_wf [OF assms(1,2)]
  by (auto simp: kept_names_def reduced_ino_at [OF assms(1)]) (auto simp: reduced_def)

lemma kept_trans: "kept_names inner s s' \<Longrightarrow> kept_names inner s' s'' \<Longrightarrow> kept_names inner s s''"
  unfolding kept_names_def by (elim conjE) (intro conjI; force)

lemma kept_touched:
  assumes "touched p t s s'" and "wf_os s"
  shows "kept_names inner s s'"
proof -
  from assms(1) obtain i where "reduced {} (set_node i ((inodes s i)\<lparr>mtime := t\<rparr>) s) s'"
    by (auto simp: touched_def)
  moreover have "kept_names inner s (set_node i ((inodes s i)\<lparr>mtime := t\<rparr>) s)"
    using assms(2) by (simp add: kept_names_def wf_set_node)
  ultimately show ?thesis
    using kept_trans kept_reduced [of "{}"] assms(2) by (fastforce simp: wf_set_node)
qed

lemma entry_names_off:
  assumes "q \<in> names_of s (entry_path inner d)"
  shows "\<not> child_of (locks_dir inner) q"
proof -
  have "under (entries_dir inner) q"
    using under_below [OF child_under names_of_under [OF assms]] by (metis child_of_simps(1))
  with under_other_dir child_under show ?thesis by blast
qed

lemma kept_verdict:
  assumes e: "verdict_effect v lk (entry_path inner d) t s s'" and wf: "wf_os s"
  shows "kept_names inner s s'"
proof -
  have gone: "kept_names inner s s'" if "reduced (names_of s (entry_path inner d)) s s'"
    by (rule kept_reduced [OF that wf names_of_entry entry_names_off])
  have same: "kept_names inner s s'" if "reduced {} s s'"
    by (rule kept_reduced [OF that wf]) simp_all
  have seen: "kept_names inner s s'" if "touched (entry_path inner d) t s s'"
    by (rule kept_touched [OF that wf])
  show ?thesis
    using e by (cases v) (auto simp: verdict_effect_def split: if_splits intro: gone same seen)
qed

lemma tidy_kept: "kept_names inner s s' \<Longrightarrow> wf_os s \<Longrightarrow> tidy inner s \<Longrightarrow> tidy inner s'"
  unfolding tidy_def
proof
  fix d
  assume k: "kept_names inner s s'" and wf: "wf_os s"
    and t: "\<forall>d. map_option kind (node_at s (entry_path inner d)) \<noteq> Some Directory"
  show "map_option kind (node_at s' (entry_path inner d)) \<noteq> Some Directory"
  proof (cases "ino_at s' (entry_path inner d)")
    case (Some i)
    with k have "ino_at s (entry_path inner d) = Some i" by (metis kept_names_def option.distinct(1))
    with k t wf_ino_less [OF wf this] Some show ?thesis
      by (auto simp: node_at_def kept_names_def dest: spec [of _ d])
  qed (simp add: node_at_def)
qed

lemma ready_kept:
  assumes r: "ready inner w" and k: "kept_names inner (fs w) s"
  shows "ready inner (w\<lparr>fs := s\<rparr>)"
proof -
  from r have wf: "wf_os (fs w)" by (simp add: ready_def)
  have same: "private_dir (w\<lparr>fs := s\<rparr>) p = private_dir w p" "private_file (w\<lparr>fs := s\<rparr>) p = private_file w p"
    if "p \<in> fixed_paths inner \<or> child_of (locks_dir inner) p" for p
    using that k wf_ino_less [OF wf, of p]
    by (auto simp: private_dir_def private_file_def kept_names_def)
  from r k same show ?thesis
    by (auto simp: ready_def fixed_paths_def kept_names_def)
qed

lemma at_rest_kept:
  assumes r: "at_rest inner w" and k: "kept_names inner (fs w) s"
  shows "at_rest inner (w\<lparr>fs := s\<rparr>)"
proof -
  from r have "ready inner w" "wf_os (fs w)" "tidy inner (fs w)" by (simp_all add: at_rest_def ready_def)
  with ready_kept [OF _ k] tidy_kept [OF k] have "ready inner (w\<lparr>fs := s\<rparr>)" "tidy inner s" by blast+
  moreover from r k have "locks s = []" by (simp add: at_rest_def kept_names_def)
  ultimately show ?thesis by (simp add: at_rest_def)
qed

lemma at_rest_reduced:
  assumes r: "at_rest inner w" and s: "reduced D (fs w) s" and D: "D \<inter> fixed_paths inner = {}"
  shows "at_rest inner (w\<lparr>fs := s\<rparr>)"
proof -
  from r have wf: "wf_os (fs w)" by (simp add: at_rest_def ready_def)
  from s have "locks s = locks (fs w)" by (simp add: reduced_def)
  moreover have "tidy inner s"
    using r by (auto simp: at_rest_def tidy_def reduced_node_at [OF s wf])
  ultimately show ?thesis using r ready_reduced [OF _ s D] by (simp add: at_rest_def)
qed

section \<open>Holding a key\<close>

text \<open>Dropping a key lock after anything that keeps the names gives the resting cache back.\<close>

lemma drop_key_lock_rest:
  assumes r: "at_rest inner w" and lk: "locked_key inner k kl (fs w) s1" and kept: "kept_names inner s1 s2"
  shows "\<exists>s. drop_key_lock kl (w\<lparr>fs := s2\<rparr>) = w\<lparr>fs := s\<rparr> \<and> at_rest inner (w\<lparr>fs := s\<rparr>)
    \<and> inodes s = inodes s2 \<and> (\<forall>q. q \<noteq> lock_path inner (digest k) \<longrightarrow> ino_at s q = ino_at s2 q)"
proof -
  let ?p = "lock_path inner (digest k)" and ?h = "kl_held kl" and ?n = "next_fd (fs w)" and ?s0 = "fs w"
  from r have rd: "ready inner w" and wf: "wf_os ?s0" and calm: "calm w" and l0: "locks ?s0 = []"
    by (simp_all add: at_rest_def ready_def)
  from lk obtain mi where mi: "mi < next_ino ?s0" and tk: "took ?p ?h (with_lock mi Shared ?s0) s1"
    and kn: "fd (kl_maintenance kl) = ?n"
    by (auto simp: locked_key_def)
  have "ino_at s2 ?p = ino_at s1 ?p" using kept by (simp add: kept_names_def)
  with tk have i: "ino_at s2 ?p = Some (f_ino (h_file ?h))" by (simp add: took_def)
  have "kind (inodes s2 (f_ino (h_file ?h))) = Regular"
    using tk kept by (simp add: took_def kept_names_def)
  with calm i have rm: "remove_file ?p (w\<lparr>fs := s2\<rparr>) = (Inr (), w\<lparr>fs := remove_name ?p s2\<rparr>)"
    by (simp add: calm_simps node_at_def)
  let ?u = "(remove_name ?p s2)\<lparr>locks := filter (\<lambda>(d, i, m). d \<noteq> ?n)
     (filter (\<lambda>(d, i, m). d \<noteq> fd (h_file ?h)) (locks s2))\<rparr>"
  have "drop_key_lock kl (w\<lparr>fs := s2\<rparr>) = w\<lparr>fs := ?u\<rparr>"
    using tk kn by (simp add: drop_key_lock_def drop_held_def took_def rm drop_file_def)
  moreover have kr: "kept_names inner (remove_name ?p ?s0) ?u"
  proof -
    have "locks ?u = []" using tk kept l0 by (simp add: took_def kept_names_def)
    moreover have "wf_os ?u"
      using kept wf_drop [OF wf_drop [OF wf_remove_name [of s2 ?p]]] by (simp add: kept_names_def)
    ultimately show ?thesis
      using tk kept l0 by (auto simp: kept_names_def took_def)
  qed
  moreover have "at_rest inner (w\<lparr>fs := ?u\<rparr>)"
  proof -
    have "at_rest inner (w\<lparr>fs := remove_name ?p ?s0\<rparr>)"
      by (rule at_rest_reduced [OF r reduced_remove_name]) simp
    from at_rest_kept [OF this, of ?u] kr show ?thesis by simp
  qed
  ultimately show ?thesis by (intro exI [of _ ?u]) simp
qed

lemma at_rest_lock:
  assumes "at_rest inner w"
  shows "\<exists>kl s. cache_lock inner k w = (Inr kl, w\<lparr>fs := s\<rparr>) \<and> locked_key inner k kl (fs w) s"
  using cache_lock_calm [of inner w k] at_rest_free [OF assms] assms by (auto simp: at_rest_def)

section \<open>The operations\<close>

lemma at_rest_lookup:
  assumes r: "at_rest inner w"
  shows "\<exists>x s. cache_lookup j inner k w = (Inr x, w\<lparr>fs := s\<rparr>) \<and> at_rest inner (w\<lparr>fs := s\<rparr>)"
proof -
  from r have rd: "ready inner w" and wf: "wf_os (fs w)" by (simp_all add: at_rest_def ready_def)
  from cache_read_calm [OF rd, of j k False] obtain s where
    s: "cache_lookup j inner k w = (Inr (verdict_lookup (verdict_on j inner k (fs w))), w\<lparr>fs := s\<rparr>)"
      "verdict_effect (verdict_on j inner k (fs w)) False (entry_path inner (digest k)) (at (now_ms w)) (fs w) s"
    by (auto simp: cache_lookup_def)
  with at_rest_kept [OF r kept_verdict [OF s(2) wf]] show ?thesis by blast
qed

lemma at_rest_session:
  assumes r: "at_rest inner w" and l: "cache_lock inner k w = (Inr kl, w1)"
  shows "\<exists>x w2. locked_lookup j kl w1 = (Inr x, w2) \<and> at_rest inner (drop_key_lock kl w2)"
proof -
  from r have rd: "ready inner w" by (simp add: at_rest_def)
  from at_rest_lock [OF r, of k] l obtain s1 where w1: "w1 = w\<lparr>fs := s1\<rparr>" and lk: "locked_key inner k kl (fs w) s1"
    by auto
  note after = took_lock_ready [OF rd lk]
  from lk have kl: "kl_inner kl = inner" "kl_key kl = k" by (simp_all add: locked_key_def)
  from cache_read_undisturbed [of w1 inner j k True] after w1 obtain s2 where
    s2: "locked_lookup j kl w1 = (Inr (verdict_lookup (verdict_on j inner k s1)), w\<lparr>fs := s2\<rparr>)"
      "verdict_effect (verdict_on j inner k s1) True (entry_path inner (digest k)) (at (now_ms w1)) s1 s2"
    by (auto simp: locked_lookup_def kl)
  with drop_key_lock_rest [OF r lk kept_verdict [OF s2(2) after(2)]] show ?thesis by auto
qed

lemma prune_names_not_fixed: "prune_names j inner s \<inter> fixed_paths inner = {}"
proof -
  have "swept j inner (clock s) s (children s (entries_dir inner)) \<inter> fixed_paths inner = {}"
    using item_not_fixed [OF children_child] by (fastforce simp: swept_def)
  moreover have "evicted_names inner (evictions j inner s) \<inter> fixed_paths inner = {}"
    using evict_names_not_fixed by (fastforce simp: evicted_names_def)
  ultimately show ?thesis using free_locks_not_fixed by (fastforce simp: prune_names_def)
qed

lemma at_rest_prune:
  assumes r: "at_rest inner w"
  shows "\<exists>s. prune j inner wt w = (Inr (prune_result j inner (fs w)), w\<lparr>fs := s\<rparr>) \<and> at_rest inner (w\<lparr>fs := s\<rparr>)"
proof -
  from r have rd: "ready inner w" and wf: "wf_os (fs w)" by (simp_all add: at_rest_def ready_def)
  from prune_calm_free [OF rd at_rest_free(3) [OF r], of j wt] obtain s i t where
    s: "prune j inner wt w = (Inr (prune_result j inner (fs w)), w\<lparr>fs := s\<rparr>)"
    and i: "ino_at (fs w) (prune_lock_path inner) = Some i" and st: "stamped i t (prune_names j inner (fs w)) (fs w) s"
    by blast
  let ?s0 = "set_node i ((inodes (fs w) i)\<lparr>mtime := t\<rparr>) (fs w)"
  have "kept_names inner (fs w) ?s0" using wf by (simp add: kept_names_def wf_set_node)
  from at_rest_kept [OF r this] have r0: "at_rest inner (w\<lparr>fs := ?s0\<rparr>)" .
  have "at_rest inner (w\<lparr>fs := s\<rparr>)"
    using at_rest_reduced [OF r0 _ prune_names_not_fixed, of j "fs w" s] st by (simp add: stamped_def)
  with s show ?thesis by blast
qed

lemma at_rest_clear:
  assumes r: "at_rest inner w"
  shows "\<exists>s. clear inner w = (Inr (), w\<lparr>fs := s\<rparr>) \<and> at_rest inner (w\<lparr>fs := s\<rparr>)"
proof -
  from r have rd: "ready inner w" by (simp add: at_rest_def)
  from clear_calm_free [OF rd at_rest_free(1) [OF r]] at_rest_reduced [OF r _ cleared_not_fixed]
  show ?thesis by blast
qed

lemma maintain_worlds:
  assumes rd: "ready inner w"
  shows "snd (maintain j inner w) \<in> {w, snd (prune j inner Skip w)}"
proof -
  from rd obtain i where "calm w" "ino_at (fs w) (prune_lock_path inner) = Some i"
    by (auto simp: ready_def private_file_def)
  then have "\<exists>b. sweep_due inner w = (Inr b, w)" by (simp add: sweep_due_def calm_simps)
  with usage_of_calm [OF rd] show ?thesis
    by (auto simp: maintain_def Let_def split: prod.splits sum.splits stop.splits)
qed

lemma at_rest_maintained:
  assumes r: "at_rest inner w" and m: "maintain j inner w = (m, w')"
  shows "at_rest inner w'"
proof -
  from r have "ready inner w" by (simp add: at_rest_def)
  from maintain_worlds [OF this, of j] m have "w' = w \<or> w' = snd (prune j inner Skip w)" by simp
  with at_rest_prune [OF r, of j Skip] r show ?thesis by auto
qed

lemma at_rest_entered:
  assumes r: "at_rest inner w"
    and e: "entered (lock_path inner d) (entry_path inner d) (fresh_entry u m bs t) (fs w) s"
  shows "at_rest inner (w\<lparr>fs := s\<rparr>)"
proof -
  from r have rd: "ready inner w" and wf: "wf_os (fs w)" and l: "locks (fs w) = []" and td: "tidy inner (fs w)"
    by (simp_all add: at_rest_def ready_def)
  have "map_option kind (node_at s (entry_path inner x)) \<noteq> Some Directory" for x
  proof (cases "x = d")
    case True
    with e show ?thesis by (auto simp: entered_def node_at_def fresh_entry_def)
  next
    case False
    with e have "node_at s (entry_path inner x) = node_at (fs w) (entry_path inner x)"
      using wf_ino_less [OF wf, of "entry_path inner x"]
      by (cases "ino_at (fs w) (entry_path inner x)") (auto simp: entered_def node_at_def)
    with td show ?thesis by (simp add: tidy_def)
  qed
  moreover from e l have "locks s = []" by (simp add: entered_def)
  ultimately show ?thesis using entered_ready [OF rd e] by (simp add: at_rest_def tidy_def)
qed

lemma at_rest_store:
  assumes r: "at_rest inner w" and l: "cache_lock inner k w = (Inr kl, w1)"
    and tmp: "ino_at (fs w) (temp_path inner (digest k) rnd) = None"
    and s: "store rnd j kl v pol w1 = (x, w2)"
  shows "at_rest inner w2 \<and> x \<noteq> Inl Pending"
proof -
  from r have rd: "ready inner w" and td: "tidy inner (fs w)" by (simp_all add: at_rest_def)
  from at_rest_lock [OF r, of k] l obtain s1 where w1: "w1 = w\<lparr>fs := s1\<rparr>" and lk: "locked_key inner k kl (fs w) s1"
    by auto
  from lk have kl: "kl_inner kl = inner" "kl_key kl = k" by (simp_all add: locked_key_def)
  note after = took_lock_ready [OF rd lk]
  from drop_key_lock_rest [OF r lk kept_refl [OF after(2)]] have dropped: "at_rest inner (drop_key_lock kl w1)"
    using w1 by auto
  have now: "now_ms w1 = now_ms w" using after(6) w1 by (simp add: now_ms_def)
  let ?e = "entry_to_write inner k pol (now_ms w) v"
  consider "to_vec j ?e = None" | bytes where "to_vec j ?e = Some bytes" "u64_or_max (length bytes) > max_entry_bytes (i_limits inner)"
    | bytes where "to_vec j ?e = Some bytes" "\<not> u64_or_max (length bytes) > max_entry_bytes (i_limits inner)"
    by (cases "to_vec j ?e") auto
  then show ?thesis
  proof cases
    case 3
    have "map_option kind (node_at (fs w) (entry_path inner (digest k))) \<noteq> Some Directory"
      using td unfolding tidy_def by blast
    from store_calm [OF rd at_rest_free(2) [OF r] at_rest_free(1) [OF r] tmp this 3] obtain kl' s1' s2 s3 where
      c: "cache_lock inner k w = (Inr kl', w\<lparr>fs := s1'\<rparr>)"
      and e: "entered (lock_path inner (digest k)) (entry_path inner (digest k))
        (fresh_entry (euid w) (write_perm w) bytes (now_ms w)) (fs w) s2"
      and st: "store rnd j kl' v pol (w\<lparr>fs := s1'\<rparr>) = (Inr (Written (maintenance_of j inner s2)), w\<lparr>fs := s3\<rparr>)"
      and m: "maintain j inner (w\<lparr>fs := s2\<rparr>) = (Inr (maintenance_of j inner s2), w\<lparr>fs := s3\<rparr>)"
      by blast
    from c l have "kl' = kl" "w\<lparr>fs := s1'\<rparr> = w1" by simp_all
    with st s have x: "x = Inr (Written (maintenance_of j inner s2))" "w2 = w\<lparr>fs := s3\<rparr>" by simp_all
    from at_rest_maintained [OF at_rest_entered [OF r e] m] x show ?thesis by simp
  qed (use s dropped in \<open>auto simp: store_def kl now Let_def\<close>)
qed

section \<open>A history of operations\<close>

text \<open>
  One complete operation of a process: a lookup, a locked lookup and the drop of its key lock,
  a store under a key lock, a prune, a clear, or the passing of time. A store's temporary file
  has a name \<open>tempfile\<close> found free.
\<close>

inductive cache_step :: "'v serde \<Rightarrow> inner \<Rightarrow> world \<Rightarrow> world \<Rightarrow> bool" for j inner where
  looked: "cache_lookup j inner k w = (x, w') \<Longrightarrow> cache_step j inner w w'"
| looked_locked: "cache_lock inner k w = (Inr kl, w1) \<Longrightarrow> locked_lookup j kl w1 = (x, w2) \<Longrightarrow>
    cache_step j inner w (drop_key_lock kl w2)"
| stored: "cache_lock inner k w = (Inr kl, w1) \<Longrightarrow> ino_at (fs w) (temp_path inner (digest k) rnd) = None \<Longrightarrow>
    store rnd j kl v pol w1 = (x, w') \<Longrightarrow> cache_step j inner w w'"
| pruned: "prune j inner wt w = (x, w') \<Longrightarrow> cache_step j inner w w'"
| emptied: "clear inner w = (x, w') \<Longrightarrow> cache_step j inner w w'"
| passed: "cache_step j inner w (w\<lparr>fs := (fs w)\<lparr>clock := t, ktime := t'\<rparr>\<rparr>)"

lemma at_rest_time:
  assumes "at_rest inner w"
  shows "at_rest inner (w\<lparr>fs := (fs w)\<lparr>clock := t, ktime := t'\<rparr>\<rparr>)"
proof -
  let ?s = "(fs w)\<lparr>clock := t, ktime := t'\<rparr>"
  have i: "ino_at ?s p = ino_at (fs w) p" for p by (simp add: ino_at_def)
  have "wf_os ?s = wf_os (fs w)" by (simp add: wf_os_def)
  with assms show ?thesis
    by (simp add: at_rest_def ready_def private_dir_def private_file_def tidy_def node_at_def i)
qed

lemma at_rest_step:
  assumes "cache_step j inner w w'" and r: "at_rest inner w"
  shows "at_rest inner w'"
  using assms(1)
proof cases
  case looked
  with at_rest_lookup [OF r] show ?thesis by (metis prod.inject)
next
  case looked_locked
  with at_rest_session [OF r] show ?thesis by (metis prod.inject)
next
  case stored
  from at_rest_store [OF r this] show ?thesis ..
next
  case pruned
  with at_rest_prune [OF r] show ?thesis by (metis prod.inject)
next
  case emptied
  with at_rest_clear [OF r] show ?thesis by (metis prod.inject)
next
  case (passed t t')
  with at_rest_time [OF r] show ?thesis by simp
qed

interpretation cache_life: guarded "at_rest inner" "cache_step j inner" "at_rest inner"
  by unfold_locales (auto intro: at_rest_step)

end
