(* ===== verification/Accounting.thy ===== *)
theory Accounting
  imports Prune_Properties Resting
begin

text \<open>
  The books of a prune: what its outcome says was there, was removed and is left agrees with the
  files. Sums over the names of the entries directory, once for the number of entries and once
  for their bytes, follow the usage the code carries along with saturating arithmetic.
\<close>

section \<open>Entry files and their sum\<close>

definition weigh :: "os \<Rightarrow> path \<Rightarrow> metadata option" where
  "weigh s p = (if entry_digest p = None then None else regular_at s p)"

definition total :: "(metadata \<Rightarrow> nat) \<Rightarrow> os \<Rightarrow> path set \<Rightarrow> nat" where
  "total g s A = (\<Sum>p \<in> A. case weigh s p of None \<Rightarrow> 0 | Some m \<Rightarrow> g m)"

abbreviation one :: "metadata \<Rightarrow> nat" where "one \<equiv> \<lambda>_. 1"
abbreviation size_of :: "metadata \<Rightarrow> nat" where "size_of \<equiv> \<lambda>m. unat (m_len m)"

definition tally :: "nat \<Rightarrow> nat \<Rightarrow> usage \<Rightarrow> bool" where
  "tally n b u \<longleftrightarrow> unat (u_entries u) = n \<and> unat (u_bytes u) = b"

lemma total_files: "distinct ps \<Longrightarrow> sum_list (map g (entry_files s ps)) = total g s (set ps)"
  by (induction ps) (auto simp: entry_files_def map_filter_simps total_def weigh_def split: option.split)

lemma total_split:
  assumes "finite A"
  shows "total g s A = total g s {p \<in> A. P p} + total g s {p \<in> A. \<not> P p}"
proof -
  have "A = {p \<in> A. P p} \<union> {p \<in> A. \<not> P p}" by blast
  moreover have "total g s ({p \<in> A. P p} \<union> {p \<in> A. \<not> P p}) = total g s {p \<in> A. P p} + total g s {p \<in> A. \<not> P p}"
    unfolding total_def by (rule sum.union_disjoint) (use assms in auto)
  ultimately show ?thesis by metis
qed

lemma total_eq:
  assumes "\<And>p. p \<in> A \<Longrightarrow> weigh s p \<noteq> None \<Longrightarrow> p \<in> B" and "\<And>p. p \<in> B \<Longrightarrow> weigh s p \<noteq> None \<Longrightarrow> p \<in> A"
    and "finite A" and "finite B"
  shows "total g s A = total g s B"
proof -
  have "weigh s p = None" if "p \<in> B - A \<or> p \<in> A - B" for p using that assms(1,2) by blast
  then show ?thesis unfolding total_def by (intro sum.mono_neutral_cong) (use assms(3,4) in auto)
qed

section \<open>The usage follows the sum\<close>

lemma tally_add:
  assumes "tally n b u" and "Suc n < 2 ^ 64" and "b + unat (m_len m) < 2 ^ 64"
  shows "tally (Suc n) (b + unat (m_len m)) (add_usage m u)"
  using assms by (simp add: tally_def add_usage_def unat_saturating_add unat_word_ariths)

lemma tally_fold:
  assumes "tally n b u" and "n + length ms < 2 ^ 64" and "b + sum_list (map size_of ms) < 2 ^ 64"
  shows "tally (n + length ms) (b + sum_list (map size_of ms)) (fold add_usage ms u)"
  using assms
proof (induction ms arbitrary: n b u)
  case (Cons m ms)
  with Cons.IH [OF tally_add [of n b u m]] show ?case by (simp add: add.assoc)
qed simp

lemma tally_usage_in:
  assumes "wf_os s" and "A = set (children s (entries_dir inner))" and "total one s A < 2 ^ 64" and "total size_of s A < 2 ^ 64"
  shows "tally (total one s A) (total size_of s A) (usage_in inner s)"
proof -
  let ?ms = "entry_files s (children s (entries_dir inner))"
  note files = total_files [OF distinct_children [OF assms(1)], of _ s "entries_dir inner"]
  have "length ?ms = total one s A" using files [of one] assms(2) by (simp add: sum_list_triv)
  moreover have "sum_list (map size_of ?ms) = total size_of s A" using files [of size_of] assms(2) by simp
  moreover have "tally 0 0 \<lparr>u_entries = 0, u_bytes = 0\<rparr>" by (simp add: tally_def)
  ultimately show ?thesis using tally_fold [of 0 0 _ ?ms] assms(3,4) by (simp add: usage_in_def)
qed

lemma tally_remove: "tally n b u \<Longrightarrow> tally (n - 1) (b - unat sz) (usage_remove sz u)"
  by (simp add: tally_def usage_remove_def unat_saturating_sub)

lemma tally_after:
  "tally n b u \<Longrightarrow> tally (n - length ks) (b - sum_list (map (\<lambda>k. unat (snd (snd k))) ks)) (usage_after ks u)"
proof (induction ks arbitrary: n b u)
  case Nil
  then show ?case by (simp add: usage_after_def)
next
  case (Cons k ks)
  obtain t d sz where k: "k = (t, d, sz)" by (metis surj_pair)
  from Cons.IH [OF tally_remove [OF Cons.prems, of sz]] show ?case by (simp add: k usage_after_Cons)
qed

section \<open>The first loop\<close>

definition is_expired :: "fate \<Rightarrow> bool" where
  "is_expired f = (case f of Expired m \<Rightarrow> True | _ \<Rightarrow> False)"

definition is_unused :: "fate \<Rightarrow> bool" where
  "is_unused f = (case f of Unused m \<Rightarrow> True | _ \<Rightarrow> False)"

definition dropped :: "'v serde \<Rightarrow> inner \<Rightarrow> u64 \<Rightarrow> os \<Rightarrow> path list \<Rightarrow> path set" where
  "dropped j inner now s ps =
     {p \<in> set ps. is_expired (fate j inner now s p) \<or> is_unused (fate j inner now s p)}"

lemma dropped_weigh:
  assumes "fate j inner now s p = f" and "f = Expired m \<or> f = Unused m"
  shows "weigh s p = Some m"
  using assms by (auto simp: fate_def entry_fate_def weigh_def Let_def split: option.splits if_splits)

lemma sweep_counts:
  "expired_removed (s_outcome (sweep_result j inner now s ps st)) = expired_removed (s_outcome st)
      + of_nat (length (filter (\<lambda>p. is_expired (fate j inner now s p)) ps))"
  "unused_removed (s_outcome (sweep_result j inner now s ps st)) = unused_removed (s_outcome st)
      + of_nat (length (filter (\<lambda>p. is_unused (fate j inner now s p)) ps))"
  "before_entries (s_outcome (sweep_result j inner now s ps st)) = before_entries (s_outcome st)"
  "before_bytes (s_outcome (sweep_result j inner now s ps st)) = before_bytes (s_outcome st)"
  unfolding sweep_result_def
  by (induction ps arbitrary: st)
    (simp_all add: fate_sweep_def count_temporary_def Let_def is_expired_def is_unused_def split: fate.split)

lemma sweep_left:
  assumes "distinct ps" and "tally n b (s_left st)"
  shows "tally (n - total one s (dropped j inner now s ps)) (b - total size_of s (dropped j inner now s ps))
    (s_left (sweep_result j inner now s ps st))"
  using assms
proof (induction ps arbitrary: n b st)
  case Nil
  then show ?case by (simp add: sweep_result_def total_def dropped_def)
next
  case (Cons p ps)
  let ?f = "fate j inner now s p" and ?D = "\<lambda>p. is_expired (fate j inner now s p) \<or> is_unused (fate j inner now s p)"
  let ?X = "dropped j inner now s ps"
  have res: "sweep_result j inner now s (p # ps) st = sweep_result j inner now s ps (fate_sweep p ?f st)"
    by (simp add: sweep_result_def)
  have d: "distinct ps" "p \<notin> set ps" using Cons.prems(1) by simp_all
  show ?case
  proof (cases "?D p")
    case True
    then obtain m where m: "?f = Expired m \<or> ?f = Unused m"
      by (auto simp: is_expired_def is_unused_def split: fate.splits)
    from dropped_weigh [OF refl m] have w: "weigh s p = Some m" .
    have "s_left (fate_sweep p ?f st) = usage_remove (m_len m) (s_left st)"
      using m by (auto simp: fate_sweep_def Let_def)
    with tally_remove [OF Cons.prems(2), of "m_len m"]
    have t: "tally (n - 1) (b - unat (m_len m)) (s_left (fate_sweep p ?f st))" by simp
    have X: "dropped j inner now s (p # ps) = insert p ?X" using True by (auto simp: dropped_def)
    have "total g s (insert p ?X) = g m + total g s ?X" for g
      unfolding total_def using d(2) by (subst sum.insert) (auto simp: w dropped_def)
    with Cons.IH [OF d(1) t] show ?thesis by (simp add: res X)
  next
    case False
    then have "s_left (fate_sweep p ?f st) = s_left st"
      by (auto simp: fate_sweep_def Let_def count_temporary_def is_expired_def is_unused_def split: fate.splits)
    moreover have "dropped j inner now s (p # ps) = ?X" using False by (auto simp: dropped_def)
    ultimately show ?thesis using Cons.IH [OF d(1), of n b "fate_sweep p ?f st"] Cons.prems(2) by (simp add: res)
  qed
qed

section \<open>The evictions\<close>

definition evicted_paths :: "'v serde \<Rightarrow> inner \<Rightarrow> os \<Rightarrow> path set" where
  "evicted_paths j inner s = (\<lambda>k. entry_path inner (fst (snd k))) ` set (evictions j inner s)"

lemma evictions_distinct:
  assumes "wf_os s"
  shows "distinct (map (fst \<circ> snd) (evictions j inner s))"
proof -
  let ?ks = "sort (survivors j inner (clock s) s)"
  have "distinct (map (fst \<circ> snd) ?ks)"
    using survivors_distinct [OF assms, of j inner "clock s"] by (simp add: distinct_map inj_on_def comp_def)
  then have "distinct (map (fst \<circ> snd) (take n ?ks))" for n by (metis distinct_take take_map)
  then show ?thesis using evicted_prefix by (simp add: evictions_def Let_def) metis
qed

lemma eviction_file:
  assumes "k \<in> set (evictions j inner s)"
  obtains m where "weigh s (entry_path inner (fst (snd k))) = Some m" "snd (snd k) = m_len m"
    "fate j inner (clock s) s (entry_path inner (fst (snd k))) = Keep m"
    "entry_path inner (fst (snd k)) \<in> set (children s (entries_dir inner))"
proof -
  from assms evictions_survive have "k \<in> set (survivors j inner (clock s) s)" by blast
  then obtain p where p: "p \<in> set (children s (entries_dir inner))"
    and k: "kept_of p (fate j inner (clock s) s p) = Some k"
    by (auto simp: survivors_def map_filter_def)
  from kept_of_fate [OF children_child [OF p] k] obtain m d where
    "fate j inner (clock s) s p = Keep m" "regular_at s p = Some m" "k = (modified_ms m, d, m_len m)"
    "p = entry_path inner d" "entry_digest p = Some d"
    by metis
  with p that [of m] show thesis by (simp add: weigh_def)
qed

lemma total_evicted:
  assumes wf: "wf_os s"
  shows "total one s (evicted_paths j inner s) = length (evictions j inner s)"
    "total size_of s (evicted_paths j inner s) = sum_list (map (\<lambda>k. unat (snd (snd k))) (evictions j inner s))"
proof -
  let ?ev = "evictions j inner s" and ?path = "\<lambda>k :: u64 \<times> str \<times> u64. entry_path inner (fst (snd k))"
  have d: "distinct ?ev" and inj: "inj_on ?path (set ?ev)"
    using evictions_distinct [OF wf, of j inner] by (auto simp: distinct_map inj_on_def)
  have sum: "total g s (evicted_paths j inner s) = (\<Sum>k \<in> set ?ev. h k)"
    if "\<And>m k. k \<in> set ?ev \<Longrightarrow> snd (snd k) = m_len m \<Longrightarrow> g m = h k" for g h
  proof -
    have "total g s (evicted_paths j inner s) = (\<Sum>k \<in> set ?ev. case weigh s (?path k) of None \<Rightarrow> 0 | Some m \<Rightarrow> g m)"
      unfolding total_def evicted_paths_def by (simp add: sum.reindex [OF inj] comp_def)
    also have "\<dots> = (\<Sum>k \<in> set ?ev. h k)"
      by (rule sum.cong [OF refl]) (metis eviction_file option.simps(5) that)
    finally show ?thesis .
  qed
  show "total one s (evicted_paths j inner s) = length ?ev"
    using sum [of one "\<lambda>_. 1"] d by (simp add: distinct_card)
  show "total size_of s (evicted_paths j inner s) = sum_list (map (\<lambda>k. unat (snd (snd k))) ?ev)"
    using sum [of size_of "\<lambda>k. unat (snd (snd k))"] d by (simp add: sum_list_distinct_conv_sum_set)
qed

section \<open>What is left\<close>

lemma weighed_fate:
  assumes p: "p \<in> set (children s (entries_dir inner))" and w: "weigh s p = Some m"
  shows "fate j inner now s p \<in> {Leave, Expired m, Unused m, Keep m}"
proof -
  from w obtain d where d: "entry_digest p = Some d" and r: "regular_at s p = Some m"
    by (auto simp: weigh_def split: if_splits)
  from entry_digest_path [OF children_child [OF p] d] entry_digest_eq [OF d]
  have "p = entry_path inner d" "is_digest d" by simp_all
  with fate_entry_path [of d j inner now s] r show ?thesis by (simp add: entry_fate_def Let_def)
qed

lemma weighed_goes:
  assumes wf: "wf_os s" and p: "p \<in> set (children s (entries_dir inner))" and w: "weigh s p \<noteq> None"
  shows "p \<in> prune_names j inner s \<longleftrightarrow>
    p \<in> dropped j inner (clock s) s (children s (entries_dir inner)) \<or> p \<in> evicted_paths j inner s"
proof
  from w obtain m where m: "weigh s p = Some m" by blast
  assume "p \<in> prune_names j inner s"
  then consider "p \<in> fate_names s p (fate j inner (clock s) s p)" | "p \<in> evicted_names inner (evictions j inner s)"
    using prune_names_entry [OF wf children_child [OF p]] by blast
  then show "p \<in> dropped j inner (clock s) s (children s (entries_dir inner)) \<or> p \<in> evicted_paths j inner s"
  proof cases
    case 1
    with weighed_fate [OF p m, of j "clock s"] p show ?thesis
      by (auto simp: fate_names_def dropped_def is_expired_def is_unused_def)
  next
    case 2
    then obtain k where k: "k \<in> set (evictions j inner s)"
      "p = entry_path inner (fst (snd k)) \<or> p = lock_path inner (fst (snd k))"
      by (auto simp: evicted_names_def)
    moreover have "p \<noteq> lock_path inner (fst (snd k))"
      using children_child [OF p] by auto
    ultimately show ?thesis by (auto simp: evicted_paths_def)
  qed
next
  assume "p \<in> dropped j inner (clock s) s (children s (entries_dir inner)) \<or> p \<in> evicted_paths j inner s"
  then show "p \<in> prune_names j inner s"
  proof
    assume "p \<in> dropped j inner (clock s) s (children s (entries_dir inner))"
    then have "p \<in> fate_names s p (fate j inner (clock s) s p)"
      by (auto simp: dropped_def fate_names_def is_expired_def is_unused_def split: fate.splits)
    with p show ?thesis by (auto simp: prune_names_def swept_def)
  next
    assume "p \<in> evicted_paths j inner s"
    then show ?thesis by (force simp: evicted_paths_def prune_names_def evicted_names_def)
  qed
qed

lemma dropped_not_evicted:
  "p \<in> dropped j inner (clock s) s ps \<Longrightarrow> p \<notin> evicted_paths j inner s"
proof
  assume d: "p \<in> dropped j inner (clock s) s ps" and "p \<in> evicted_paths j inner s"
  then obtain k where k: "k \<in> set (evictions j inner s)" "p = entry_path inner (fst (snd k))"
    by (auto simp: evicted_paths_def)
  from k(1) obtain m where "fate j inner (clock s) s p = Keep m" unfolding k(2) by (rule eviction_file)
  with d show False by (simp add: dropped_def is_expired_def is_unused_def)
qed

text \<open>Every entry file is dropped, evicted or left.\<close>

lemma total_balance:
  assumes wf: "wf_os s"
    and C: "C = set (children s (entries_dir inner))"
  shows "total g s C = total g s (dropped j inner (clock s) s (children s (entries_dir inner)))
    + total g s (evicted_paths j inner s) + total g s {p \<in> C. p \<notin> prune_names j inner s}"
proof -
  let ?D = "dropped j inner (clock s) s (children s (entries_dir inner))" and ?E = "evicted_paths j inner s"
  have fin: "finite C" by (simp add: C)
  have sub: "?D \<subseteq> C" "?E \<subseteq> C" by (auto simp: dropped_def C evicted_paths_def elim: eviction_file)
  have "total g s {p \<in> C. p \<in> prune_names j inner s} = total g s (?D \<union> ?E)"
  proof (rule total_eq)
    show "p \<in> ?D \<union> ?E" if "p \<in> {p \<in> C. p \<in> prune_names j inner s}" "weigh s p \<noteq> None" for p
      using that weighed_goes [OF wf, of p inner j] by (auto simp: C)
    show "p \<in> {p \<in> C. p \<in> prune_names j inner s}" if "p \<in> ?D \<union> ?E" "weigh s p \<noteq> None" for p
      using that sub weighed_goes [OF wf, of p inner j] by (auto simp: C)
  qed (use fin sub finite_subset in auto)
  also have "\<dots> = total g s ?D + total g s ?E"
    unfolding total_def
  proof (rule sum.union_disjoint)
    show "finite ?D" "finite ?E" using fin sub finite_subset by blast+
    show "?D \<inter> ?E = {}" using dropped_not_evicted by blast
  qed
  finally show ?thesis using total_split [OF fin, of g s "\<lambda>p. p \<in> prune_names j inner s"] by simp
qed

lemma weigh_stamped:
  assumes st: "stamped i t (prune_names j inner s) s s'" and wf: "wf_os s"
    and i: "ino_at s (prune_lock_path inner) = Some i" and p: "p \<in> set (children s (entries_dir inner))" "p \<notin> prune_names j inner s"
  shows "weigh s' p = weigh s p"
proof -
  have "p \<noteq> prune_lock_path inner"
    using length_child [OF children_child [OF p(1)]] by (auto simp: prune_lock_path_def entries_dir_def)
  with wf_ino_inj [OF wf i] have ne: "ino_at s p \<noteq> Some i" by auto
  let ?s0 = "set_node i ((inodes s i)\<lparr>mtime := t\<rparr>) s"
  from st have r: "reduced (prune_names j inner s) ?s0 s'" by (simp add: stamped_def)
  have "ino_at s' p = ino_at s p" using reduced_ino_at [OF r, of p] p(2) by simp
  moreover have "inodes s' n = inodes s n" if "ino_at s p = Some n" for n
    using that ne r wf_ino_less [OF wf that] by (auto simp: reduced_def set_node_def)
  ultimately show ?thesis by (cases "ino_at s p") (simp_all add: weigh_def regular_at_def metadata_at_def)
qed

lemma total_left:
  assumes st: "stamped i t (prune_names j inner s) s s'" and wf: "wf_os s"
    and i: "ino_at s (prune_lock_path inner) = Some i"
  shows "total g s' (set (children s' (entries_dir inner)))
    = total g s {p \<in> set (children s (entries_dir inner)). p \<notin> prune_names j inner s}"
proof -
  have "children s' (entries_dir inner) = filter (\<lambda>p. p \<notin> prune_names j inner s) (children s (entries_dir inner))"
    using reduced_children [OF st [unfolded stamped_def], of "entries_dir inner"] by (simp add: children_def)
  moreover have "weigh s' p = weigh s p"
    if "p \<in> {p \<in> set (children s (entries_dir inner)). p \<notin> prune_names j inner s}" for p
    using that weigh_stamped [OF st wf i] by simp
  ultimately show ?thesis unfolding total_def by (intro sum.cong) simp_all
qed

section \<open>The outcome\<close>

lemma ready_stamped:
  assumes r: "ready inner w" and st: "stamped i t (prune_names j inner (fs w)) (fs w) s"
  shows "ready inner (w\<lparr>fs := s\<rparr>)"
  using ready_reduced [OF ready_stamp [OF r, of i t] _ prune_names_not_fixed, of j "fs w" s] st
  by (simp add: stamped_def)

lemma tally_unique: "tally n b u \<Longrightarrow> tally n b u' \<Longrightarrow> u' = u"
  by (cases u; cases u') (auto simp: tally_def word_unat_eq_iff)

lemma not_both: "is_expired f \<Longrightarrow> \<not> is_unused f"
  by (cases f) (simp_all add: is_expired_def is_unused_def)

lemma dropped_count:
  assumes "wf_os s"
  defines "ps \<equiv> \<lambda>inner. children s (entries_dir inner)"
  shows "total one s (dropped j inner now s (ps inner)) =
    length (filter (\<lambda>p. is_expired (fate j inner now s p)) (ps inner))
    + length (filter (\<lambda>p. is_unused (fate j inner now s p)) (ps inner))"
proof -
  let ?X = "\<lambda>p. is_expired (fate j inner now s p)" and ?U = "\<lambda>p. is_unused (fate j inner now s p)"
  have d: "distinct (ps inner)" unfolding ps_def by (rule distinct_children [OF assms(1)])
  have w: "weigh s p \<noteq> None" if "p \<in> dropped j inner now s (ps inner)" for p
    using that dropped_weigh [OF refl, of j inner now s p]
    by (auto simp: dropped_def is_expired_def is_unused_def split: fate.splits)
  have "total one s (dropped j inner now s (ps inner)) = (\<Sum>p \<in> dropped j inner now s (ps inner). 1)"
    unfolding total_def by (rule sum.cong [OF refl]) (auto dest!: w)
  then have "total one s (dropped j inner now s (ps inner)) = card (dropped j inner now s (ps inner))" by simp
  also have "\<dots> = card (set (filter ?X (ps inner)) \<union> set (filter ?U (ps inner)))"
    by (rule arg_cong [where f = card]) (auto simp: dropped_def)
  also have "\<dots> = card (set (filter ?X (ps inner))) + card (set (filter ?U (ps inner)))"
    by (rule card_Un_disjoint) (use not_both in auto)
  finally show ?thesis using d by (simp only: distinct_card distinct_filter)
qed

lemma prune_left:
  assumes wf: "wf_os s" and C: "C = set (children s (entries_dir inner))"
    and fits: "total one s C < 2 ^ 64" "total size_of s C < 2 ^ 64"
  shows "tally (total one s {p \<in> C. p \<notin> prune_names j inner s}) (total size_of s {p \<in> C. p \<notin> prune_names j inner s})
    \<lparr>u_entries = after_entries (prune_result j inner s), u_bytes = after_bytes (prune_result j inner s)\<rparr>"
proof -
  let ?ps = "children s (entries_dir inner)" and ?ev = "evictions j inner s"
  let ?D = "dropped j inner (clock s) s ?ps" and ?n = "total one s C" and ?b = "total size_of s C"
  have "tally ?n ?b (s_left (start_sweep inner s))"
    using tally_usage_in [OF wf C fits] by (simp add: start_sweep_def Let_def)
  from sweep_left [OF distinct_children [OF wf] this, where j = j and inner = inner and now = "clock s" and s = s]
  have "tally (?n - total one s ?D) (?b - total size_of s ?D) (s_left (first_loop j inner s))"
    by (simp add: first_loop_def)
  from tally_after [OF this, of ?ev] total_evicted [OF wf, of j inner]
    total_balance [OF wf C, where g = one and j = j] total_balance [OF wf C, where g = size_of and j = j]
  have "tally (total one s {p \<in> C. p \<notin> prune_names j inner s}) (total size_of s {p \<in> C. p \<notin> prune_names j inner s})
    (usage_after ?ev (s_left (first_loop j inner s)))" by simp
  then show ?thesis by (simp add: prune_result_def Let_def tally_def)
qed

lemma prune_counts:
  assumes wf: "wf_os s" and C: "C = set (children s (entries_dir inner))" and fits: "total one s C < 2 ^ 64"
  shows "unat (expired_removed (prune_result j inner s)) + unat (unused_removed (prune_result j inner s))
      = total one s (dropped j inner (clock s) s (children s (entries_dir inner)))"
    "unat (capacity_removed (prune_result j inner s)) = total one s (evicted_paths j inner s)"
proof -
  let ?ps = "children s (entries_dir inner)" and ?D = "dropped j inner (clock s) s (children s (entries_dir inner))"
  have bal: "total one s C = total one s ?D + total one s (evicted_paths j inner s) + total one s {p \<in> C. p \<notin> prune_names j inner s}"
    by (rule total_balance [OF wf C])
  note n = dropped_count [OF wf, of j inner "clock s"]
  have "expired_removed (prune_result j inner s) = of_nat (length (filter (\<lambda>p. is_expired (fate j inner (clock s) s p)) ?ps))"
    "unused_removed (prune_result j inner s) = of_nat (length (filter (\<lambda>p. is_unused (fate j inner (clock s) s p)) ?ps))"
    by (simp_all add: prune_result_def Let_def first_loop_def sweep_counts start_sweep_def prune_default_def)
  moreover have "length (filter (\<lambda>p. is_expired (fate j inner (clock s) s p)) ?ps) < 2 ^ 64"
    "length (filter (\<lambda>p. is_unused (fate j inner (clock s) s p)) ?ps) < 2 ^ 64"
    using bal fits n by simp_all
  ultimately show "unat (expired_removed (prune_result j inner s)) + unat (unused_removed (prune_result j inner s)) = total one s ?D"
    using n by (simp add: unat_of_nat)
  have "length (evictions j inner s) < 2 ^ 64" using bal fits total_evicted(1) [OF wf, of j inner] by simp
  then show "unat (capacity_removed (prune_result j inner s)) = total one s (evicted_paths j inner s)"
    unfolding total_evicted(1) [OF wf] by (simp add: prune_result_def Let_def unat_of_nat)
qed

text \<open>C13: The books of a prune balance. When the entries and their bytes can be counted in 64 bits, the
  outcome's \<open>before\<close> is the usage before the prune and its \<open>after\<close> the usage after it, both as
  \<open>Cache::usage\<close> finds them in the files, and the entries that went are exactly those reported as
  expired, unused or evicted.\<close>

theorem prune_accounts:
  assumes "ready inner w" and "\<not> blocked inner (fs w)"
    and "total one (fs w) (set (children (fs w) (entries_dir inner))) < 2 ^ 64"
    and "total size_of (fs w) (set (children (fs w) (entries_dir inner))) < 2 ^ 64"
  shows "\<exists>out w'. prune j inner wt w = (Inr out, w')
    \<and> usage_of inner w = (Inr \<lparr>u_entries = before_entries out, u_bytes = before_bytes out\<rparr>, w)
    \<and> usage_of inner w' = (Inr \<lparr>u_entries = after_entries out, u_bytes = after_bytes out\<rparr>, w')
    \<and> unat (before_entries out) = unat (after_entries out) + unat (expired_removed out)
        + unat (unused_removed out) + unat (capacity_removed out)"
proof -
  let ?s = "fs w" and ?out = "prune_result j inner (fs w)"
  let ?C = "set (children ?s (entries_dir inner))"
  from assms(1) have wf: "wf_os ?s" by (simp add: ready_def)
  obtain s i where run: "prune j inner wt w = (Inr ?out, w\<lparr>fs := s\<rparr>)"
    and i: "ino_at ?s (prune_lock_path inner) = Some i"
    and st: "stamped i (at (clock ?s)) (prune_names j inner ?s) ?s s"
    using prune_calm_free [OF assms(1,2), of j wt] by blast
  have r: "ready inner (w\<lparr>fs := s\<rparr>)" by (rule ready_stamped [OF assms(1) st])
  have left: "total g s (set (children s (entries_dir inner))) = total g ?s {p \<in> ?C. p \<notin> prune_names j inner ?s}" for g
    by (rule total_left [OF st wf i])
  have bal: "total g ?s ?C = total g ?s (dropped j inner (clock ?s) ?s (children ?s (entries_dir inner)))
      + total g ?s (evicted_paths j inner ?s) + total g ?s {p \<in> ?C. p \<notin> prune_names j inner ?s}" for g
    by (rule total_balance [OF wf refl])
  note after = prune_left [OF wf refl assms(3,4), of j]
  have "wf_os s" using r by (simp add: ready_def)
  from tally_usage_in [OF this refl, of inner] bal [of one] bal [of size_of] assms(3,4)
  have "tally (total one ?s {p \<in> ?C. p \<notin> prune_names j inner ?s}) (total size_of ?s {p \<in> ?C. p \<notin> prune_names j inner ?s})
    (usage_in inner s)" by (simp add: left)
  from tally_unique [OF after this] usage_of_calm [OF r]
  have u': "usage_of inner (w\<lparr>fs := s\<rparr>) = (Inr \<lparr>u_entries = after_entries ?out, u_bytes = after_bytes ?out\<rparr>, w\<lparr>fs := s\<rparr>)"
    by simp
  have before: "before_entries ?out = u_entries (usage_in inner ?s)" "before_bytes ?out = u_bytes (usage_in inner ?s)"
    by (simp_all add: prune_result_def Let_def first_loop_def sweep_counts start_sweep_def)
  with usage_of_calm [OF assms(1)]
  have u: "usage_of inner w = (Inr \<lparr>u_entries = before_entries ?out, u_bytes = before_bytes ?out\<rparr>, w)" by simp
  have "unat (before_entries ?out) = unat (after_entries ?out) + unat (expired_removed ?out)
      + unat (unused_removed ?out) + unat (capacity_removed ?out)"
    using tally_usage_in [OF wf refl assms(3,4)] after bal [of one] prune_counts [OF wf refl assms(3), of j]
    by (simp add: tally_def before)
  with run u u' show ?thesis by blast
qed

lemma prune_accounts_witness:
  "\<exists>out w'. prune sample_serde sample_inner Skip sample_full = (Inr out, w')
    \<and> usage_of sample_inner w' = (Inr \<lparr>u_entries = after_entries out, u_bytes = after_bytes out\<rparr>, w')
    \<and> unat (before_entries out) = unat (after_entries out) + unat (expired_removed out)
        + unat (unused_removed out) + unat (capacity_removed out)"
proof -
  let ?p = "entry_path sample_inner (digest sample_key)"
  have "\<not> blocked sample_inner (fs sample_full)"
    by (simp add: blocked_def lock_busy_def excl_locked_def sample_full_def sample_stored_def sample_os_def split: option.split)
  moreover have "children (fs sample_full) (entries_dir sample_inner) = [?p]"
    by (simp add: sample_full_def children_def sample_stored_def sample_os_def child_of_def entries_dir_def sample_inner_def
        sample_paths entry_path_def)
  moreover have "total g (fs sample_full) {?p} < 2 ^ 64" if "\<And>m. g m < 2 ^ 64" for g
    using that by (auto simp: total_def split: option.split)
  moreover have "size_of m < 2 ^ 64" for m using unat_less_u64 by simp
  ultimately show ?thesis using prune_accounts [OF sample_full_ready, of sample_serde Skip] by fastforce
qed

end
