(* ===== verification/Map_View.thy ===== *)
theory Map_View
  imports Resting
begin

text \<open>
  The cache as a map from digests to the bytes of an entry. \<open>shelf\<close> is the map a file system
  holds, \<open>answer\<close> says what the bytes under a key's digest mean to a lookup at some time, and
  every operation is a small change of the map.
\<close>

section \<open>The abstract state and its reading\<close>

definition content :: "os \<Rightarrow> path \<Rightarrow> u8 list option" where
  "content s p = map_option (\<lambda>m. data (m_node m)) (regular_at s p)"

definition shelf :: "inner \<Rightarrow> os \<Rightarrow> str \<rightharpoonup> u8 list" where
  "shelf inner s = (\<lambda>d. content s (entry_path inner d))"

text \<open>A file over the largest size is no entry; the header must be this key's and not expired.\<close>

definition answer :: "'v serde \<Rightarrow> inner \<Rightarrow> key \<Rightarrow> u64 \<Rightarrow> u8 list option \<Rightarrow> 'v lookup" where
  "answer j inner k t file = (let cap = max_entry_bytes (i_limits inner) in case file of
     None \<Rightarrow> Miss
   | Some bytes \<Rightarrow> if u64_or_max (length bytes) > cap then Miss
       else (let seen = take (unat (saturating_add cap 1)) bytes in
         case (parse_header j seen, parse_value j seen) of
           (Some h, Some v) \<Rightarrow>
             if h_schema h \<le> schema inner \<and> consistent h \<and> h_digest h = digest k \<and> h_namespace h = namespace k
               \<and> t \<le> h_stale_until_ms h
             then (if h_schema h = schema inner \<and> t \<le> h_fresh_until_ms h then Fresh else Stale)
               \<lparr>c_value = v, stored_at_ms = h_stored_at_ms h, age_ms = saturating_sub t (h_stored_at_ms h),
                c_source = h_source h\<rparr>
             else Miss
         | _ \<Rightarrow> Miss))"

lemma verdict_answer:
  "verdict_lookup (verdict_on j inner k s) = answer j inner k (clock s) (shelf inner s (digest k))"
proof (cases "regular_at s (entry_path inner (digest k))")
  case None
  then show ?thesis
    by (simp add: verdict_on_def judge_def verdict_lookup_def answer_def shelf_def content_def read_result_def)
next
  case (Some m)
  let ?cap = "max_entry_bytes (i_limits inner)" and ?bytes = "data (m_node m)"
  let ?seen = "take (unat (saturating_add ?cap 1)) ?bytes"
  have v: "verdict_on j inner k s = judge j inner k (clock s) (if ?cap < u64_or_max (length ?bytes) then None else Some (?seen, m))"
    by (simp add: verdict_on_def read_result_def Some m_len_def)
  have a: "shelf inner s (digest k) = Some ?bytes" by (simp add: shelf_def content_def Some)
  show ?thesis
    unfolding v a
    by (cases "parse_header j ?seen"; cases "parse_value j ?seen")
      (auto simp: judge_def answer_def verdict_lookup_def Let_def)
qed

section \<open>How the file system may change under the map\<close>

lemma content_same:
  assumes "wf_os s" and "ino_at s' p = ino_at s p"
    and "\<forall>i < next_ino s. kind (inodes s' i) = kind (inodes s i) \<and> data (inodes s' i) = data (inodes s i)"
  shows "content s' p = content s p"
  using assms wf_ino_less [OF assms(1), of p]
  by (cases "ino_at s p") (auto simp: content_def regular_at_def metadata_at_def is_file_def)

lemma content_missing: "ino_at s p = None \<Longrightarrow> content s p = None"
  by (simp add: content_def regular_at_def metadata_at_def)

lemma content_reduced:
  assumes "reduced D s s'" and "wf_os s"
  shows "content s' p = (if p \<in> D then None else content s p)"
  using content_missing [of s' p] content_same [OF assms(2), of s' p] assms(1)
  by (auto simp: reduced_ino_at [OF assms(1)]) (auto simp: reduced_def)

lemma shelf_reduced:
  "reduced D s s' \<Longrightarrow> wf_os s \<Longrightarrow> shelf inner s' = (\<lambda>d. if entry_path inner d \<in> D then None else shelf inner s d)"
  by (rule ext) (simp add: shelf_def content_reduced)

lemma shelf_set_mtime: "wf_os s \<Longrightarrow> shelf inner (set_node i ((inodes s i)\<lparr>mtime := t\<rparr>) s) = shelf inner s"
  unfolding shelf_def by (rule ext, rule content_same) simp_all

lemma shelf_touched:
  assumes "touched p t s s'" and "wf_os s"
  shows "shelf inner s' = shelf inner s"
proof -
  from assms(1) obtain i where r: "reduced {} (set_node i ((inodes s i)\<lparr>mtime := t\<rparr>) s) s'"
    by (auto simp: touched_def)
  from shelf_reduced [OF r] shelf_set_mtime [OF assms(2)] assms(2) show ?thesis by (simp add: wf_set_node)
qed

lemma entry_in_names: "entry_path inner e \<in> names_of s (entry_path inner d) \<longleftrightarrow> e = d"
  by (auto simp: names_of_def under_def entry_path_def entry_name_def)

lemma shelf_verdict:
  assumes "verdict_effect v lk (entry_path inner d) t s s'" and wf: "wf_os s"
  shows "shelf inner s' = shelf inner s \<or> v = Discard \<and> lk \<and> shelf inner s' = (shelf inner s)(d := None)"
proof -
  have "shelf inner s' = (shelf inner s)(d := None)" if "reduced (names_of s (entry_path inner d)) s s'"
    by (rule ext) (simp add: shelf_reduced [OF that wf] entry_in_names)
  moreover have "shelf inner s' = shelf inner s" if "reduced {} s s'"
    using shelf_reduced [OF that wf] by simp
  moreover note shelf_touched [OF _ wf]
  ultimately show ?thesis
    using assms(1) by (cases v) (auto simp: verdict_effect_def split: if_splits)
qed

lemma shelf_took:
  assumes "ready inner w" and "locked_key inner k kl (fs w) s"
  shows "shelf inner s = shelf inner (fs w)"
proof -
  from assms(1) have "wf_os (fs w)" by (simp add: ready_def)
  then have "content s (entry_path inner d) = content (fs w) (entry_path inner d)" for d
    using took_lock_ready(4,5) [OF assms] by (intro content_same) simp_all
  then show ?thesis by (simp add: shelf_def)
qed

lemma shelf_dropped:
  "inodes s = inodes s2 \<Longrightarrow> (\<forall>q. q \<noteq> lock_path inner d \<longrightarrow> ino_at s q = ino_at s2 q) \<Longrightarrow> shelf inner s = shelf inner s2"
  by (simp add: shelf_def content_def regular_at_def metadata_at_def cong: option.case_cong)

lemma shelf_entered:
  assumes "entered (lock_path inner d) (entry_path inner d) (fresh_entry u m bs t) s s'" and "wf_os s"
  shows "shelf inner s' = (shelf inner s)(d \<mapsto> bs)"
proof (rule ext)
  fix e
  from assms(1) obtain i where i: "inodes s' i = fresh_entry u m bs t"
    "\<And>r. ino_at s' r = (if r = entry_path inner d then Some i else if r = lock_path inner d then None else ino_at s r)"
    and same: "\<forall>k < next_ino s. inodes s' k = inodes s k"
    by (auto simp: entered_def)
  show "shelf inner s' e = ((shelf inner s)(d \<mapsto> bs)) e"
  proof (cases "e = d")
    case True
    then show ?thesis
      by (simp add: shelf_def content_def regular_at_def metadata_at_def i is_file_def fresh_entry_def)
  next
    case False
    then have "ino_at s' (entry_path inner e) = ino_at s (entry_path inner e)" by (simp add: i(2))
    from content_same [OF assms(2) this] same False show ?thesis by (simp add: shelf_def)
  qed
qed

section \<open>The operations on the map\<close>

lemma lookup_on_map:
  assumes r: "at_rest inner w"
  shows "\<exists>w'. cache_lookup j inner k w = (Inr (answer j inner k (now_ms w) (shelf inner (fs w) (digest k))), w')
    \<and> shelf inner (fs w') = shelf inner (fs w)"
proof -
  from r have rd: "ready inner w" and wf: "wf_os (fs w)" by (simp_all add: at_rest_def ready_def)
  from cache_read_calm [OF rd, of j k False] obtain s where
    s: "cache_lookup j inner k w = (Inr (verdict_lookup (verdict_on j inner k (fs w))), w\<lparr>fs := s\<rparr>)"
      "verdict_effect (verdict_on j inner k (fs w)) False (entry_path inner (digest k)) (at (now_ms w)) (fs w) s"
    by (auto simp: cache_lookup_def)
  with shelf_verdict [OF s(2) wf] verdict_answer [of j inner k "fs w"] show ?thesis by (auto simp: now_ms_def)
qed

lemma session_on_map:
  assumes r: "at_rest inner w"
  shows "\<exists>kl w1 x w2. cache_lock inner k w = (Inr kl, w1) \<and> locked_lookup j kl w1 = (Inr x, w2)
    \<and> x = answer j inner k (now_ms w) (shelf inner (fs w) (digest k))
    \<and> shelf inner (fs (drop_key_lock kl w2)) =
        (if x = Miss \<and> shelf inner (fs (drop_key_lock kl w2)) (digest k) = None
         then (shelf inner (fs w))(digest k := None) else shelf inner (fs w))"
proof -
  from r have rd: "ready inner w" by (simp add: at_rest_def)
  from at_rest_lock [OF r, of k] obtain kl s1 where l: "cache_lock inner k w = (Inr kl, w\<lparr>fs := s1\<rparr>)"
    and lk: "locked_key inner k kl (fs w) s1" by auto
  note after = took_lock_ready [OF rd lk]
  from lk have kl: "kl_inner kl = inner" "kl_key kl = k" by (simp_all add: locked_key_def)
  let ?v = "verdict_on j inner k s1"
  from cache_read_undisturbed [of "w\<lparr>fs := s1\<rparr>" inner j k True] after obtain s2 where
    s2: "locked_lookup j kl (w\<lparr>fs := s1\<rparr>) = (Inr (verdict_lookup ?v), w\<lparr>fs := s2\<rparr>)"
      "verdict_effect ?v True (entry_path inner (digest k)) (at (now_ms (w\<lparr>fs := s1\<rparr>))) s1 s2"
    by (auto simp: locked_lookup_def kl)
  from drop_key_lock_rest [OF r lk kept_verdict [OF s2(2) after(2)]] obtain s where
    s: "drop_key_lock kl (w\<lparr>fs := s2\<rparr>) = w\<lparr>fs := s\<rparr>" "shelf inner s = shelf inner s2"
    using shelf_dropped by blast
  note same = shelf_took [OF rd lk]
  have x: "verdict_lookup ?v = answer j inner k (now_ms w) (shelf inner (fs w) (digest k))"
    using verdict_answer [of j inner k s1] after(6) same by (simp add: now_ms_def)
  have "shelf inner s = shelf inner (fs w) \<or> verdict_lookup ?v = Miss \<and> shelf inner s = (shelf inner (fs w))(digest k := None)"
    using shelf_verdict [OF s2(2) after(2)] s(2) same by (auto simp: verdict_lookup_def)
  then have "shelf inner s = (if verdict_lookup ?v = Miss \<and> shelf inner s (digest k) = None
      then (shelf inner (fs w))(digest k := None) else shelf inner (fs w))" by (auto simp: fun_upd_idem)
  then have "shelf inner (fs (drop_key_lock kl (w\<lparr>fs := s2\<rparr>))) =
      (if verdict_lookup ?v = Miss \<and> shelf inner (fs (drop_key_lock kl (w\<lparr>fs := s2\<rparr>))) (digest k) = None
       then (shelf inner (fs w))(digest k := None) else shelf inner (fs w))"
    unfolding s(1) by simp
  with l s2(1) x show ?thesis by blast
qed

lemma prune_on_map:
  assumes r: "at_rest inner w"
  shows "\<exists>w'. prune j inner wt w = (Inr (prune_result j inner (fs w)), w')
    \<and> shelf inner (fs w') = (\<lambda>d. if entry_path inner d \<in> prune_names j inner (fs w) then None else shelf inner (fs w) d)"
proof -
  from r have rd: "ready inner w" and wf: "wf_os (fs w)" by (simp_all add: at_rest_def ready_def)
  from prune_calm_free [OF rd at_rest_free(3) [OF r], of j wt] obtain s i t where
    s: "prune j inner wt w = (Inr (prune_result j inner (fs w)), w\<lparr>fs := s\<rparr>)"
    and st: "reduced (prune_names j inner (fs w)) (set_node i ((inodes (fs w) i)\<lparr>mtime := t\<rparr>) (fs w)) s"
    by (auto simp: stamped_def)
  from shelf_reduced [OF st, of inner] shelf_set_mtime [OF wf] wf s show ?thesis by (auto simp: wf_set_node)
qed

lemma clear_on_map:
  assumes r: "at_rest inner w"
  shows "\<exists>w'. clear inner w = (Inr (), w') \<and> shelf inner (fs w') = Map.empty"
proof -
  from r have rd: "ready inner w" and wf: "wf_os (fs w)" by (simp_all add: at_rest_def ready_def)
  from clear_calm_free [OF rd at_rest_free(1) [OF r]] obtain s where
    s: "clear inner w = (Inr (), w\<lparr>fs := s\<rparr>)" "reduced (cleared inner (fs w)) (fs w) s" by blast
  have "shelf inner s d = None" for d
  proof (cases "entry_path inner d \<in> cleared inner (fs w)")
    case False
    then have "ino_at (fs w) (entry_path inner d) = None"
      using contents_of_child [OF wf child_of_simps(1), of inner d] unfolding cleared_def by blast
    with False show ?thesis by (simp add: shelf_reduced [OF s(2) wf]) (simp add: shelf_def content_missing)
  qed (simp add: shelf_reduced [OF s(2) wf])
  with s(1) show ?thesis by auto
qed

lemma maintain_on_map:
  assumes r: "at_rest inner w" and m: "maintain j inner w = (x, w')"
  shows "map_le (shelf inner (fs w')) (shelf inner (fs w))"
proof -
  from r have "ready inner w" by (simp add: at_rest_def)
  from maintain_worlds [OF this, of j] m have "w' = w \<or> w' = snd (prune j inner Skip w)" by simp
  with prune_on_map [OF r, of j Skip] show ?thesis by (auto simp: map_le_def split: if_splits)
qed

text \<open>A store puts the new bytes under its key's digest; its maintenance may only take away.\<close>

lemma store_on_map:
  assumes r: "at_rest inner w" and tmp: "ino_at (fs w) (temp_path inner (digest k) rnd) = None"
    and e: "encoded = to_vec j (entry_to_write inner k pol (now_ms w) v)"
  shows "\<exists>kl w1 x w2. cache_lock inner k w = (Inr kl, w1) \<and> store rnd j kl v pol w1 = (x, w2)
    \<and> (case encoded of
        None \<Rightarrow> x = Inl (Err Encode) \<and> shelf inner (fs w2) = shelf inner (fs w)
      | Some bytes \<Rightarrow>
          if u64_or_max (length bytes) > max_entry_bytes (i_limits inner)
          then x = Inr (TooLarge (u64_or_max (length bytes))) \<and> shelf inner (fs w2) = shelf inner (fs w)
          else (\<exists>mt. x = Inr (Written mt) \<and> (if mt = NotNeeded
            then shelf inner (fs w2) = (shelf inner (fs w))(digest k \<mapsto> bytes)
            else map_le (shelf inner (fs w2)) ((shelf inner (fs w))(digest k \<mapsto> bytes)))))"
proof -
  from r have rd: "ready inner w" and wf: "wf_os (fs w)" and td: "tidy inner (fs w)" by (simp_all add: at_rest_def ready_def)
  from at_rest_lock [OF r, of k] obtain kl s1 where l: "cache_lock inner k w = (Inr kl, w\<lparr>fs := s1\<rparr>)"
    and lk: "locked_key inner k kl (fs w) s1" by auto
  note after = took_lock_ready [OF rd lk]
  from lk have kl: "kl_inner kl = inner" "kl_key kl = k" by (simp_all add: locked_key_def)
  have now: "now_ms (w\<lparr>fs := s1\<rparr>) = now_ms w" using after(6) by (simp add: now_ms_def)
  have dropped: "shelf inner (fs (drop_key_lock kl (w\<lparr>fs := s1\<rparr>))) = shelf inner (fs w)"
  proof -
    from drop_key_lock_rest [OF r lk kept_refl [OF after(2)]] obtain s where
      s: "drop_key_lock kl (w\<lparr>fs := s1\<rparr>) = w\<lparr>fs := s\<rparr>" "shelf inner s = shelf inner s1"
      using shelf_dropped by blast
    with shelf_took [OF rd lk] show ?thesis by simp
  qed
  show ?thesis
  proof (cases encoded)
    case None
    with e have "store rnd j kl v pol (w\<lparr>fs := s1\<rparr>) = (Inl (Err Encode), drop_key_lock kl (w\<lparr>fs := s1\<rparr>))"
      by (simp add: store_def kl now)
    with l dropped None show ?thesis by fastforce
  next
    case (Some bytes)
    let ?big = "u64_or_max (length bytes) > max_entry_bytes (i_limits inner)"
    show ?thesis
    proof (cases ?big)
      case True
      with Some e have "store rnd j kl v pol (w\<lparr>fs := s1\<rparr>) =
          (Inr (TooLarge (u64_or_max (length bytes))), drop_key_lock kl (w\<lparr>fs := s1\<rparr>))"
        by (simp add: store_def kl now Let_def)
      with l dropped Some True show ?thesis by fastforce
    next
      case False
      have "map_option kind (node_at (fs w) (entry_path inner (digest k))) \<noteq> Some Directory"
        using td unfolding tidy_def by blast
      from store_calm [OF rd at_rest_free(2) [OF r] at_rest_free(1) [OF r] tmp this _ False] Some e l obtain s2 s3 where
        en: "entered (lock_path inner (digest k)) (entry_path inner (digest k))
          (fresh_entry (euid w) (write_perm w) bytes (now_ms w)) (fs w) s2"
        and st: "store rnd j kl v pol (w\<lparr>fs := s1\<rparr>) = (Inr (Written (maintenance_of j inner s2)), w\<lparr>fs := s3\<rparr>)"
        and idle: "\<not> due inner s2 \<longrightarrow> s3 = s2"
        and m: "maintain j inner (w\<lparr>fs := s2\<rparr>) = (Inr (maintenance_of j inner s2), w\<lparr>fs := s3\<rparr>)"
        by force
      note new = shelf_entered [OF en wf]
      have "map_le (shelf inner s3) (shelf inner s2)"
        using maintain_on_map [OF at_rest_entered [OF r en] m] by simp
      moreover have "s3 = s2" if "maintenance_of j inner s2 = NotNeeded"
        using that idle by (simp add: maintenance_of_def split: if_splits)
      ultimately have "\<exists>mt. Inr (Written (maintenance_of j inner s2)) = Inr (Written mt) \<and> (if mt = NotNeeded
            then shelf inner s3 = (shelf inner (fs w))(digest k \<mapsto> bytes)
            else map_le (shelf inner s3) ((shelf inner (fs w))(digest k \<mapsto> bytes)))"
        using new by auto
      with l st Some False show ?thesis by (intro exI [of _ kl] exI [of _ "w\<lparr>fs := s1\<rparr>"]) auto
    qed
  qed
qed

end
