(* ===== verification/Sharing.thy ===== *)
theory Sharing
  imports Map_View Prune_Properties
begin

text \<open>
  Any number of callers, in any processes of the user, on one cache. They share the file
  system, and each \<open>KeyLock\<close> somebody holds is in a list. \<open>shared_ok\<close> ties that list to the
  lock table and the lock files; every complete operation of any caller keeps it. A call that
  would wait is no step until it can go on.
\<close>

section \<open>The key locks that are out\<close>

type_synonym party = "world \<times> key_lock list"

abbreviation key_digest :: "key_lock \<Rightarrow> str" where
  "key_digest kl \<equiv> digest (kl_key kl)"

text \<open>The two entries of a \<open>KeyLock\<close> in the lock table: its key and \<open>maintenance.lock\<close>.\<close>

definition tokens :: "key_lock \<Rightarrow> (nat \<times> nat \<times> lock_mode) list" where
  "tokens kl = [(fd (h_file (kl_held kl)), f_ino (h_file (kl_held kl)), Exclusive),
     (fd (kl_maintenance kl), f_ino (kl_maintenance kl), Shared)]"

definition owns_key :: "inner \<Rightarrow> os \<Rightarrow> key_lock \<Rightarrow> bool" where
  "owns_key inner s kl \<longleftrightarrow> kl_inner kl = inner \<and> is_digest (key_digest kl)
     \<and> h_path (kl_held kl) = lock_path inner (key_digest kl)
     \<and> ino_at s (lock_path inner (key_digest kl)) = Some (f_ino (h_file (kl_held kl)))
     \<and> ino_at s (maintenance_path inner) = Some (f_ino (kl_maintenance kl))"

definition shared_ok :: "inner \<Rightarrow> party \<Rightarrow> bool" where
  "shared_ok inner p \<longleftrightarrow> (case p of (w, ls) \<Rightarrow> ready inner w \<and> tidy inner (fs w)
     \<and> locks (fs w) = concat (map tokens ls) \<and> distinct (map fst (concat (map tokens ls)))
     \<and> (\<forall>kl \<in> set ls. owns_key inner (fs w) kl) \<and> distinct (map key_digest ls))"

lemma shared_okD:
  assumes "shared_ok inner (w, ls)"
  shows "ready inner w" "calm w" "wf_os (fs w)" "tidy inner (fs w)"
    "locks (fs w) = concat (map tokens ls)" "kl \<in> set ls \<Longrightarrow> owns_key inner (fs w) kl"
    "private_dir w (entries_dir inner)"
  using assms by (simp_all add: shared_ok_def ready_def)

lemma shared_ok_rest: "shared_ok inner (w, []) \<longleftrightarrow> at_rest inner w"
  by (auto simp: shared_ok_def at_rest_def)

lemma lock_path_neqs [simp]:
  "lock_path inner d \<noteq> maintenance_path inner" "lock_path inner d \<noteq> prune_lock_path inner"
  "maintenance_path inner \<noteq> lock_path inner d" "maintenance_path inner \<noteq> prune_lock_path inner"
  "prune_lock_path inner \<noteq> lock_path inner d" "prune_lock_path inner \<noteq> maintenance_path inner"
  using lock_path_not_fixed [of inner d]
  by (auto simp: fixed_paths_def maintenance_path_def prune_lock_path_def maintenance_name_def prune_lock_name_def)

lemma tokens_inos: "(fst \<circ> snd) ` set (concat (map tokens ls)) =
    (\<lambda>kl. f_ino (h_file (kl_held kl))) ` set ls \<union> (\<lambda>kl. f_ino (kl_maintenance kl)) ` set ls"
  by (induction ls) (auto simp: tokens_def)

text \<open>What the list says of the locks: which keys are taken, and that nothing else is.\<close>

lemma shared_busy:
  assumes ok: "shared_ok inner (w, ls)"
  shows "key_busy inner (fs w) d \<longleftrightarrow> d \<in> key_digest ` set ls"
    "lock_busy (fs w) (maintenance_path inner) \<longleftrightarrow> ls \<noteq> []"
    "\<not> excl_locked (fs w) (maintenance_path inner)" "\<not> blocked inner (fs w)"
proof -
  note D = shared_okD [OF ok]
  note own = D(6) [unfolded owns_key_def]
  have inj: "p = q" if "ino_at (fs w) p = Some i" "ino_at (fs w) q = Some i" for p q i
    using wf_ino_inj [OF D(3)] that by blast
  have held: "i \<in> (fst \<circ> snd) ` set (locks (fs w)) \<longleftrightarrow>
      (\<exists>kl \<in> set ls. p = lock_path inner (key_digest kl) \<or> p = maintenance_path inner)"
    if "ino_at (fs w) p = Some i" for p i
  proof -
    have "(i = f_ino (h_file (kl_held kl))) = (p = lock_path inner (key_digest kl))"
      "(i = f_ino (kl_maintenance kl)) = (p = maintenance_path inner)" if "kl \<in> set ls" for kl
      using own [OF that] inj \<open>ino_at (fs w) p = Some i\<close> by (metis option.inject)+
    then show ?thesis unfolding D(5) tokens_inos by (simp add: image_iff) blast
  qed
  have busy: "lock_busy (fs w) p \<longleftrightarrow>
      (\<exists>kl \<in> set ls. p = lock_path inner (key_digest kl) \<or> p = maintenance_path inner)"
    if "ino_at (fs w) p \<noteq> None \<or> (\<exists>d. p = lock_path inner d)" for p
    using that held [of p] own by (cases "ino_at (fs w) p") (auto simp: lock_busy_def)
  show "key_busy inner (fs w) d \<longleftrightarrow> d \<in> key_digest ` set ls"
    using busy [of "lock_path inner d"] by auto
  from D(1) have fixed: "ino_at (fs w) (maintenance_path inner) \<noteq> None" "ino_at (fs w) (prune_lock_path inner) \<noteq> None"
    by (auto simp: ready_def private_file_def)
  show m: "lock_busy (fs w) (maintenance_path inner) \<longleftrightarrow> ls \<noteq> []"
    using busy [of "maintenance_path inner"] fixed by (cases ls) auto
  show x: "\<not> excl_locked (fs w) (maintenance_path inner)"
  proof
    assume "excl_locked (fs w) (maintenance_path inner)"
    then obtain i d where i: "ino_at (fs w) (maintenance_path inner) = Some i" and "(d, i, Exclusive) \<in> set (locks (fs w))"
      by (auto simp: excl_locked_def split: option.splits)
    then obtain kl where kl: "kl \<in> set ls" "i = f_ino (h_file (kl_held kl))" by (auto simp: D(5) tokens_def)
    with own [of kl] inj [OF i, of "lock_path inner (key_digest kl)"] show False by simp
  qed
  show "\<not> blocked inner (fs w)"
    using x busy [of "prune_lock_path inner"] fixed by (simp add: blocked_def)
qed

section \<open>What keeps the invariant\<close>

lemma shared_kept:
  assumes ok: "shared_ok inner (w, ls)" and k: "kept_names inner (fs w) s"
  shows "shared_ok inner (w\<lparr>fs := s\<rparr>, ls)"
proof -
  note D = shared_okD [OF ok]
  from k have "locks s = locks (fs w)" by (simp add: kept_names_def)
  moreover have "ino_at s q = ino_at (fs w) q" if "q \<in> fixed_paths inner \<or> child_of (locks_dir inner) q" for q
    using k that unfolding kept_names_def by blast
  then have "\<forall>kl \<in> set ls. owns_key inner s kl"
    using D(6) by (simp add: owns_key_def fixed_paths_def)
  ultimately show ?thesis
    using ok ready_kept [OF D(1) k] tidy_kept [OF k D(3,4)] by (simp add: shared_ok_def)
qed

lemma shared_reduced:
  assumes ok: "shared_ok inner (w, ls)" and s: "reduced D (fs w) s" and fixed: "D \<inter> fixed_paths inner = {}"
    and off: "\<And>kl. kl \<in> set ls \<Longrightarrow> lock_path inner (key_digest kl) \<notin> D"
  shows "shared_ok inner (w\<lparr>fs := s\<rparr>, ls)"
proof -
  note D = shared_okD [OF ok]
  have "maintenance_path inner \<notin> D" using fixed by (auto simp: fixed_paths_def)
  with D(6) off have "\<forall>kl \<in> set ls. owns_key inner s kl"
    by (simp add: owns_key_def reduced_ino_at [OF s])
  moreover have "tidy inner s"
    using D(4) by (auto simp: tidy_def reduced_node_at [OF s D(3)])
  moreover have "locks s = locks (fs w)" using s by (simp add: reduced_def)
  ultimately show ?thesis using ok ready_reduced [OF D(1) s fixed] by (simp add: shared_ok_def)
qed

section \<open>Taking, dropping and writing under a key\<close>

lemma ready_same:
  assumes r: "ready inner w" and wf: "wf_os s" and i: "\<forall>k < next_ino (fs w). inodes s k = inodes (fs w) k"
    and fixed: "\<And>q. q \<in> fixed_paths inner \<Longrightarrow> ino_at s q = ino_at (fs w) q"
    and lk: "\<And>q. child_of (locks_dir inner) q \<Longrightarrow> ino_at s q \<noteq> None \<Longrightarrow> private_file (w\<lparr>fs := s\<rparr>) q"
  shows "ready inner (w\<lparr>fs := s\<rparr>)"
proof -
  from r have "wf_os (fs w)" by (simp add: ready_def)
  note same = private_same [OF this fixed i]
  from r wf lk same show ?thesis by (auto simp: ready_def fixed_paths_def)
qed

lemma shared_take:
  assumes ok: "shared_ok inner (w, ls)" and k: "is_digest (digest k)" "digest k \<notin> key_digest ` set ls"
  shows "\<exists>kl s. cache_lock inner k w = (Inr kl, w\<lparr>fs := s\<rparr>) \<and> shared_ok inner (w\<lparr>fs := s\<rparr>, kl # ls)
    \<and> kl_key kl = k \<and> clock s = clock (fs w) \<and> shelf inner s = shelf inner (fs w)
    \<and> (\<forall>q. q \<noteq> lock_path inner (digest k) \<longrightarrow> ino_at s q = ino_at (fs w) q)"
proof -
  note D = shared_okD [OF ok]
  let ?p = "lock_path inner (digest k)" and ?s = "fs w"
  from cache_lock_calm [OF D(1) shared_busy(3) [OF ok]] k(2) shared_busy(1) [OF ok] obtain kl s where
    l: "cache_lock inner k w = (Inr kl, w\<lparr>fs := s\<rparr>)" and lk: "locked_key inner k kl ?s s"
    and pf: "private_file (w\<lparr>fs := s\<rparr>) ?p" by blast
  note after = took_lock_ready [OF D(1) lk]
  from lk have kl: "kl_inner kl = inner" "kl_key kl = k" "fd (kl_maintenance kl) = next_fd ?s"
    and m: "ino_at ?s (maintenance_path inner) = Some (f_ino (kl_maintenance kl))"
    and h: "h_path (kl_held kl) = ?p" "fd (h_file (kl_held kl)) = Suc (next_fd ?s)"
      "ino_at s ?p = Some (f_ino (h_file (kl_held kl)))" "locks s = tokens kl @ locks ?s"
    by (auto simp: locked_key_def took_def tokens_def)
  have "ready inner (w\<lparr>fs := s\<rparr>)"
  proof (rule ready_same [OF D(1) after(2,5)])
    show "ino_at s q = ino_at ?s q" if "q \<in> fixed_paths inner" for q
      using that lock_path_not_fixed [of inner "digest k"] by (intro after(4)) auto
    show "private_file (w\<lparr>fs := s\<rparr>) q" if "child_of (locks_dir inner) q" "ino_at s q \<noteq> None" for q
      using that pf D(1) private_same(2) [OF D(3) after(4,5), of q] after(4) [of q]
      by (cases "q = ?p") (simp_all add: ready_def)
  qed
  moreover have "tidy inner s"
    unfolding tidy_def
  proof
    fix d
    have "node_at s (entry_path inner d) = node_at ?s (entry_path inner d)"
      using after(4) [of "entry_path inner d"] after(5) wf_ino_less [OF D(3), of "entry_path inner d"]
      by (cases "ino_at ?s (entry_path inner d)") (simp_all add: node_at_def)
    with D(4) show "map_option kind (node_at s (entry_path inner d)) \<noteq> Some Directory"
      unfolding tidy_def by metis
  qed
  moreover have "distinct (map fst (concat (map tokens (kl # ls))))"
  proof -
    have "x < next_fd ?s" if "x \<in> set (map fst (locks ?s))" for x
      using that D(3) by (auto simp: wf_os_def)
    then have "next_fd ?s \<notin> set (map fst (locks ?s))" "Suc (next_fd ?s) \<notin> set (map fst (locks ?s))"
      using Suc_n_not_le_n less_imp_le_nat by blast+
    with ok show ?thesis by (simp add: shared_ok_def tokens_def [of kl] kl h)
  qed
  moreover have "owns_key inner s kl"
    using kl k(1) m h after(4) [of "maintenance_path inner"] by (simp add: owns_key_def)
  moreover have "owns_key inner s l" if "l \<in> set ls" for l
  proof -
    from that k(2) have "lock_path inner (key_digest l) \<noteq> ?p" by (metis image_eqI lock_path_inj)
    with D(6) [OF that] after(4) show ?thesis by (simp add: owns_key_def)
  qed
  ultimately have "shared_ok inner (w\<lparr>fs := s\<rparr>, kl # ls)"
    using ok k(2) h(4) by (simp add: shared_ok_def kl(2))
  with l kl(2) after(4,6) shelf_took [OF D(1) lk] show ?thesis by blast
qed

definition without :: "key_lock \<Rightarrow> (nat \<times> nat \<times> lock_mode) list \<Rightarrow> (nat \<times> nat \<times> lock_mode) list" where
  "without kl l = filter (\<lambda>(d, i, m). d \<noteq> fd (kl_maintenance kl))
     (filter (\<lambda>(d, i, m). d \<noteq> fd (h_file (kl_held kl))) l)"

lemma without_eq: "without kl l = filter (\<lambda>t. fst t \<notin> fst ` set (tokens kl)) l"
  unfolding without_def filter_filter by (rule filter_cong [OF refl]) (auto simp: tokens_def)

lemma without_own: "distinct (map fst (tokens kl @ l)) \<Longrightarrow> without kl (tokens kl @ l) = l"
  unfolding without_eq filter_append by (subst filter_False, simp, subst filter_True) auto

lemma without_other: "distinct (map fst (tokens a @ l)) \<Longrightarrow> set (tokens kl) \<subseteq> set l \<Longrightarrow>
    without kl (tokens a @ l) = tokens a @ without kl l"
  unfolding without_eq filter_append by (subst (1) filter_True) auto

lemma drop_tokens:
  "distinct (map fst (concat (map tokens ls))) \<Longrightarrow> kl \<in> set ls \<Longrightarrow>
    without kl (concat (map tokens ls)) = concat (map tokens (remove1 kl ls))"
proof (induction ls)
  case (Cons a ls)
  show ?case
  proof (cases "a = kl")
    case True
    with without_own [of kl] Cons.prems(1) show ?thesis by simp
  next
    case False
    with Cons.prems(2) have "kl \<in> set ls" by simp
    moreover from this have "set (tokens kl) \<subseteq> set (concat (map tokens ls))" by auto
    ultimately show ?thesis using Cons False without_other [of a "concat (map tokens ls)" kl] by simp
  qed
qed simp

lemma shared_drop:
  assumes ok: "shared_ok inner (w, ls)" and kl: "kl \<in> set ls"
  shows "\<exists>s. drop_key_lock kl w = w\<lparr>fs := s\<rparr> \<and> shared_ok inner (w\<lparr>fs := s\<rparr>, remove1 kl ls)
    \<and> inodes s = inodes (fs w) \<and> clock s = clock (fs w)
    \<and> (\<forall>q. ino_at s q = (if q = lock_path inner (key_digest kl) then None else ino_at (fs w) q))"
proof -
  note D = shared_okD [OF ok]
  let ?p = "lock_path inner (key_digest kl)" and ?s = "fs w"
  from D(6) [OF kl] have p: "h_path (kl_held kl) = ?p" "ino_at ?s ?p = Some (f_ino (h_file (kl_held kl)))"
    by (simp_all add: owns_key_def)
  with D(1) have "private_file w ?p" by (simp add: ready_def)
  with p(2) have "node_at ?s ?p \<noteq> None" "kind (the (node_at ?s ?p)) \<noteq> Directory"
    by (auto simp: private_file_def node_at_def)
  with D(2) have rm: "remove_file ?p w = (Inr (), w\<lparr>fs := remove_name ?p ?s\<rparr>)"
    by (auto simp: calm_simps)
  let ?u = "(remove_name ?p ?s)\<lparr>locks := without kl (locks ?s)\<rparr>"
  have run: "drop_key_lock kl w = w\<lparr>fs := ?u\<rparr>"
    by (simp add: drop_key_lock_def drop_held_def p(1) rm drop_file_def without_def)
  have ino: "ino_at ?u q = (if q = ?p then None else ino_at ?s q)" for q by simp
  from ok have dd: "distinct (map key_digest ls)" by (simp add: shared_ok_def)
  have wf: "wf_os ?u"
    unfolding without_eq using wf_drop [OF wf_remove_name [OF D(3), of ?p]] by simp
  have "ready inner (w\<lparr>fs := ?u\<rparr>)"
  proof (rule ready_same [OF D(1) wf])
    show "\<forall>k < next_ino ?s. inodes ?u k = inodes ?s k" by simp
    show "ino_at ?u q = ino_at ?s q" if "q \<in> fixed_paths inner" for q
      using that lock_path_not_fixed [of inner "key_digest kl"] by (auto simp: ino)
    show "private_file (w\<lparr>fs := ?u\<rparr>) q" if "child_of (locks_dir inner) q" "ino_at ?u q \<noteq> None" for q
      using that D(1) by (auto simp: ready_def private_file_def ino split: if_splits)
  qed
  moreover have "tidy inner ?u"
    using D(4) by (simp add: tidy_def node_at_def ino)
  moreover have lk: "locks ?u = concat (map tokens (remove1 kl ls))"
    using drop_tokens [OF _ kl] ok D(5) by (simp add: shared_ok_def)
  moreover have "distinct (map fst (concat (map tokens (remove1 kl ls))))"
    using ok D(5) unfolding lk [symmetric] by (simp add: without_eq shared_ok_def distinct_map_filter)
  moreover have "owns_key inner ?u l" if "l \<in> set (remove1 kl ls)" for l
  proof -
    from dd have "distinct ls" by (simp add: distinct_map)
    with that have "l \<in> set ls" "l \<noteq> kl" by simp_all
    with dd kl have "key_digest l \<noteq> key_digest kl" by (meson distinct_map inj_onD)
    with D(6) [OF \<open>l \<in> set ls\<close>] show ?thesis by (simp add: owns_key_def)
  qed
  moreover have "distinct (map key_digest (remove1 kl ls))"
    using dd by (simp add: distinct_map inj_on_diff)
  ultimately have "shared_ok inner (w\<lparr>fs := ?u\<rparr>, remove1 kl ls)" by (simp add: shared_ok_def)
  with run ino show ?thesis by (intro exI [of _ ?u]) simp
qed

lemma shared_wrote:
  assumes ok: "shared_ok inner (w, ls)" and wr: "wrote (entry_path inner d) (fresh_entry u m bs t) (fs w) s"
  shows "shared_ok inner (w\<lparr>fs := s\<rparr>, ls)" "shelf inner s = (shelf inner (fs w))(d \<mapsto> bs)"
proof -
  note D = shared_okD [OF ok]
  let ?q = "entry_path inner d"
  from wr obtain i where i: "inodes s i = fresh_entry u m bs t" "\<And>q. ino_at s q = (if q = ?q then Some i else ino_at (fs w) q)"
    and keep: "\<forall>k < next_ino (fs w). inodes s k = inodes (fs w) k" and wf: "wf_os s" and lk: "locks s = locks (fs w)"
    by (auto simp: wrote_def)
  have "ready inner (w\<lparr>fs := s\<rparr>)"
  proof (rule ready_same [OF D(1) wf keep])
    show "ino_at s q = ino_at (fs w) q" if "q \<in> fixed_paths inner" for q
      using that entry_path_not_fixed [of inner d ?q] by (auto simp: i(2) under_def)
    show "private_file (w\<lparr>fs := s\<rparr>) q" if q: "child_of (locks_dir inner) q" "ino_at s q \<noteq> None" for q
    proof -
      from q(1) have "q \<noteq> ?q" by auto
      then have same: "ino_at s q = ino_at (fs w) q" by (simp add: i(2))
      with private_same(2) [OF D(3) same keep] q D(1) show ?thesis by (simp add: ready_def)
    qed
  qed
  moreover have "tidy inner s"
    unfolding tidy_def
  proof
    fix e
    have "node_at s (entry_path inner e) = node_at (fs w) (entry_path inner e)" if "e \<noteq> d"
      using that keep wf_ino_less [OF D(3), of "entry_path inner e"]
      by (cases "ino_at (fs w) (entry_path inner e)") (auto simp: node_at_def i(2))
    with D(4) i show "map_option kind (node_at s (entry_path inner e)) \<noteq> Some Directory"
      by (cases "e = d") (auto simp: tidy_def node_at_def fresh_entry_def)
  qed
  moreover have "owns_key inner s l" if "l \<in> set ls" for l
  proof -
    have "lock_path inner (key_digest l) \<noteq> ?q" "maintenance_path inner \<noteq> ?q"
      using entry_path_not_fixed [of inner d ?q] by (auto simp: fixed_paths_def under_def)
    with D(6) [OF that] show ?thesis by (simp add: owns_key_def i(2))
  qed
  ultimately show "shared_ok inner (w\<lparr>fs := s\<rparr>, ls)" using ok lk by (simp add: shared_ok_def)
  show "shelf inner s = (shelf inner (fs w))(d \<mapsto> bs)"
  proof (rule ext)
    fix e
    show "shelf inner s e = ((shelf inner (fs w))(d \<mapsto> bs)) e"
    proof (cases "e = d")
      case True
      then show ?thesis by (simp add: shelf_def content_def regular_at_def metadata_at_def i is_file_def fresh_entry_def)
    next
      case False
      with content_same [OF D(3), of s "entry_path inner e"] keep show ?thesis by (simp add: shelf_def i(2))
    qed
  qed
qed

section \<open>One operation of one caller\<close>

text \<open>
  What every operation does for the others: the invariant holds again, and no lock file is
  left that is neither held nor was a leftover before.
\<close>

definition strays :: "inner \<Rightarrow> party \<Rightarrow> path set" where
  "strays inner p = (case p of (w, ls) \<Rightarrow> {q. child_of (locks_dir inner) q \<and> ino_at (fs w) q \<noteq> None
     \<and> q \<notin> (\<lambda>kl. lock_path inner (key_digest kl)) ` set ls})"

definition goes :: "inner \<Rightarrow> party \<Rightarrow> party \<Rightarrow> bool" where
  "goes inner p p' \<longleftrightarrow> shared_ok inner p' \<and> strays inner p' \<subseteq> strays inner p"

lemma goes_trans: "goes inner p p' \<Longrightarrow> goes inner p' p'' \<Longrightarrow> goes inner p p''"
  by (auto simp: goes_def)

lemma goes_kept: "shared_ok inner (w, ls) \<Longrightarrow> kept_names inner (fs w) s \<Longrightarrow> goes inner (w, ls) (w\<lparr>fs := s\<rparr>, ls)"
  using shared_kept [of inner w ls s] by (auto simp: goes_def strays_def kept_names_def)

lemma goes_reduced:
  assumes "shared_ok inner (w, ls)" and s: "reduced D (fs w) s" and "D \<inter> fixed_paths inner = {}"
    and "\<And>kl. kl \<in> set ls \<Longrightarrow> lock_path inner (key_digest kl) \<notin> D"
  shows "goes inner (w, ls) (w\<lparr>fs := s\<rparr>, ls)"
  using shared_reduced [OF assms] by (auto simp: goes_def strays_def reduced_ino_at [OF s] split: if_splits)

lemma shared_lookup:
  assumes ok: "shared_ok inner (w, ls)"
  shows "\<exists>s. cache_lookup j inner k w =
      (Inr (answer j inner k (now_ms w) (shelf inner (fs w) (digest k))), w\<lparr>fs := s\<rparr>)
    \<and> goes inner (w, ls) (w\<lparr>fs := s\<rparr>, ls) \<and> shelf inner s = shelf inner (fs w)"
proof -
  note D = shared_okD [OF ok]
  from cache_read_calm [OF D(1), of j k False] obtain s where
    s: "cache_lookup j inner k w = (Inr (verdict_lookup (verdict_on j inner k (fs w))), w\<lparr>fs := s\<rparr>)"
      "verdict_effect (verdict_on j inner k (fs w)) False (entry_path inner (digest k)) (at (now_ms w)) (fs w) s"
    by (auto simp: cache_lookup_def)
  with goes_kept [OF ok kept_verdict [OF s(2) D(3)]] shelf_verdict [OF s(2) D(3)] verdict_answer [of j inner k "fs w"]
  show ?thesis by (auto simp: now_ms_def)
qed

lemma shared_reread:
  assumes ok: "shared_ok inner (w, ls)" and kl: "kl \<in> set ls"
  shows "\<exists>s. locked_lookup j kl w =
      (Inr (answer j inner (kl_key kl) (now_ms w) (shelf inner (fs w) (key_digest kl))), w\<lparr>fs := s\<rparr>)
    \<and> goes inner (w, ls) (w\<lparr>fs := s\<rparr>, ls) \<and> (\<forall>d. d \<noteq> key_digest kl \<longrightarrow> shelf inner s d = shelf inner (fs w) d)"
proof -
  note D = shared_okD [OF ok]
  let ?k = "kl_key kl"
  from D(6) [OF kl] have "kl_inner kl = inner" by (simp add: owns_key_def)
  with cache_read_undisturbed [OF D(2,3,7), of j ?k True] obtain s where
    s: "locked_lookup j kl w = (Inr (verdict_lookup (verdict_on j inner ?k (fs w))), w\<lparr>fs := s\<rparr>)"
      "verdict_effect (verdict_on j inner ?k (fs w)) True (entry_path inner (digest ?k)) (at (now_ms w)) (fs w) s"
    by (auto simp: locked_lookup_def)
  with goes_kept [OF ok kept_verdict [OF s(2) D(3)]] shelf_verdict [OF s(2) D(3)] verdict_answer [of j inner ?k "fs w"]
  show ?thesis by (auto simp: now_ms_def)
qed

text \<open>A prune leaves the entry of every held key, whoever holds it.\<close>

lemma shared_prune:
  assumes ok: "shared_ok inner (w, ls)"
  shows "\<exists>s. prune j inner wt w = (Inr (prune_result j inner (fs w)), w\<lparr>fs := s\<rparr>)
    \<and> goes inner (w, ls) (w\<lparr>fs := s\<rparr>, ls)
    \<and> (\<forall>kl \<in> set ls. shelf inner s (key_digest kl) = shelf inner (fs w) (key_digest kl))"
proof -
  note D = shared_okD [OF ok]
  let ?D = "prune_names j inner (fs w)"
  from prune_calm_free [OF D(1) shared_busy(4) [OF ok], of j wt] obtain s i t where
    s: "prune j inner wt w = (Inr (prune_result j inner (fs w)), w\<lparr>fs := s\<rparr>)"
    and st: "reduced ?D (set_node i ((inodes (fs w) i)\<lparr>mtime := t\<rparr>) (fs w)) s"
    by (auto simp: stamped_def)
  let ?s0 = "set_node i ((inodes (fs w) i)\<lparr>mtime := t\<rparr>) (fs w)"
  have kept: "kept_names inner (fs w) ?s0" using D(3) by (simp add: kept_names_def wf_set_node)
  have busy: "key_busy inner (fs w) (key_digest kl)" if "kl \<in> set ls" for kl
    using that shared_busy(1) [OF ok] by blast
  note g = goes_kept [OF ok kept]
  then have "shared_ok inner (w\<lparr>fs := ?s0\<rparr>, ls)" by (simp add: goes_def)
  from goes_reduced [OF this, of ?D s] st have "goes inner (w\<lparr>fs := ?s0\<rparr>, ls) (w\<lparr>fs := s\<rparr>, ls)"
    using prune_names_not_fixed [of j inner "fs w"] held_lock_stays [OF busy, of _ j] by simp
  with g have "goes inner (w, ls) (w\<lparr>fs := s\<rparr>, ls)" by (rule goes_trans)
  moreover have "shelf inner s (key_digest kl) = shelf inner (fs w) (key_digest kl)" if "kl \<in> set ls" for kl
    using held_entry_stays [OF D(3) _ busy [OF that], of j] D(6) [OF that] shelf_reduced [OF st, of inner]
      shelf_set_mtime [OF D(3)] D(3) by (simp add: owns_key_def wf_set_node)
  ultimately show ?thesis using s by blast
qed

lemma shared_maintain:
  assumes ok: "shared_ok inner (w, ls)"
  shows "\<exists>s m. maintain j inner w = (Inr m, w\<lparr>fs := s\<rparr>) \<and> goes inner (w, ls) (w\<lparr>fs := s\<rparr>, ls)
    \<and> (\<forall>kl \<in> set ls. shelf inner s (key_digest kl) = shelf inner (fs w) (key_digest kl))
    \<and> (m = NotNeeded \<longrightarrow> s = fs w) \<and> m = maintenance_of j inner (fs w)"
proof -
  note D = shared_okD [OF ok]
  from maintain_calm [OF D(1), of j] obtain s where
    s: "maintain j inner w = (Inr (maintenance_of j inner (fs w)), w\<lparr>fs := s\<rparr>)" "\<not> due inner (fs w) \<longrightarrow> s = fs w"
    by blast
  from maintain_worlds [OF D(1), of j] s(1) have "w\<lparr>fs := s\<rparr> = w \<or> w\<lparr>fs := s\<rparr> = snd (prune j inner Skip w)" by auto
  then have "goes inner (w, ls) (w\<lparr>fs := s\<rparr>, ls)
      \<and> (\<forall>kl \<in> set ls. shelf inner s (key_digest kl) = shelf inner (fs w) (key_digest kl))"
  proof
    assume e: "w\<lparr>fs := s\<rparr> = w"
    then have "s = fs w" by (metis world.select_convs(1) world.surjective world.update_convs(1))
    with ok show ?thesis by (simp add: goes_def)
  next
    assume e: "w\<lparr>fs := s\<rparr> = snd (prune j inner Skip w)"
    from shared_prune [OF ok, of j Skip] obtain s' where p: "snd (prune j inner Skip w) = w\<lparr>fs := s'\<rparr>"
      and s': "goes inner (w, ls) (w\<lparr>fs := s'\<rparr>, ls)"
        "\<forall>kl \<in> set ls. shelf inner s' (key_digest kl) = shelf inner (fs w) (key_digest kl)" by auto
    from e p have "fs (w\<lparr>fs := s\<rparr>) = fs (w\<lparr>fs := s'\<rparr>)" by metis
    with s' show ?thesis by simp
  qed
  with s show ?thesis by (auto simp: maintenance_of_def split: if_splits)
qed

lemma shared_release:
  assumes ok: "shared_ok inner (w, ls)" and kl: "kl \<in> set ls"
  shows "\<exists>s. drop_key_lock kl w = w\<lparr>fs := s\<rparr> \<and> goes inner (w, ls) (w\<lparr>fs := s\<rparr>, remove1 kl ls)
    \<and> shelf inner s = shelf inner (fs w)"
proof -
  from shared_drop [OF assms] obtain s where s: "drop_key_lock kl w = w\<lparr>fs := s\<rparr>"
    "shared_ok inner (w\<lparr>fs := s\<rparr>, remove1 kl ls)" "inodes s = inodes (fs w)"
    and i: "\<And>q. ino_at s q = (if q = lock_path inner (key_digest kl) then None else ino_at (fs w) q)" by blast
  have "strays inner (w\<lparr>fs := s\<rparr>, remove1 kl ls) \<subseteq> strays inner (w, ls)"
  proof
    fix q assume "q \<in> strays inner (w\<lparr>fs := s\<rparr>, remove1 kl ls)"
    then have q: "child_of (locks_dir inner) q" "q \<noteq> lock_path inner (key_digest kl)" "ino_at (fs w) q \<noteq> None"
      "\<forall>l \<in> set (remove1 kl ls). q \<noteq> lock_path inner (key_digest l)"
      by (auto simp: strays_def i split: if_splits)
    then have "\<forall>l \<in> set ls. q \<noteq> lock_path inner (key_digest l)" by (metis in_set_remove1)
    with q show "q \<in> strays inner (w, ls)" by (auto simp: strays_def)
  qed
  moreover have "shelf inner s = shelf inner (fs w)"
    by (rule shelf_dropped [of s "fs w" inner "key_digest kl"]) (simp_all add: s i)
  ultimately show ?thesis using s by (auto simp: goes_def)
qed

lemma shared_store:
  assumes ok: "shared_ok inner (w, ls)" and kl: "kl \<in> set ls"
    and tmp: "ino_at (fs w) (temp_path inner (key_digest kl) rnd) = None"
  shows "\<exists>s x. store rnd j kl v pol w = (x, w\<lparr>fs := s\<rparr>) \<and> x \<noteq> Inl Pending
    \<and> goes inner (w, ls) (w\<lparr>fs := s\<rparr>, remove1 kl ls)
    \<and> (\<forall>l \<in> set (remove1 kl ls). shelf inner s (key_digest l) = shelf inner (fs w) (key_digest l))
    \<and> (x = Inr (Written NotNeeded) \<longrightarrow> (\<exists>bytes. to_vec j (entry_to_write inner (kl_key kl) pol (now_ms w) v) = Some bytes
        \<and> \<not> u64_or_max (length bytes) > max_entry_bytes (i_limits inner)
        \<and> shelf inner s = (shelf inner (fs w))(key_digest kl \<mapsto> bytes)))
    \<and> (\<forall>bytes. to_vec j (entry_to_write inner (kl_key kl) pol (now_ms w) v) = Some bytes
        \<and> \<not> u64_or_max (length bytes) > max_entry_bytes (i_limits inner) \<longrightarrow>
        (\<exists>s'. x = Inr (Written (maintenance_of j inner s'))))"
proof -
  note D = shared_okD [OF ok]
  let ?k = "kl_key kl"
  let ?e = "to_vec j (entry_to_write inner ?k pol (now_ms w) v)"
  from D(6) [OF kl] have in_kl: "kl_inner kl = inner" by (simp add: owns_key_def)
  from shared_release [OF ok kl] obtain s0 where
    s0: "drop_key_lock kl w = w\<lparr>fs := s0\<rparr>" "goes inner (w, ls) (w\<lparr>fs := s0\<rparr>, remove1 kl ls)"
      "shelf inner s0 = shelf inner (fs w)" by blast
  consider "?e = None" | bytes where "?e = Some bytes" "u64_or_max (length bytes) > max_entry_bytes (i_limits inner)"
    | bytes where "?e = Some bytes" "\<not> u64_or_max (length bytes) > max_entry_bytes (i_limits inner)"
    by (cases ?e) auto
  then show ?thesis
  proof cases
    case 1
    then have "store rnd j kl v pol w = (Inl (Err Encode), w\<lparr>fs := s0\<rparr>)" by (simp add: store_def in_kl s0(1))
    with s0 1 show ?thesis by (intro exI [of _ s0]) simp
  next
    case 2
    then have "store rnd j kl v pol w = (Inr (TooLarge (u64_or_max (length bytes))), w\<lparr>fs := s0\<rparr>)"
      by (simp add: store_def in_kl s0(1) Let_def)
    with s0 2 show ?thesis by (intro exI [of _ s0]) simp
  next
    case 3
    have "map_option kind (node_at (fs w) (entry_path inner (digest ?k))) \<noteq> Some Directory"
      using D(4) unfolding tidy_def by blast
    from write_atomic_calm [OF D(2,3,7) tmp this] obtain s1 where
      wa: "write_atomic rnd inner (digest ?k) bytes w = (Inr (), w\<lparr>fs := s1\<rparr>)"
      and wr: "wrote (entry_path inner (digest ?k)) (fresh_entry (euid w) (write_perm w) bytes (now_ms w)) (fs w) s1"
      by blast
    note s1 = shared_wrote [OF ok wr]
    have "ino_at s1 q = ino_at (fs w) q" if "child_of (locks_dir inner) q" for q
    proof -
      from that have "q \<noteq> entry_path inner (digest ?k)" by auto
      with wr show ?thesis by (auto simp: wrote_def)
    qed
    with s1(1) have g1: "goes inner (w, ls) (w\<lparr>fs := s1\<rparr>, ls)" by (auto simp: goes_def strays_def)
    from shared_release [OF s1(1) kl] obtain s2 where
      s2: "drop_key_lock kl (w\<lparr>fs := s1\<rparr>) = w\<lparr>fs := s2\<rparr>" "goes inner (w\<lparr>fs := s1\<rparr>, ls) (w\<lparr>fs := s2\<rparr>, remove1 kl ls)"
        "shelf inner s2 = shelf inner s1" by auto
    then have ok2: "shared_ok inner (w\<lparr>fs := s2\<rparr>, remove1 kl ls)" by (simp add: goes_def)
    from shared_maintain [OF ok2, of j] obtain s3 m where
      s3: "maintain j inner (w\<lparr>fs := s2\<rparr>) = (Inr m, w\<lparr>fs := s3\<rparr>)"
        "goes inner (w\<lparr>fs := s2\<rparr>, remove1 kl ls) (w\<lparr>fs := s3\<rparr>, remove1 kl ls)"
        "\<forall>l \<in> set (remove1 kl ls). shelf inner s3 (key_digest l) = shelf inner s2 (key_digest l)"
        "m = NotNeeded \<longrightarrow> s3 = s2" "m = maintenance_of j inner s2" by auto
    have run: "store rnd j kl v pol w = (Inr (Written m), w\<lparr>fs := s3\<rparr>)"
      using 3 wa s2(1) s3(1) by (simp add: store_def in_kl Let_def)
    have other: "key_digest l \<noteq> key_digest kl" if "l \<in> set (remove1 kl ls)" for l
    proof -
      from ok have dd: "distinct (map key_digest ls)" by (simp add: shared_ok_def)
      then have "distinct ls" by (simp add: distinct_map)
      with that dd kl show ?thesis by (auto simp: distinct_map dest: inj_onD)
    qed
    have "goes inner (w, ls) (w\<lparr>fs := s3\<rparr>, remove1 kl ls)"
      using g1 s2(2) s3(2) goes_trans by blast
    moreover have "\<forall>l \<in> set (remove1 kl ls). shelf inner s3 (key_digest l) = shelf inner (fs w) (key_digest l)"
      using s3(3) s2(3) s1(2) other by simp
    ultimately show ?thesis using run 3 s1(2) s2(3) s3(4,5) by auto
  qed
qed

lemma shared_clear:
  assumes ok: "shared_ok inner (w, ls)"
  shows "if ls = [] then \<exists>s. clear inner w = (Inr (), w\<lparr>fs := s\<rparr>) \<and> goes inner (w, []) (w\<lparr>fs := s\<rparr>, [])
    else fst (clear inner w) = Inl Pending"
proof -
  note D = shared_okD [OF ok]
  show ?thesis
  proof (cases "ls = []")
    case True
    with ok shared_busy(2) [OF ok] clear_calm_free [OF D(1)] obtain s where
      s: "clear inner w = (Inr (), w\<lparr>fs := s\<rparr>)" "reduced (cleared inner (fs w)) (fs w) s" by blast
    from goes_reduced [OF _ s(2) cleared_not_fixed, of "[]"] ok True s(1) show ?thesis
      by (simp, intro exI [of _ s]) simp
  next
    case False
    with clear_calm_blocked [OF D(1)] shared_busy(2) [OF ok] show ?thesis by simp
  qed
qed

lemma shared_time:
  assumes ok: "shared_ok inner (w, ls)"
  shows "goes inner (w, ls) (w\<lparr>fs := (fs w)\<lparr>clock := t, ktime := t'\<rparr>\<rparr>, ls)"
    "shelf inner ((fs w)\<lparr>clock := t, ktime := t'\<rparr>) = shelf inner (fs w)"
proof -
  let ?s = "(fs w)\<lparr>clock := t, ktime := t'\<rparr>"
  have i: "ino_at ?s p = ino_at (fs w) p" for p by (simp add: ino_at_def)
  have "wf_os ?s = wf_os (fs w)" by (simp add: wf_os_def)
  with ok show "goes inner (w, ls) (w\<lparr>fs := ?s\<rparr>, ls)"
    by (simp add: goes_def strays_def shared_ok_def ready_def private_dir_def private_file_def tidy_def node_at_def
        owns_key_def i)
  show "shelf inner ?s = shelf inner (fs w)"
    by (simp add: shelf_def content_def regular_at_def metadata_at_def i cong: option.case_cong)
qed

end
