(* ===== verification/Lifetime.thy ===== *)
theory Lifetime
  imports Map_View Sample_Cache
begin

text \<open>
  The life of a cache: opening it makes it ready, and every complete operation, run by one
  process with nobody interfering, leaves it ready and at rest.
\<close>

section \<open>Opening\<close>

lemma foreign_root_refused:
  assumes "calm v" and "ino_at (fs v) (root inner) \<noteq> None" and "\<not> own_dir v (root inner)"
  shows "with_clock temp (root inner) sch lims v = (Inl (Err UnsafeRoot), v)"
proof -
  from assms(2) obtain i where i: "ino_at (fs v) (root inner) = Some i" by blast
  with assms(1,3) have "validate_root (root inner) v = (Inl (Err UnsafeRoot), v)"
    by (auto simp: validate_root_def own_dir_def calm_simps is_dir_def owned_def)
  with i assms(1) have "ensure_root (root inner) v = (Inl (Err UnsafeRoot), v)"
    by (simp add: ensure_root_def calm_simps)
  then show ?thesis by (simp add: with_clock_def Let_def)
qed

text \<open>C15: Opening a cache in a place that is free, or partly there and the user's own, succeeds and makes
  it ready: the root, \<open>entries\<close> and \<open>locks\<close> become private directories, the maintenance and
  prune locks private files, and no name but these and the cache tag is touched, no lock is left
  held. A root that is a symlink, a file or another user's directory is refused with nothing
  changed.\<close>

theorem opening_makes_ready:
  assumes "openable temp inner w"
  shows "(\<exists>s. with_clock temp (root inner) (schema inner) (i_limits inner) w = (Inr inner, w\<lparr>fs := s\<rparr>)
      \<and> ready inner (w\<lparr>fs := s\<rparr>) \<and> settled (insert (tag_path inner) (fixed_paths inner)) (fs w) s)
    \<and> (\<forall>v. calm v \<and> ino_at (fs v) (root inner) \<noteq> None \<and> \<not> own_dir v (root inner) \<longrightarrow>
        with_clock temp (root inner) (schema inner) (i_limits inner) v = (Inl (Err UnsafeRoot), v))"
  using with_clock_calm [OF assms] foreign_root_refused by blast

definition sample_machine :: world where
  "sample_machine = \<lparr>fs = \<lparr>dirents = [([], 0)], inodes = (\<lambda>_. sample_dir\<lparr>uid := 0\<rparr>), locks = [], next_ino = 1,
     next_fd = 0, ktime = 0, clock = 1000\<rparr>, script = [], euid = 7, umask = 18\<rparr>"

lemma sample_machine_ino: "ino_at (fs sample_machine) p = (if p = [] then Some 0 else None)"
  by (simp add: ino_at_def sample_machine_def)

lemma sample_openable: "openable ''t'' sample_inner sample_machine"
proof -
  have r: "root_openable sample_machine (root sample_inner)"
    unfolding root_openable_def sample_machine_ino node_at_def
    by (simp add: sample_inner_def) (simp add: sample_machine_def sample_dir_def)
  show ?thesis
    unfolding openable_def sample_machine_ino
  proof (intro conjI r)
    show "calm sample_machine" by (simp add: calm_def sample_machine_def)
    show "wf_os (fs sample_machine)" by (simp add: wf_os_def sample_machine_def sample_dir_def)
  qed (simp_all add: sample_paths prune_lock_name_def cachedir_tag_def child_of_def)
qed

lemma opening_makes_ready_witness:
  "\<exists>s. with_clock ''t'' (root sample_inner) (schema sample_inner) (i_limits sample_inner) sample_machine
      = (Inr sample_inner, sample_machine\<lparr>fs := s\<rparr>) \<and> ready sample_inner (sample_machine\<lparr>fs := s\<rparr>)"
  using opening_makes_ready [OF sample_openable] by blast

section \<open>Clearing\<close>

lemma no_entry_misses:
  assumes r: "ready inner w" and "ino_at (fs w) (entry_path inner (digest k)) = None"
  shows "fst (cache_lookup j inner k w) = Inr Miss"
proof -
  have "regular_at (fs w) (entry_path inner (digest k)) = None"
    using assms(2) by (simp add: regular_at_def metadata_at_def)
  then have "verdict_lookup (verdict_on j inner k (fs w)) = Miss"
    by (simp add: verdict_on_def read_result_def judge_def verdict_lookup_def)
  with cache_read_calm [OF r, of j k False] show ?thesis by (auto simp: cache_lookup_def)
qed

lemma no_children_no_usage:
  "ready inner w \<Longrightarrow> children (fs w) (entries_dir inner) = [] \<Longrightarrow>
    usage_of inner w = (Inr \<lparr>u_entries = 0, u_bytes = 0\<rparr>, w)"
  by (simp add: usage_of_calm usage_in_def entry_files_def map_filter_simps)

lemma cleared_children:
  assumes "reduced (cleared inner s) s s'" and "wf_os s" and "d \<in> {entries_dir inner, locks_dir inner}"
  shows "children s' d = []"
proof -
  have "p \<in> cleared inner s" if "p \<in> set (children s d)" for p
    using that assms(2,3) contents_of_child [of s d p] children_ino_at [of s p d] by (auto simp: cleared_def)
  then show ?thesis by (simp add: reduced_children [OF assms(1)] filter_empty_conv)
qed

text \<open>C14: A clear waits while anybody holds a key, prunes or clears. When it is let run it succeeds and
  empties the cache: no entry, leftover file or key lock remains, every lookup misses, the usage is
  zero, and nothing outside the two directories has changed, so the cache is ready for use
  again.\<close>

theorem clear_empties:
  assumes "ready inner w"
  shows "if lock_busy (fs w) (maintenance_path inner) then fst (clear inner w) = Inl Pending
    else (\<exists>w'. clear inner w = (Inr (), w') \<and> ready inner w' \<and> locks (fs w') = locks (fs w)
      \<and> children (fs w') (entries_dir inner) = [] \<and> children (fs w') (locks_dir inner) = []
      \<and> usage_of inner w' = (Inr \<lparr>u_entries = 0, u_bytes = 0\<rparr>, w')
      \<and> (\<forall>k. fst (cache_lookup j inner k w') = Inr Miss)
      \<and> (\<forall>p. (\<not> under (entries_dir inner) p \<and> \<not> under (locks_dir inner) p) \<or> p \<in> {entries_dir inner, locks_dir inner}
          \<longrightarrow> ino_at (fs w') p = ino_at (fs w) p))"
proof (cases "lock_busy (fs w) (maintenance_path inner)")
  case True
  with clear_calm_blocked [OF assms] show ?thesis by simp
next
  case False
  from assms have wf: "wf_os (fs w)" by (simp add: ready_def)
  from clear_calm_free [OF assms False] obtain s where
    s: "clear inner w = (Inr (), w\<lparr>fs := s\<rparr>)" "reduced (cleared inner (fs w)) (fs w) s" by blast
  let ?w' = "w\<lparr>fs := s\<rparr>"
  have r: "ready inner ?w'" by (rule ready_reduced [OF assms s(2) cleared_not_fixed])
  note ch = cleared_children [OF s(2) wf]
  have none: "ino_at s (entry_path inner d) = None" for d
    using ch [of "entries_dir inner"] children_ino_at [OF reduced_wf [OF s(2) wf], of "entry_path inner d" "entries_dir inner"]
    by simp
  have off: "p \<notin> cleared inner (fs w)"
    if "(\<not> under (entries_dir inner) p \<and> \<not> under (locks_dir inner) p) \<or> p \<in> {entries_dir inner, locks_dir inner}" for p
    using that contents_of_under [of p "fs w"] by (fastforce simp: cleared_def entries_dir_def locks_dir_def)
  have "ready inner ?w' \<and> locks s = locks (fs w) \<and> usage_of inner ?w' = (Inr \<lparr>u_entries = 0, u_bytes = 0\<rparr>, ?w')"
    using r s(2) no_children_no_usage [OF r] ch by (simp add: reduced_def)
  moreover have "fst (cache_lookup j inner k ?w') = Inr Miss" for k
    using no_entry_misses [OF r] none by simp
  moreover have "ino_at s p = ino_at (fs w) p"
    if "(\<not> under (entries_dir inner) p \<and> \<not> under (locks_dir inner) p) \<or> p \<in> {entries_dir inner, locks_dir inner}" for p
    using off [OF that] by (simp add: reduced_ino_at [OF s(2)])
  ultimately show ?thesis using False s(1) ch by (simp only: if_False) (intro exI [of _ ?w'], simp)
qed

lemma clear_empties_witness:
  "\<exists>w'. clear sample_inner sample_full = (Inr (), w') \<and> children (fs w') (entries_dir sample_inner) = []
    \<and> fst (cache_lookup sample_serde sample_inner sample_key w') = Inr Miss"
proof -
  have "\<not> lock_busy (fs sample_full) (maintenance_path sample_inner)"
    by (simp add: lock_busy_def sample_full_def sample_stored_def sample_os_def split: option.split)
  with clear_empties [OF sample_full_ready, of sample_serde] show ?thesis by auto
qed

section \<open>From opening on\<close>

lemma tidy_settled:
  assumes "settled (insert (tag_path inner) (fixed_paths inner)) s s'" and "tidy inner s"
  shows "tidy inner s'"
  unfolding tidy_def
proof
  fix d
  have "entry_path inner d \<notin> insert (tag_path inner) (fixed_paths inner)"
    using entry_path_not_fixed [of inner d "entry_path inner d"]
    by (auto simp: under_def tag_path_def entry_path_def entries_dir_def)
  then have "node_at s' (entry_path inner d) = node_at s (entry_path inner d)"
    using assms(1) by (cases "ino_at s (entry_path inner d)") (auto simp: settled_def node_at_def)
  with assms(2) show "map_option kind (node_at s' (entry_path inner d)) \<noteq> Some Directory"
    unfolding tidy_def by metis
qed

text \<open>A cache that was opened stays usable. After any sequence of lookups, locked lookups, stores,
  prunes and clears of one process, whatever they returned and however the clock moved, its
  directories and lock files are still private and its own, no lock is left held, and none of the
  operations can fail or wait: every key can be locked, looked up and pruned, and the cache cleared.\<close>

theorem opened_cache_stays_usable:
  assumes "openable temp inner w0" and "locks (fs w0) = []" and "tidy inner (fs w0)"
    and "with_clock temp (root inner) (schema inner) (i_limits inner) w0 = (Inr inner, w)"
    and "reachable (cache_step j inner) w w'"
  shows "ready inner w' \<and> locks (fs w') = []
    \<and> (\<exists>kl. fst (cache_lock inner k w') = Inr kl) \<and> (\<exists>x. fst (cache_lookup j inner k w') = Inr x)
    \<and> (\<exists>out. fst (prune j inner wt w') = Inr out) \<and> fst (clear inner w') = Inr ()"
proof -
  from with_clock_calm [OF assms(1)] assms(4) obtain s where w: "w = w0\<lparr>fs := s\<rparr>" and r: "ready inner w"
    and st: "settled (insert (tag_path inner) (fixed_paths inner)) (fs w0) s" by auto
  have "at_rest inner w"
    using r w st assms(2,3) by (simp add: at_rest_def settledD(2) tidy_settled)
  with assms(5) have r': "at_rest inner w'" by (rule cache_life.stays_good)
  then have "ready inner w' \<and> locks (fs w') = []" by (simp add: at_rest_def)
  with at_rest_lock [OF r', of k] at_rest_lookup [OF r', of j k] at_rest_prune [OF r', of j wt] at_rest_clear [OF r']
  show ?thesis by (metis fst_conv)
qed

lemma opened_cache_stays_usable_witness:
  "\<exists>w w'. with_clock ''t'' (root sample_inner) (schema sample_inner) (i_limits sample_inner) sample_machine = (Inr sample_inner, w)
    \<and> reachable (cache_step sample_serde sample_inner) w w' \<and> fst (clear sample_inner w') = Inr ()"
proof -
  obtain w where w: "with_clock ''t'' (root sample_inner) (schema sample_inner) (i_limits sample_inner) sample_machine
      = (Inr sample_inner, w)"
    using with_clock_calm [OF sample_openable] by blast
  obtain out w' where p: "prune sample_serde sample_inner Skip w = (out, w')" by fastforce
  then have "reachable (cache_step sample_serde sample_inner) w w'"
    by (meson cache_step.pruned reachable.intros)
  moreover have "locks (fs sample_machine) = []" "tidy sample_inner (fs sample_machine)"
    by (simp_all add: tidy_def node_at_def sample_machine_ino entry_path_def) (simp add: sample_machine_def)
  ultimately show ?thesis
    using w opened_cache_stays_usable [OF sample_openable _ _ w] by blast
qed

section \<open>The cache as a map\<close>

text \<open>The bytes of a stored entry mean what was stored, fresh, stale or gone by its horizons.\<close>

lemma answer_stored:
  assumes e: "e = entry_to_write inner k pol now v" "to_vec j e = Some bytes" and j: "reads_back j"
    and len: "length bytes < 2 ^ 64" and fits: "\<not> u64_or_max (length bytes) > max_entry_bytes (i_limits inner)"
  shows "answer j inner k t (Some bytes) = lookup_at e t"
proof -
  let ?cap = "max_entry_bytes (i_limits inner)"
  let ?m = "\<lparr>m_ino = 0, m_node = sample_file\<lparr>data := bytes\<rparr>\<rparr>"
  have whole: "take (unat (saturating_add ?cap 1)) bytes = bytes"
    using read_whole [of ?m ?cap] len fits by (simp add: m_len_def)
  from j e(2) have ps: "parse_header j bytes = Some (header_of e)" "parse_value j bytes = Some (w_value e)"
    by (auto simp: reads_back_def)
  have h: "h_schema (header_of e) = schema inner" "h_digest (header_of e) = digest k" "h_namespace (header_of e) = namespace k"
    "consistent (header_of e)" "h_stale_until_ms (header_of e) = h_stale_until_ms e"
    "h_fresh_until_ms (header_of e) = h_fresh_until_ms e" "h_stored_at_ms (header_of e) = h_stored_at_ms e"
    "h_source (header_of e) = h_source e"
    using entry_to_write_consistent [of inner k pol now v]
    by (simp_all add: e(1) header_of_def entry_to_write_def Let_def header.truncate_def)
  have "h_fresh_until_ms e \<le> h_stale_until_ms e" using h(4) by (simp add: consistent_def h)
  then show ?thesis using fits by (auto simp: answer_def Let_def whole ps h lookup_at_def cached_of_def)
qed



end
