(* ===== verification/Callers.thy ===== *)
theory Callers
  imports Sharing Lifetime
begin

text \<open>
  Histories of any number of callers on one cache, and what one of them can rely on: the key
  locks exclude each other, nothing an operation needs can fail, and while a caller holds a key
  nobody else touches its entry.
\<close>

section \<open>Histories\<close>

text \<open>
  One complete operation of any caller. Only holders for which \<open>acts\<close> is true use the lock they
  hold; \<open>acts\<close> is true of all in a full history. A lock is asked for with a key a builder made,
  so its digest is 64 hexadecimal digits, and the temporary file of a store has a free name.
\<close>

inductive shared_step :: "'v serde \<Rightarrow> inner \<Rightarrow> (key_lock \<Rightarrow> bool) \<Rightarrow> party \<Rightarrow> party \<Rightarrow> bool" for j inner acts where
  looked_up: "cache_lookup j inner k w = (x, w') \<Longrightarrow> shared_step j inner acts (w, ls) (w', ls)"
| key_taken: "is_digest (digest k) \<Longrightarrow> cache_lock inner k w = (Inr kl, w') \<Longrightarrow>
    shared_step j inner acts (w, ls) (w', kl # ls)"
| looked_again: "kl \<in> set ls \<Longrightarrow> acts kl \<Longrightarrow> locked_lookup j kl w = (x, w') \<Longrightarrow>
    shared_step j inner acts (w, ls) (w', ls)"
| stored_value: "kl \<in> set ls \<Longrightarrow> acts kl \<Longrightarrow> ino_at (fs w) (temp_path inner (key_digest kl) rnd) = None \<Longrightarrow>
    store rnd j kl v pol w = (x, w') \<Longrightarrow> shared_step j inner acts (w, ls) (w', remove1 kl ls)"
| let_go: "kl \<in> set ls \<Longrightarrow> acts kl \<Longrightarrow> shared_step j inner acts (w, ls) (drop_key_lock kl w, remove1 kl ls)"
| pruned_all: "prune j inner wt w = (x, w') \<Longrightarrow> shared_step j inner acts (w, ls) (w', ls)"
| cleared_all: "clear inner w = (Inr (), w') \<Longrightarrow> shared_step j inner acts (w, ls) (w', ls)"
| time_passed: "shared_step j inner acts (w, ls) (w\<lparr>fs := (fs w)\<lparr>clock := t, ktime := t'\<rparr>\<rparr>, ls)"

text \<open>
  A key is waited for as long as somebody holds it: the maintenance lock is already shared, and
  the exclusive lock of the key's file does not come.
\<close>

lemma cache_lock_waits:
  assumes r: "ready inner w" and m: "\<not> excl_locked (fs w) (maintenance_path inner)"
    and k: "key_busy inner (fs w) (digest k)"
  shows "fst (cache_lock inner k w) = Inl Pending"
proof -
  let ?M = "maintenance_path inner" and ?s0 = "fs w" and ?p = "lock_path inner (digest k)"
  from r have calm: "calm w" and wf: "wf_os ?s0" and d: "private_dir w (root inner)"
    "private_dir w (locks_dir inner)"
    by (simp_all add: ready_def)
  obtain mi where mi: "ino_at ?s0 ?M = Some mi" "mi < next_ino ?s0"
    and om: "open_lock ?M w = (Inr \<lparr>fd = next_fd ?s0, f_ino = mi\<rparr>,
      w\<lparr>fs := ?s0\<lparr>next_fd := Suc (next_fd ?s0)\<rparr>\<rparr>)"
    using open_lock_ready [OF r, of ?M] by blast
  let ?m = "\<lparr>fd = next_fd ?s0, f_ino = mi\<rparr>" and ?s1 = "with_lock mi Shared ?s0"
  have c1: "\<not> conflict ?m Shared (?s0\<lparr>next_fd := Suc (next_fd ?s0)\<rparr>)"
    using m mi(1) conflict_shared [OF _ wf, of ?M mi] by simp
  have r1: "ready inner (w\<lparr>fs := ?s1\<rparr>)" using with_lock_ready [OF r mi(2)] .
  have "relocked inner ?s0 ?s1" by (rule with_lock_relocked [OF wf mi(1)]) (simp add: fixed_paths_def)
  with k have "key_busy inner ?s1 (digest k)" by (simp add: relocked_def)
  with open_lock_lockable [OF _ ready_lockable [OF r1]] r1 obtain f s where
    o: "open_lock ?p (w\<lparr>fs := ?s1\<rparr>) = (Inr f, w\<lparr>fs := s\<rparr>)" and busy: "conflict f Exclusive s"
    unfolding ready_def by (metis world.select_convs(1) world.surjective world.update_convs(1))
  have "lock_exclusive ?p (w\<lparr>fs := ?s1\<rparr>) = (Inl Pending, w\<lparr>fs := s\<rparr>)"
    using calm o busy by (subst lock_exclusive.simps) (simp add: calm_simps)
  then show ?thesis
    using calm d om c1 by (simp add: cache_lock_def calm_simps grant_with_lock on_error_def)
qed

lemma shared_lock:
  assumes ok: "shared_ok inner (w, ls)" and k: "is_digest (digest k)"
  shows "if digest k \<in> key_digest ` set ls then fst (cache_lock inner k w) = Inl Pending
    else (\<exists>kl s. cache_lock inner k w = (Inr kl, w\<lparr>fs := s\<rparr>) \<and> kl_key kl = k
      \<and> goes inner (w, ls) (w\<lparr>fs := s\<rparr>, kl # ls) \<and> shelf inner s = shelf inner (fs w) \<and> clock s = clock (fs w))"
proof (cases "digest k \<in> key_digest ` set ls")
  case True
  with cache_lock_waits [OF shared_okD(1) [OF ok] shared_busy(3) [OF ok]] shared_busy(1) [OF ok]
  show ?thesis by simp
next
  case False
  from shared_take [OF ok k False] obtain kl s where
    s: "cache_lock inner k w = (Inr kl, w\<lparr>fs := s\<rparr>)" "shared_ok inner (w\<lparr>fs := s\<rparr>, kl # ls)" "kl_key kl = k"
      "shelf inner s = shelf inner (fs w)" "clock s = clock (fs w)"
      "\<forall>q. q \<noteq> lock_path inner (digest k) \<longrightarrow> ino_at s q = ino_at (fs w) q" by blast
  then have "goes inner (w, ls) (w\<lparr>fs := s\<rparr>, kl # ls)" by (auto simp: goes_def strays_def)
  with False s show ?thesis by (simp, intro exI [of _ s]) simp
qed

text \<open>What a step of the others leaves to the holder of a key.\<close>

lemma shared_step_effect:
  assumes st: "shared_step j inner acts p p'" and ok: "shared_ok inner p"
  shows "goes inner p p' \<and> (\<forall>kl \<in> set (snd p). \<not> acts kl \<longrightarrow> kl \<in> set (snd p')
    \<and> shelf inner (fs (fst p')) (key_digest kl) = shelf inner (fs (fst p)) (key_digest kl))"
  using st
proof cases
  case (looked_up k w x w' ls)
  with shared_lookup [of inner w ls j k] ok show ?thesis by auto
next
  case (key_taken k w kl w' ls)
  with shared_lock [of inner w ls k] ok show ?thesis by (auto split: if_splits)
next
  case (looked_again kl ls w x w')
  from ok looked_again have "\<forall>l \<in> set ls. \<not> acts l \<longrightarrow> key_digest l \<noteq> key_digest kl"
    by (auto simp: shared_ok_def distinct_map inj_on_def)
  with shared_reread [of inner w ls kl j] ok looked_again show ?thesis by auto
next
  case (stored_value kl ls w rnd v pol x w')
  have "l \<in> set (remove1 kl ls)" if "l \<in> set ls" "\<not> acts l" for l
    using that stored_value(4) by (metis in_set_remove1)
  with shared_store [of inner w ls kl rnd j v pol] ok stored_value show ?thesis by auto
next
  case (let_go kl ls w)
  have "l \<in> set (remove1 kl ls)" if "l \<in> set ls" "\<not> acts l" for l
    using that let_go(4) by (metis in_set_remove1)
  with shared_release [of inner w ls kl] ok let_go show ?thesis by auto
next
  case (pruned_all wt w x w' ls)
  with shared_prune [of inner w ls j wt] ok show ?thesis by auto
next
  case (cleared_all w w' ls)
  with shared_clear [of inner w ls] ok show ?thesis by (auto split: if_splits)
next
  case (time_passed w ls t t')
  with shared_time [of inner w ls t t'] ok show ?thesis by simp
qed

interpretation callers: guarded "shared_ok inner" "shared_step j inner acts" "shared_ok inner"
  by unfold_locales (auto dest: shared_step_effect simp: goes_def)

lemma history_effect:
  assumes "reachable (shared_step j inner acts) p p'" and "shared_ok inner p"
  shows "goes inner p p' \<and> (\<forall>kl \<in> set (snd p). \<not> acts kl \<longrightarrow> kl \<in> set (snd p')
    \<and> shelf inner (fs (fst p')) (key_digest kl) = shelf inner (fs (fst p)) (key_digest kl))"
  using assms
proof (induction rule: reachable.induct)
  case (further s s')
  then have "goes inner p s" and ok: "shared_ok inner s" by (simp_all add: goes_def)
  with shared_step_effect [OF further.hyps(2) ok] further.IH further.prems show ?case
    using goes_trans by metis
qed (simp add: goes_def)

section \<open>Sharing a cache\<close>

text \<open>C6: After a cache was opened, any number of callers may use it, in any order: no two of them hold
  one key, a key is free to lock exactly when nobody holds it and is waited for otherwise, a
  lookup, a locked lookup and a prune never fail or wait, whoever holds keys, a clear waits
  exactly while a key is held, and the only lock files, but for leftovers from before, are those of
  the keys that are held.\<close>

theorem callers_share_the_cache:
  assumes "openable temp inner w0" and "locks (fs w0) = []" and "tidy inner (fs w0)"
    and "with_clock temp (root inner) (schema inner) (i_limits inner) w0 = (Inr inner, w1)"
    and "reachable (shared_step j inner (\<lambda>_. True)) (w1, []) (w, ls)" and "is_digest (digest k)"
  shows "distinct (map key_digest ls)
    \<and> (if digest k \<in> key_digest ` set ls then fst (cache_lock inner k w) = Inl Pending
       else (\<exists>kl. fst (cache_lock inner k w) = Inr kl))
    \<and> (\<exists>x. fst (cache_lookup j inner k w) = Inr x) \<and> (\<forall>kl \<in> set ls. \<exists>x. fst (locked_lookup j kl w) = Inr x)
    \<and> (\<exists>out. fst (prune j inner wt w) = Inr out)
    \<and> fst (clear inner w) = (if ls = [] then Inr () else Inl Pending)
    \<and> (\<forall>q. child_of (locks_dir inner) q \<and> ino_at (fs w0) q = None \<and> ino_at (fs w) q \<noteq> None \<longrightarrow>
        (\<exists>kl \<in> set ls. q = lock_path inner (key_digest kl)))"
proof -
  from with_clock_calm [OF assms(1)] assms(4) obtain s where w1: "w1 = w0\<lparr>fs := s\<rparr>" and r: "ready inner w1"
    and st: "settled (insert (tag_path inner) (fixed_paths inner)) (fs w0) s" by auto
  have "at_rest inner w1"
    using r w1 st assms(2,3) by (simp add: at_rest_def settledD(2) tidy_settled)
  with history_effect [OF assms(5)] have g: "goes inner (w1, []) (w, ls)" by (simp add: shared_ok_rest)
  then have ok: "shared_ok inner (w, ls)" by (simp add: goes_def)
  have fresh: "\<exists>kl \<in> set ls. q = lock_path inner (key_digest kl)"
    if q: "child_of (locks_dir inner) q" "ino_at (fs w0) q = None" "ino_at (fs w) q \<noteq> None" for q
  proof -
    have "q \<notin> insert (tag_path inner) (fixed_paths inner)"
      using q(1) lock_child_not_fixed [OF q(1)] by (auto simp: child_of_def tag_path_def locks_dir_def)
    with settledD(5) [OF st] q(2) have "ino_at (fs w1) q = None" by (simp add: w1)
    then have "q \<notin> strays inner (w, ls)" using g by (auto simp: goes_def strays_def)
    with q show ?thesis by (auto simp: strays_def)
  qed
  have "distinct (map key_digest ls)" using ok by (simp add: shared_ok_def)
  moreover have "\<forall>kl \<in> set ls. \<exists>x. fst (locked_lookup j kl w) = Inr x"
    using shared_reread [OF ok, of _ j] by (metis fst_conv)
  moreover have "fst (clear inner w) = (if ls = [] then Inr () else Inl Pending)"
    using shared_clear [OF ok] by auto
  moreover have "if digest k \<in> key_digest ` set ls then fst (cache_lock inner k w) = Inl Pending
       else (\<exists>kl. fst (cache_lock inner k w) = Inr kl)"
    using shared_lock [OF ok assms(6)] by (auto split: if_splits)
  moreover have "\<exists>x. fst (cache_lookup j inner k w) = Inr x" "\<exists>out. fst (prune j inner wt w) = Inr out"
    using shared_lookup [OF ok, of j k] shared_prune [OF ok, of j wt] by auto
  ultimately show ?thesis using fresh by blast
qed

lemma sample_machine_tidy: "tidy sample_inner (fs sample_machine)" "locks (fs sample_machine) = []"
  by (simp_all add: tidy_def node_at_def sample_machine_ino entry_path_def) (simp add: sample_machine_def)

lemma cache_lock_key:
  assumes "cache_lock inner k w = (Inr kl, w')"
  shows "kl_key kl = k"
proof -
  have on: "on_error m d v = (Inr x, v') \<longleftrightarrow> m v = (Inr x, v')" for m :: "'a cache_io" and d v x v'
    by (auto simp: on_error_def split: prod.splits sum.splits stop.splits)
  from assms show ?thesis by (auto simp: cache_lock_def andThen_eq_Inr_iff on)
qed

lemma callers_share_the_cache_witness:
  "\<exists>w1 w kl. with_clock ''t'' (root sample_inner) (schema sample_inner) (i_limits sample_inner) sample_machine
      = (Inr sample_inner, w1)
    \<and> reachable (shared_step sample_serde sample_inner (\<lambda>_. True)) (w1, []) (w, [kl])
    \<and> fst (cache_lock sample_inner sample_key w) = Inl Pending \<and> fst (clear sample_inner w) = Inl Pending"
proof -
  note use = callers_share_the_cache [OF sample_openable sample_machine_tidy(2,1) _ _ sample_key_digest, where j = sample_serde]
  obtain w1 where w1: "with_clock ''t'' (root sample_inner) (schema sample_inner) (i_limits sample_inner) sample_machine
      = (Inr sample_inner, w1)"
    using with_clock_calm [OF sample_openable] by blast
  from use [OF w1 reachable.start] obtain kl where "fst (cache_lock sample_inner sample_key w1) = Inr kl" by auto
  then obtain w where l: "cache_lock sample_inner sample_key w1 = (Inr kl, w)" by (metis prod.collapse)
  then have "shared_step sample_serde sample_inner (\<lambda>_. True) (w1, []) (w, [kl])"
    using sample_key_digest by (rule shared_step.key_taken [rotated])
  then have run: "reachable (shared_step sample_serde sample_inner (\<lambda>_. True)) (w1, []) (w, [kl])"
    by (blast intro: reachable.intros)
  moreover have "kl_key kl = sample_key"
    using l by (rule cache_lock_key)
  ultimately show ?thesis using w1 use [OF w1 run, of Block] by auto
qed


text \<open>A cache whose limits are never reached, so that no store prunes.\<close>

definition roomy_inner :: inner where
  "roomy_inner = sample_inner\<lparr>i_limits := default_limits\<lparr>hard_entries := - 1, hard_bytes := - 1,
     sweep_every := from_secs (- 1)\<rparr>\<rparr>"

lemma roomy_paths:
  "entries_dir roomy_inner = entries_dir sample_inner" "locks_dir roomy_inner = locks_dir sample_inner"
  "maintenance_path roomy_inner = maintenance_path sample_inner" "entry_path roomy_inner d = entry_path sample_inner d"
  "prune_lock_path roomy_inner = prune_lock_path sample_inner" "root roomy_inner = root sample_inner"
  "temp_path roomy_inner d rnd = temp_path sample_inner d rnd"
  by (simp_all add: roomy_inner_def entries_dir_def locks_dir_def maintenance_path_def prune_lock_path_def entry_path_def
      temp_path_def)

lemma roomy_rest: "at_rest roomy_inner sample_world"
proof -
  have "ready roomy_inner sample_world" using sample_ready by (simp add: ready_def roomy_paths)
  moreover have "tidy roomy_inner (fs sample_world)"
    by (simp add: tidy_def node_at_def roomy_paths sample_absent sample_world_def)
  ultimately show ?thesis by (simp add: at_rest_def) (simp add: sample_world_def sample_os_def)
qed

lemma roomy_idle: "maintenance_of j roomy_inner s = NotNeeded"
proof -
  have "\<not> (- 1 :: u64) < x" for x by (metis word_n1_ge not_less)
  moreover have "millis (from_secs (- 1)) = - 1"
    by (simp add: millis_def as_millis_def from_secs_def u64_or_max_def unat_max_u64)
  ultimately show ?thesis
    by (simp add: maintenance_of_def due_def over_cap_def roomy_inner_def split: option.split)
qed


end
