(* ===== verification/Frame.thy ===== *)
theory Frame
  imports Steady
begin

text \<open>
  What no operation of the cache ever does, whoever interferes: the locale \<open>frame\<close> takes a
  property of the shared state that the elementary changes of the kernel keep, as long as
  they add and remove names only where they may and use only handles of their own, and gives
  every operation of the cache keeping it, for every script whose moves keep it too.
\<close>

text \<open>A world whose state has the property, and whose script keeps it.\<close>

definition friendly :: "(os \<Rightarrow> bool) \<Rightarrow> world \<Rightarrow> bool" where
  "friendly good w \<longleftrightarrow> good (fs w) \<and> (\<forall>(g, e) \<in> set (script w). \<forall>s. good s \<longrightarrow> good (g s))"

text \<open>Everything under the root may come and go.\<close>

definition owns :: "(path \<Rightarrow> bool) \<Rightarrow> (path \<Rightarrow> bool) \<Rightarrow> inner \<Rightarrow> bool" where
  "owns may_add may_remove inner \<longleftrightarrow>
     (\<forall>p. under (root inner) p \<longrightarrow> may_add p \<and> may_remove p)"

text \<open>
  What the operations of a cache need: its directories and lock files may be made, a lock file
  that can be taken may be removed (one that cannot is a regular file), the entry of a key whose
  lock can be taken may be replaced and removed, so may temporary files, and everything when
  \<open>maintenance.lock\<close> can be taken exclusively.
\<close>

definition able :: "(path \<Rightarrow> bool) \<Rightarrow> (path \<Rightarrow> bool) \<Rightarrow> (path \<Rightarrow> bool) \<Rightarrow> (path \<Rightarrow> bool) \<Rightarrow> inner \<Rightarrow> bool" where
  "able may_add may_remove takes solid inner \<longleftrightarrow>
     may_add (entries_dir inner) \<and> may_add (locks_dir inner)
     \<and> may_add (maintenance_path inner) \<and> may_add (prune_lock_path inner)
     \<and> (\<forall>n. may_add (locks_dir inner @ [n])
         \<and> (if takes (locks_dir inner @ [n]) then may_remove (locks_dir inner @ [n]) else solid (locks_dir inner @ [n])))
     \<and> (\<forall>d. takes (lock_path inner d) \<longrightarrow> may_add (entry_path inner d) \<and> may_remove (entry_path inner d))
     \<and> (\<forall>n. starts_with ''.'' n \<longrightarrow> may_add (entries_dir inner @ [n]) \<and> may_remove (entries_dir inner @ [n]))
     \<and> (takes (maintenance_path inner) \<longrightarrow>
         (\<forall>n. may_remove (entries_dir inner @ [n]) \<and> may_remove (locks_dir inner @ [n])))"

lemma under_append [simp]: "under d (d @ e)"
  by (simp add: under_def)

lemma under_root [simp]:
  "under (root inner) (root inner)" "under (root inner) (root inner @ e)"
  "under (root inner) (entries_dir inner)" "under (root inner) (locks_dir inner)"
  "under (root inner) (maintenance_path inner)" "under (root inner) (prune_lock_path inner)"
  "under (root inner) (entry_path inner d)" "under (root inner) (lock_path inner d)"
  "under (root inner) (entries_dir inner @ e)" "under (root inner) (locks_dir inner @ e)"
  by (simp_all add: under_def entries_dir_def locks_dir_def maintenance_path_def prune_lock_path_def
      entry_path_def lock_path_def)

lemma owns_paths:
  assumes "owns may_add may_remove inner" and "under (root inner) p"
  shows "may_add p" "may_remove p"
  using assms by (auto simp: owns_def)

lemma owns_able: "owns may_add may_remove inner \<Longrightarrow> able may_add may_remove (\<lambda>_. True) solid inner"
  by (simp add: owns_def able_def)

lemma able_paths:
  assumes "able may_add may_remove takes solid inner"
  shows "may_add (entries_dir inner)" "may_add (locks_dir inner)" "may_add (maintenance_path inner)"
    "may_add (prune_lock_path inner)" "may_add (lock_path inner d)" "may_add (locks_dir inner @ [n])"
    "takes (locks_dir inner @ [n]) \<Longrightarrow> may_remove (locks_dir inner @ [n])"
    "may_remove (locks_dir inner @ [n]) \<or> solid (locks_dir inner @ [n])"
    "takes (lock_path inner d) \<Longrightarrow> may_remove (lock_path inner d)"
    "takes (lock_path inner d) \<Longrightarrow> may_add (entry_path inner d)"
    "takes (lock_path inner d) \<Longrightarrow> may_remove (entry_path inner d)"
    "starts_with ''.'' n \<Longrightarrow> may_add (entries_dir inner @ [n])"
    "starts_with ''.'' n \<Longrightarrow> may_remove (entries_dir inner @ [n])"
  using assms by (auto simp: able_def lock_path_def split: if_splits)

lemma entry_digest_named:
  "entry_digest (entries_dir inner @ [n]) = Some d \<Longrightarrow> entries_dir inner @ [n] = entry_path inner d"
  by (auto simp: entry_digest_def file_name_def strip_suffix_def ends_with_def entry_path_def entry_name_def
      split: if_splits) (metis append_take_drop_id)

lemma temporary_starts: "is_temporary (e @ [n]) \<Longrightarrow> starts_with ''.'' n"
  by (simp add: is_temporary_def file_name_def)

lemma temporary_name_starts [simp]: "starts_with ''.'' (temporary_name d rnd)"
  by (simp add: starts_with_def temporary_name_def)

text \<open>
  \<open>mine\<close>: the descriptors of this process, \<open>blank\<close>: files it has just created, \<open>takes\<close>: the
  files whose exclusive lock can be granted to it, \<open>solid\<close>: names of regular files.
\<close>

locale frame =
  fixes good :: "os \<Rightarrow> bool" and may_add :: "path \<Rightarrow> bool" and may_remove :: "path \<Rightarrow> bool"
    and mine :: "nat \<Rightarrow> bool" and blank :: "handle \<Rightarrow> bool" and takes :: "path \<Rightarrow> bool" and solid :: "path \<Rightarrow> bool"
  assumes add: "good s \<Longrightarrow> may_add p \<Longrightarrow> ino_at s p = None \<Longrightarrow> good (add_node p m s)"
    and permit: "good s \<Longrightarrow> good (set_node i ((inodes s i)\<lparr>mode := md\<rparr>) s)"
    and stamp: "good s \<Longrightarrow> good (set_node i ((inodes s i)\<lparr>mtime := t\<rparr>) s)"
    and fill: "good s \<Longrightarrow> blank f \<Longrightarrow> good (set_node (f_ino f) m s)"
    and remove: "good s \<Longrightarrow> may_remove p \<Longrightarrow> good (remove_name p s)"
    and remove_below: "good s \<Longrightarrow> may_remove p \<Longrightarrow> good (remove_tree p s)"
    and replace: "good s \<Longrightarrow> ino_at s p = Some i \<Longrightarrow> may_remove p \<Longrightarrow> may_add q \<Longrightarrow> may_remove q \<Longrightarrow>
      good (s\<lparr>dirents := filter (\<lambda>(r, j). r \<noteq> p \<and> r \<noteq> q) (dirents s) @ [(q, i)]\<rparr>)"
    and opened: "good s \<Longrightarrow> good (s\<lparr>next_fd := Suc (next_fd s)\<rparr>)"
    and opens: "good s \<Longrightarrow> mine (next_fd s)"
    and creates: "good s \<Longrightarrow> blank \<lparr>fd = next_fd s, f_ino = next_ino s\<rparr>"
    and locked: "good s \<Longrightarrow> mine (fd f) \<Longrightarrow> good (grant f l s)"
    and unlocked: "good s \<Longrightarrow> mine (fd f) \<Longrightarrow> good (s\<lparr>locks := filter (\<lambda>(d, i, m). d \<noteq> fd f) (locks s)\<rparr>)"
    and barred: "good s \<Longrightarrow> mine (fd f) \<Longrightarrow> \<not> takes p \<Longrightarrow> ino_at s p = Some (f_ino f) \<Longrightarrow> good s' \<Longrightarrow>
      conflict f Exclusive s'"
    and stands: "good s \<Longrightarrow> solid p \<Longrightarrow> \<exists>m. node_at s p = Some m \<and> kind m = Regular"
begin

text \<open>A handle this process opened at \<open>p\<close>.\<close>

definition opened_at :: "path \<Rightarrow> handle \<Rightarrow> bool" where
  "opened_at p f \<longleftrightarrow> mine (fd f) \<and> (\<exists>s. good s \<and> ino_at s p = Some (f_ino f))"

lemma opened_at_mine: "opened_at p f \<Longrightarrow> mine (fd f)"
  by (simp add: opened_at_def)

text \<open>System calls.\<close>

lemma yields_sys:
  assumes "\<And>s. good s \<Longrightarrow> good (snd (f s))" and "\<And>s x s'. good s \<Longrightarrow> f s = (Inr x, s') \<Longrightarrow> R x"
  shows "yields (friendly good) R (sys f)"
proof (rule yieldsI)
  fix w r w'
  assume w: "friendly good w" and e: "sys f w = (r, w')"
  show "friendly good w' \<and> (\<forall>x. r = Inr x \<longrightarrow> R x)"
  proof (cases "script w")
    case Nil
    with w e assms(1) [of "fs w"] assms(2) [of "fs w"] show ?thesis
      by (auto simp: friendly_def sys_def split: prod.splits)
  next
    case (Cons mv rest)
    obtain g z where mv: "mv = (g, z)" by (cases mv)
    with w Cons have "good (g (fs w))" and rest: "(h, z') \<in> set rest \<Longrightarrow> good x \<Longrightarrow> good (h x)" for h z' x
      by (fastforce simp: friendly_def)+
    with e Cons mv assms(1) [of "g (fs w)"] assms(2) [of "g (fs w)"] show ?thesis
      by (auto simp: friendly_def sys_def split: prod.splits option.splits intro: rest)
  qed
qed

lemma friendly_sys: "(\<And>s. good s \<Longrightarrow> good (snd (f s))) \<Longrightarrow> steady (friendly good) (sys f)"
  using yields_sys [of f "\<lambda>_. True"] by (simp add: yields_def)

lemma yields_read: "(\<And>x. yields P R (m x)) \<Longrightarrow> yields P R (\<lambda>w. m (f w) w)"
  by (auto simp: yields_def steady_def)

lemma good_mkdir: "good s \<Longrightarrow> may_add p \<Longrightarrow> good (snd (mkdir_os u perm p s))"
  by (auto simp: mkdir_os_def add split: option.split)

lemma good_mkdirs: "good s \<Longrightarrow> \<forall>p \<in> set ps. may_add p \<Longrightarrow> good (snd (mkdirs_os u perm ps s))"
proof (induction u perm ps s rule: mkdirs_os.induct)
  case (2 u perm p ps s)
  then show ?case
    using good_mkdir [of s p u perm]
    by (auto split: option.split prod.split sum.split)
qed simp

lemma good_new_file: "good s \<Longrightarrow> may_add p \<Longrightarrow> ino_at s p = None \<Longrightarrow>
    good ((add_node p m s)\<lparr>next_fd := Suc (next_fd s)\<rparr>)"
  using opened [OF add] by (simp add: add_node_def)

lemma good_open: "good s \<Longrightarrow> o_create fl \<Longrightarrow> o_nofollow fl \<Longrightarrow> may_add p \<Longrightarrow>
    good (snd (open_os fl u perm p s))"
  by (auto simp: open_os_def Let_def good_new_file opened split: option.split ftype.split)

lemma good_open_read: "good s \<Longrightarrow> \<not> o_create fl \<Longrightarrow> good (snd (open_os fl u perm p s))"
  by (auto simp: open_os_def Let_def opened split: option.split ftype.split sum.split)

lemma open_handle: "good s \<Longrightarrow> open_os fl u perm p s = (Inr f, s') \<Longrightarrow> mine (fd f)"
  by (auto simp: open_os_def Let_def opens split: option.splits ftype.splits sum.splits if_splits)

lemma open_ino: "open_os fl u perm p s = (Inr f, s') \<Longrightarrow> o_nofollow fl \<Longrightarrow> ino_at s' p = Some (f_ino f)"
  by (auto simp: open_os_def Let_def ino_at_def add_node_def map_add_def
      split: option.splits ftype.splits sum.splits if_splits)

lemma friendly_read_only [steady_intros]:
  "steady (friendly good) (symlink_metadata p)" "steady (friendly good) (file_metadata f)"
  "steady (friendly good) (read_up_to f n)" "steady (friendly good) (sync_all f)" "steady (friendly good) (read_dir p)"
  unfolding symlink_metadata_def file_metadata_def read_up_to_def sync_all_def read_dir_def
  by (rule friendly_sys, auto simp: stat_os_def fstat_os_def read_os_def sync_os_def
      read_dir_os_def Let_def split: option.split sum.split)+

lemma friendly_content [steady_intros]:
  "steady (friendly good) (set_permissions p m)" "steady (friendly good) (fchmod f m)"
  "steady (friendly good) (set_modified f t)"
  unfolding set_permissions_def fchmod_def set_modified_def
  by (rule friendly_sys, auto simp: chmod_os_def fchmod_os_def set_modified_os_def
      Let_def permit stamp split: option.split sum.split)+

lemma friendly_write_all [steady_intros]: "blank f \<Longrightarrow> steady (friendly good) (write_all f bs)"
  unfolding write_all_def by (rule friendly_sys) (auto simp: write_os_def Let_def fill)

lemma friendly_create_dir [steady_intros]: "may_add p \<Longrightarrow> steady (friendly good) (create_dir p)"
  using steady_read [of "friendly good" "\<lambda>(u, m). sys (mkdir_os u (511 AND NOT m) p)" "\<lambda>w. (euid w, umask w)"]
  by (simp add: create_dir_def [abs_def] friendly_sys good_mkdir split_beta)

lemma friendly_create_dir_all [steady_intros]:
  "\<forall>q \<in> set (prefixes_of p). may_add q \<Longrightarrow> steady (friendly good) (create_dir_all p)"
  using steady_read [of "friendly good" "\<lambda>(u, m). sys (mkdirs_os u (511 AND NOT m) (prefixes_of p))"
      "\<lambda>w. (euid w, umask w)"]
  by (simp add: create_dir_all_def [abs_def] friendly_sys good_mkdirs split_beta)

lemma yields_open_lock_file:
  assumes "may_add p"
  shows "yields (friendly good) (opened_at p) (open_with lock_flags perm p)"
proof -
  have "opened_at p f" if "good s" and o: "open_os lock_flags u m p s = (Inr f, s')" for s u m f s'
    using that good_open [OF that(1) _ _ assms, of lock_flags u m] open_ino [OF o] open_handle [OF that]
    by (auto simp: opened_at_def lock_flags_def)
  then have "yields (friendly good) (opened_at p) (sys (open_os lock_flags u m p))" for u m
    using assms by (intro yields_sys good_open) (auto simp: lock_flags_def)
  from yields_read [of "friendly good" "opened_at p" "\<lambda>(u, m). sys (open_os lock_flags u (perm AND NOT m) p)"
      "\<lambda>w. (euid w, umask w)"] this
  show ?thesis by (simp add: open_with_def [abs_def] split_beta)
qed

lemma yields_open_read:
  assumes "\<not> o_create fl"
  shows "yields (friendly good) (\<lambda>f. mine (fd f)) (open_with fl perm p)"
proof -
  have "yields (friendly good) (\<lambda>f. mine (fd f)) (sys (open_os fl u m p))" for u m
    using assms by (intro yields_sys good_open_read open_handle)
  from yields_read [of "friendly good" "\<lambda>f. mine (fd f)" "\<lambda>(u, m). sys (open_os fl u (perm AND NOT m) p)"
      "\<lambda>w. (euid w, umask w)"] this
  show ?thesis by (simp add: open_with_def [abs_def] split_beta)
qed

lemma yields_create_new:
  assumes "may_add p"
  shows "yields (friendly good) (\<lambda>f. mine (fd f) \<and> blank f) (create_new p)"
proof -
  have "yields (friendly good) (\<lambda>f. mine (fd f) \<and> blank f) (sys (create_new_os u m p))" for u m
    using assms
    by (intro yields_sys) (auto simp: create_new_os_def good_new_file opens creates split: option.splits)
  from yields_read [of "friendly good" "\<lambda>f. mine (fd f) \<and> blank f" "\<lambda>(u, m). sys (create_new_os u (384 AND NOT m) p)"
      "\<lambda>w. (euid w, umask w)"] this
  show ?thesis by (simp add: create_new_def [abs_def] split_beta)
qed

lemma friendly_remove_file [steady_intros]: "may_remove p \<Longrightarrow> steady (friendly good) (remove_file p)"
  unfolding remove_file_def
  by (rule friendly_sys) (auto simp: unlink_os_def remove split: option.split)

lemma friendly_remove_dir_all [steady_intros]: "may_remove p \<Longrightarrow> steady (friendly good) (remove_dir_all p)"
  unfolding remove_dir_all_def
  by (rule friendly_sys) (auto simp: rmtree_os_def remove_below split: option.split)

lemma good_rename: "good s \<Longrightarrow> may_remove p \<Longrightarrow> may_add q \<Longrightarrow> may_remove q \<Longrightarrow>
    good (snd (rename_os p q s))"
  by (auto simp: rename_os_def split: option.split intro: replace)

lemma friendly_rename [steady_intros]:
  "may_remove p \<Longrightarrow> may_add q \<Longrightarrow> may_remove q \<Longrightarrow> steady (friendly good) (rename p q)"
  "may_remove p \<Longrightarrow> may_add q \<Longrightarrow> may_remove q \<Longrightarrow> steady (friendly good) (rename_new p q)"
  unfolding rename_def rename_new_def
  by (rule friendly_sys, auto simp: rename_new_os_def good_rename)+

text \<open>Locks: of a handle of this process, and never of a file that cannot be taken.\<close>

lemma flock_wait_good:
  "good s \<Longrightarrow> mine (fd f) \<Longrightarrow> \<forall>(g, e) \<in> set sc. \<forall>s. good s \<longrightarrow> good (g s) \<Longrightarrow> flock_wait f m sc s = (r, s', sc') \<Longrightarrow>
    good s' \<and> set sc' \<subseteq> set sc \<and> (r = Inr () \<longrightarrow> (\<exists>t. good t \<and> \<not> conflict f m t))"
proof (induction f m sc s arbitrary: r s' sc' rule: flock_wait.induct)
  case (1 f m s)
  then show ?case by (auto simp: locked split: if_splits)
next
  case (2 f m g failure rest s)
  have "good (g s)" using 2(2,4) by auto
  with 2 show ?case
    by (cases failure) (auto simp: locked split: if_splits)
qed

lemma friendly_file_lock [steady_intros]: "mine (fd f) \<Longrightarrow> steady (friendly good) (file_lock f m)"
  and yields_file_lock: "opened_at p f \<Longrightarrow> yields (friendly good) (\<lambda>_. takes p) (file_lock f Exclusive)"
proof -
  have run: "friendly good w' \<and> (r = Inr () \<longrightarrow> (\<exists>t. good t \<and> \<not> conflict f m t))"
    if m: "mine (fd f)" and w: "friendly good w" and e: "file_lock f m w = (r, w')" for m w r w'
  proof -
    from e obtain s sc where l: "flock_wait f m (script w) (fs w) = (r, s, sc)"
      and w': "w' = w\<lparr>fs := s, script := sc\<rparr>"
      by (auto simp: file_lock_def split: prod.splits)
    from w flock_wait_good [OF _ m _ l] w' show ?thesis by (auto simp: friendly_def)
  qed
  show "mine (fd f) \<Longrightarrow> steady (friendly good) (file_lock f m)"
    using run by (intro steadyI) blast
  show "opened_at p f \<Longrightarrow> yields (friendly good) (\<lambda>_. takes p) (file_lock f Exclusive)"
    using run barred by (intro yieldsI) (fastforce simp: opened_at_def)
qed

lemma friendly_file_try_lock [steady_intros]: "mine (fd f) \<Longrightarrow> steady (friendly good) (file_try_lock f m)"
  and yields_file_try_lock: "opened_at p f \<Longrightarrow> yields (friendly good) (\<lambda>_. takes p) (file_try_lock f Exclusive)"
proof -
  have s: "yields (friendly good) (\<lambda>b. b \<longrightarrow> (\<exists>t. good t \<and> \<not> conflict f m t)) (sys (try_flock_os f m))" if "mine (fd f)" for m
    using that by (intro yields_sys) (auto simp: try_flock_os_def locked split: if_splits)
  show "mine (fd f) \<Longrightarrow> steady (friendly good) (file_try_lock f m)"
    using steadyD [OF yields_steady [OF s]]
    by (intro steadyI) (auto simp: file_try_lock_def split: prod.splits sum.splits bool.splits stop.splits)
  show "yields (friendly good) (\<lambda>_. takes p) (file_try_lock f Exclusive)" if o: "opened_at p f"
  proof (rule yieldsI)
    fix w r w'
    assume w: "friendly good w" and e: "file_try_lock f Exclusive w = (r, w')"
    from o have m: "mine (fd f)" by (rule opened_at_mine)
    obtain b w1 where b: "sys (try_flock_os f Exclusive) w = (b, w1)" by (cases "sys (try_flock_os f Exclusive) w")
    with w have w1: "friendly good w1" by (blast dest: steadyD [OF yields_steady [OF s [OF m]]])
    have "takes p" if "b = Inr True"
      using yieldsD [OF s [OF m] w] b that o barred by (fastforce simp: opened_at_def)
    with e b w1 show "friendly good w' \<and> (\<forall>x. r = Inr x \<longrightarrow> takes p)"
      by (auto simp: file_try_lock_def split: sum.splits stop.splits bool.splits)
  qed
qed

lemma friendly_drop_file [steady_intros]: "friendly good w \<Longrightarrow> mine (fd f) \<Longrightarrow> friendly good (drop_file f w)"
  by (simp add: friendly_def drop_file_def unlocked)

text \<open>The functions of \<open>private.rs\<close>.\<close>

lemma friendly_set_mode [steady_intros]: "steady (friendly good) (set_mode p m)"
  by (intro steady_set_mode steady_intros)

lemma friendly_validate_root [steady_intros]: "steady (friendly good) (validate_root p)"
  by (intro steady_validate_root steady_intros)

lemma friendly_ensure_root:
  "\<forall>q \<in> set (prefixes_of p). may_add q \<Longrightarrow> steady (friendly good) (ensure_root p)"
  by (intro steady_ensure_root steady_intros)

lemma friendly_ensure_dir [steady_intros]: "may_add p \<Longrightarrow> steady (friendly good) (ensure_dir p)"
  by (intro steady_ensure_dir steady_intros)

lemma opened_open_lock: "may_add p \<Longrightarrow> yields (friendly good) (opened_at p) (open_lock p)"
  by (intro yields_open_lock yields_secure_lock yields_open_lock_file steady_intros opened_at_mine)

lemma friendly_names [steady_intros]: "steady (friendly good) (names p f)"
  by (intro steady_names steady_intros)

lemma friendly_take_lock [steady_intros]: "mine (fd f) \<Longrightarrow> steady (friendly good) (take_lock f m)"
  by (intro steady_take_lock steady_intros)

lemma yields_take_lock: "opened_at p f \<Longrightarrow> yields (friendly good) (\<lambda>_. takes p) (take_lock f Exclusive)"
  unfolding take_lock_def by (intro yields_map_err yields_file_lock)

text \<open>A lock that was taken: on a handle of this process, at its path, which can be taken.\<close>

definition taken_at :: "path \<Rightarrow> held \<Rightarrow> bool" where
  "taken_at p h \<longleftrightarrow> h_path h = p \<and> mine (fd (h_file h)) \<and> takes p"

lemma taken_lock_exclusive: "may_add p \<Longrightarrow> yields (friendly good) (taken_at p) (lock_exclusive p)"
  by (rule yields_weaken [OF yields_lock_exclusive [OF opened_open_lock yields_take_lock]])
    (auto simp: taken_at_def opened_at_mine intro: steady_intros)

lemma taken_try_lock_exclusive:
  assumes "may_add p"
  shows "yields (friendly good) (\<lambda>r. \<forall>h. r = Some h \<longrightarrow> taken_at p h) (try_lock_exclusive p)"
  unfolding try_lock_exclusive_def
proof (rule yields_andThen [OF opened_open_lock [OF assms]], rule yieldsI)
  fix f w r w'
  assume f: "opened_at p f" and w: "friendly good w" and e: "(case file_try_lock f Exclusive w of
     (Inl Pending, w2) \<Rightarrow> (Inl Pending, w2)
   | (Inl (Err TryWouldBlock), w2) \<Rightarrow> (Inr None, drop_file f w2)
   | (Inl (Err (TryError e)), w2) \<Rightarrow> (Inl (Err (error_io e)), drop_file f w2)
   | (Inr _, w2) \<Rightarrow> (case names p f w2 of
       (Inl Pending, w3) \<Rightarrow> (Inl Pending, w3)
     | (Inl (Err e), w3) \<Rightarrow> (Inl (Err e), drop_file f w3)
     | (Inr same, w3) \<Rightarrow>
         if same then (Inr (Some \<lparr>h_path = p, h_file = f\<rparr>), w3)
         else (Inr None, drop_file f w3))) = (r, w')"
  from f have m: "mine (fd f)" by (rule opened_at_mine)
  obtain a w2 where a: "file_try_lock f Exclusive w = (a, w2)" by (cases "file_try_lock f Exclusive w")
  with w have w2: "friendly good w2" by (blast dest: steadyD [OF friendly_file_try_lock [OF m]])
  have t: "takes p" if "a = Inr u" for u using yieldsD [OF yields_file_try_lock [OF f] w] a that by blast
  obtain b w3 where b: "names p f w2 = (b, w3)" by (cases "names p f w2")
  with w2 have w3: "friendly good w3" by (blast dest: steadyD [OF friendly_names])
  from e a b w2 w3 m t friendly_drop_file [OF w2 m] friendly_drop_file [OF w3 m]
  show "friendly good w' \<and> (\<forall>x. r = Inr x \<longrightarrow> (\<forall>h. x = Some h \<longrightarrow> taken_at p h))"
    by (auto simp: taken_at_def split: sum.splits stop.splits try_lock_error.splits if_splits)
qed

lemma friendly_private_remove [steady_intros]:
  assumes "may_remove p"
  shows "steady (friendly good) (private_remove p)"
proof (rule steadyI)
  fix w r w'
  assume w: "friendly good w" and e: "private_remove p w = (r, w')"
  obtain a w1 where a: "symlink_metadata p w = (a, w1)" by (cases "symlink_metadata p w")
  with w have w1: "friendly good w1" by (blast dest: steadyD [OF friendly_read_only(1)])
  obtain b w2 where b: "remove_dir_all p w1 = (b, w2)" by (cases "remove_dir_all p w1")
  with w1 have w2: "friendly good w2" by (blast dest: steadyD [OF friendly_remove_dir_all [OF assms]])
  obtain c w3 where c: "remove_file p w1 = (c, w3)" by (cases "remove_file p w1")
  with w1 have w3: "friendly good w3" by (blast dest: steadyD [OF friendly_remove_file [OF assms]])
  from e a b c w1 w2 w3 show "friendly good w'"
    by (auto simp: private_remove_def Let_def split: sum.splits stop.splits if_splits)
qed

text \<open>A name that is no regular file is removed, so it must be one that may go.\<close>

lemma friendly_regular [steady_intros]:
  assumes "may_remove p \<or> solid p"
  shows "steady (friendly good) (regular p)"
proof (cases "may_remove p")
  case True
  then show ?thesis
    unfolding regular_def ok_def [symmetric]
    by (intro steady_match steady_if_world steady_intros)
next
  case False
  with assms have p: "solid p" by simp
  have m: "yields (friendly good) is_file (symlink_metadata p)"
    unfolding symlink_metadata_def
  proof (rule yields_sys)
    show "good (snd (stat_os p s))" if "good s" for s using that by (simp add: stat_os_def split: option.split)
    show "is_file m" if "good s" "stat_os p s = (Inr m, s')" for s m s'
      using that stands [OF that(1) p] by (auto simp: stat_os_def node_at_def is_file_def split: option.splits)
  qed
  have "steady (friendly good) (\<lambda>w1. if is_file m then (Inr (Some m), w1) else andThen (private_remove p) (\<lambda>_. ok None) w1)"
    if "is_file m" for m
    using that by (simp add: steady_def)
  then show ?thesis
    unfolding regular_def by (intro steady_match_where [OF m]) (auto simp: steady_def fail_def)
qed

lemma friendly_drop_held:
  assumes "friendly good w" and "may_remove (h_path h)" and "mine (fd (h_file h))"
  shows "friendly good (drop_held h w)"
  using steadyD [OF friendly_remove_file [OF assms(2)] assms(1)] friendly_drop_file assms(3)
  by (cases "remove_file (h_path h) w") (simp add: drop_held_def)

lemma friendly_private_read [steady_intros]: "steady (friendly good) (private_read p limit)"
proof -
  have err: "steady (friendly good) (\<lambda>w1. case symlink_metadata p w1 of
           (Inl Pending, w2) \<Rightarrow> (Inl Pending, w2)
         | (Inr m, w2) \<Rightarrow> if \<not> is_file m then ok None w2 else fail (error_io errno) w2
         | (Inl (Err e), w2) \<Rightarrow> if e = NotFound then ok None w2 else fail (error_io errno) w2)" for errno
    by (intro steady_match steady_if_world steady_intros)
  have o: "yields (friendly good) (\<lambda>f. mine (fd f)) (open_with read_flags 0 p)"
    by (rule yields_open_read) (simp add: read_flags_def)
  show ?thesis
    unfolding private_read_def ok_def [symmetric]
    by (intro steady_match_where [OF o] steady_if_world steady_intros err) simp_all
qed

lemma friendly_touch [steady_intros]: "steady (friendly good) (touch p t)"
proof -
  have o: "yields (friendly good) (\<lambda>f. mine (fd f)) (io (open_with read_flags 0 p))"
    by (intro yields_io yields_open_read) (simp add: read_flags_def)
  show ?thesis unfolding touch_def by (intro steady_andThen_where [OF o] steady_intros)
qed

lemma yields_file_open: "yields (friendly good) (\<lambda>f. mine (fd f)) (file_open p)"
  unfolding file_open_def by (rule yields_open_read) simp

lemma friendly_sync_dir [steady_intros]: "steady (friendly good) (sync_dir p)"
  unfolding sync_dir_def by (intro steady_andThen_where [OF yields_io [OF yields_file_open]] steady_intros)

lemma friendly_drop_temp:
  assumes "friendly good w" and "may_remove p" and "mine (fd f)"
  shows "friendly good (drop_temp p f w)"
  using steadyD [OF friendly_remove_file [OF assms(2)] assms(1)] friendly_drop_file assms(3)
  by (cases "remove_file p w") (simp add: drop_temp_def)

text \<open>Entries: reading.\<close>

lemma friendly_read_header [steady_intros]: "steady (friendly good) (read_header j p limit)"
proof (rule steadyI)
  fix w r w'
  assume w: "friendly good w" and e: "read_header j p limit w = (r, w')"
  obtain a w1 where a: "file_open p w = (a, w1)" by (cases "file_open p w")
  with w have w1: "friendly good w1" by (blast dest: steadyD [OF yields_steady [OF yields_file_open]])
  show "friendly good w'"
  proof (cases a)
    case (Inl err)
    with e a w1 show ?thesis by (auto simp: read_header_def split: stop.splits)
  next
    case (Inr f)
    with a w have f: "mine (fd f)" by (blast dest: yieldsD [OF yields_file_open])
    obtain b w2 where b: "read_up_to f (unat limit) w1 = (b, w2)" by (cases "read_up_to f (unat limit) w1")
    with w1 have w2: "friendly good w2" by (blast dest: steadyD [OF friendly_read_only(3)])
    from e a Inr b w2 friendly_drop_file [OF w2 f] show ?thesis
      by (auto simp: read_header_def split: sum.splits stop.splits option.splits)
  qed
qed

lemma friendly_live [steady_intros]: "steady (friendly good) (live j p now limit)"
  unfolding live_def by (intro steady_intros)

lemma friendly_discard: "(locked \<Longrightarrow> may_remove p) \<Longrightarrow> steady (friendly good) (discard p locked)"
  unfolding discard_def by (intro steady_intros)

lemma friendly_cache_read:
  assumes "may_add (entries_dir inner)"
    and "locked \<Longrightarrow> may_remove (entry_path inner (digest k))"
  shows "steady (friendly good) (cache_read j inner k locked)"
proof -
  let ?p = "entry_path inner (digest k)"
  note dc = friendly_discard [OF assms(2)]
  let ?serve = "\<lambda>bytes m h now. (if now > h_stale_until_ms h then discard ?p locked
     else (case parse_value j bytes of
         None \<Rightarrow> discard ?p locked
       | Some v \<Rightarrow> andThen
           (if saturating_sub now (modified_ms m) > millis (touch_after (i_limits inner))
            then ignore (touch ?p (at now)) else ok ())
           (\<lambda>_. let cached = \<lparr>c_value = v, stored_at_ms = h_stored_at_ms h,
                  age_ms = saturating_sub now (h_stored_at_ms h), c_source = h_source h\<rparr>
             in ok (if h_schema h = schema inner \<and> now \<le> h_fresh_until_ms h
                    then Fresh cached else Stale cached))))"
  have "steady (friendly good) (?serve bytes m h now)" for bytes m h now
    unfolding Let_def by (intro steady_intros dc)
  then have sv: "steady (friendly good) (\<lambda>w. ?serve bytes m h (now_ms w) w)" for bytes m h
    by (rule steady_read)
  have eq: "(\<lambda>w. ?serve bytes m h (now_ms w) w) = (\<lambda>w. let now = now_ms w in
               if now > h_stale_until_ms h then discard ?p locked w
               else (case parse_value j bytes of
                   None \<Rightarrow> discard ?p locked w
                 | Some v \<Rightarrow>
                     andThen
                       (if saturating_sub now (modified_ms m) > millis (touch_after (i_limits inner))
                        then ignore (touch ?p (at now)) else ok ())
                       (\<lambda>_. let cached = \<lparr>c_value = v, stored_at_ms = h_stored_at_ms h,
                              age_ms = saturating_sub now (h_stored_at_ms h), c_source = h_source h\<rparr>
                         in ok (if h_schema h = schema inner \<and> now \<le> h_fresh_until_ms h
                                then Fresh cached else Stale cached)) w))" for bytes m h
    by (rule ext) (simp add: Let_def split: option.split)
  have k: "steady (friendly good) (case found of
         None \<Rightarrow> discard ?p locked
       | Some (bytes, m) \<Rightarrow> (case parse_header j bytes of
           None \<Rightarrow> discard ?p locked
         | Some h \<Rightarrow>
             if h_schema h > schema inner then ok Miss
             else if \<not> consistent h \<or> h_digest h \<noteq> digest k \<or> h_namespace h \<noteq> namespace k
             then discard ?p locked
             else (\<lambda>w. ?serve bytes m h (now_ms w) w)))" for found
    using sv dc by (auto split: option.split intro: steady_intros)
  show ?thesis
    unfolding cache_read_def Let_def [of "entry_path inner (digest k)"] eq [symmetric]
    by (intro steady_intros assms(1) k)
qed

text \<open>Locks and writes.\<close>

lemma taken_cache_lock:
  assumes "able may_add may_remove takes solid inner"
  shows "yields (friendly good) (\<lambda>kl. kl_inner kl = inner \<and> taken_at (lock_path inner (digest k)) (kl_held kl)
    \<and> mine (fd (kl_maintenance kl))) (cache_lock inner k)"
proof -
  note paths = able_paths [OF assms]
  have s: "yields (friendly good) (\<lambda>_. True) m" if "steady (friendly good) m" for m :: "'x cache_io"
    using that by (simp add: yields_def)
  show ?thesis
    unfolding cache_lock_def
    by (intro yields_andThen [OF s] yields_andThen [OF opened_open_lock] yields_on_error
        yields_andThen [OF taken_lock_exclusive] yields_ok friendly_validate_root friendly_ensure_dir
        friendly_take_lock friendly_drop_file opened_at_mine paths(2,3,5))
      (auto intro: opened_at_mine)
qed

lemma friendly_cache_lock:
  "able may_add may_remove takes solid inner \<Longrightarrow> steady (friendly good) (cache_lock inner k)"
  by (rule yields_steady [OF taken_cache_lock])

lemma friendly_drop_key_lock:
  "friendly good w \<Longrightarrow> may_remove (h_path (kl_held kl)) \<Longrightarrow> mine (fd (h_file (kl_held kl))) \<Longrightarrow>
    mine (fd (kl_maintenance kl)) \<Longrightarrow> friendly good (drop_key_lock kl w)"
  unfolding drop_key_lock_def by (intro friendly_drop_file friendly_drop_held)

lemma friendly_write_atomic:
  assumes able: "able may_add may_remove takes solid inner" and d: "takes (lock_path inner d)"
  shows "steady (friendly good) (write_atomic rnd inner d bytes)"
proof -
  note paths = able_paths [OF able]
  let ?tmp = "entries_dir inner @ [temporary_name d rnd]"
  have t: "may_add ?tmp" "may_remove ?tmp" using paths(12,13) temporary_name_starts by blast+
  have w: "steady (friendly good) (\<lambda>w. andThen (io (set_modified f (at (now_ms w)))) (\<lambda>_.
          andThen (io (sync_all f)) (\<lambda>_. io (rename ?tmp (entry_path inner d)))) w)" for f
    by (rule steady_read) (intro steady_intros paths(10,11) d t)
  have l: "steady (friendly good) (\<lambda>w. sync_dir (entries_dir inner) (drop_file f w))" if "mine (fd f)" for f
    using steadyD [OF friendly_sync_dir friendly_drop_file [OF _ that]] by (auto intro: steadyI)
  show ?thesis
    unfolding write_atomic_def Let_def
    by (intro steady_andThen [OF friendly_ensure_dir] steady_andThen_where [OF yields_io [OF yields_create_new]]
        steady_andThen [OF steady_on_error] steady_andThen [OF steady_io] friendly_write_all
        w l friendly_drop_temp paths(1) t) simp_all
qed

lemma friendly_count_usage [steady_intros]: "steady (friendly good) (count_usage u ps)"
proof (induction ps arbitrary: u)
  case Nil
  then show ?case by (simp add: steady_def)
next
  case (Cons p ps)
  have "steady (friendly good) (\<lambda>w. case symlink_metadata p w of
        (Inl Pending, w1) \<Rightarrow> (Inl Pending, w1)
      | (Inl (Err e), w1) \<Rightarrow>
          if e = NotFound then count_usage u ps w1 else (Inl (Err (error_io e)), w1)
      | (Inr m, w1) \<Rightarrow>
          if is_file m
          then count_usage \<lparr>u_entries = u_entries u + 1,
                 u_bytes = saturating_add (u_bytes u) (m_len m)\<rparr> ps w1
          else count_usage u ps w1)"
    unfolding fail_def [symmetric]
    by (intro steady_match steady_if_world steady_intros Cons)
  with Cons [of u] show ?case by (simp add: steady_def)
qed

lemma friendly_usage_of [steady_intros]:
  "may_add (entries_dir inner) \<Longrightarrow> steady (friendly good) (usage_of inner)"
  unfolding usage_of_def by (intro steady_intros)

lemma friendly_sweep_due [steady_intros]: "steady (friendly good) (sweep_due inner)"
  using steadyD [OF friendly_read_only(1)]
  by (intro steadyI) (auto simp: sweep_due_def split: prod.splits sum.splits stop.splits)

text \<open>Prune.\<close>

lemma friendly_remove_locks_loop:
  assumes "\<forall>p \<in> set ps. may_add p \<and> (may_remove p \<or> solid p) \<and> (takes p \<longrightarrow> may_remove p)"
  shows "steady (friendly good) (remove_locks_loop n ps)"
  using assms
proof (induction ps arbitrary: n)
  case Nil
  then show ?case by (simp add: steady_def)
next
  case (Cons p ps)
  then have p: "may_add p" "may_remove p \<or> solid p" "takes p \<Longrightarrow> may_remove p"
    and IH: "\<And>n. steady (friendly good) (remove_locks_loop n ps)"
    by simp_all
  have body: "steady (friendly good) (\<lambda>w1. case h of
           None \<Rightarrow> remove_locks_loop n ps w1
         | Some held \<Rightarrow> remove_locks_loop (n + 1) ps (drop_held held w1))"
    if "\<forall>x. h = Some x \<longrightarrow> taken_at p x" for h
    using that IH p(3) steadyD [OF IH friendly_drop_held]
    by (cases h) (auto intro!: steadyI simp: taken_at_def)
  show ?case
    unfolding remove_locks_loop.simps [abs_def]
    by (intro steady_andThen [OF friendly_regular [OF p(2)]] steady_option IH
        steady_andThen_where [OF taken_try_lock_exclusive [OF p(1)] body])
qed

lemma listed: "yields (friendly good) (\<lambda>items. \<forall>q \<in> set items. \<exists>n. q = d @ [n]) (io (read_dir d))"
  by (intro yields_of_steady steady_intros read_dir_shape)

lemma friendly_remove_unheld_locks:
  assumes "able may_add may_remove takes solid inner"
  shows "steady (friendly good) (remove_unheld_locks inner)"
proof -
  note paths = able_paths [OF assms]
  show ?thesis
    unfolding remove_unheld_locks_def
    by (intro steady_andThen [OF friendly_ensure_dir] steady_andThen_where [OF listed] steady_andThen
        friendly_remove_locks_loop steady_intros paths(2)) (use paths(6-8) in fast)
qed

lemma friendly_under_key:
  assumes able: "able may_add may_remove takes solid inner" and a: "steady (friendly good) a"
    and b: "\<And>h. taken_at (lock_path inner d) h \<Longrightarrow> steady (friendly good) (b h)"
  shows "steady (friendly good) (andThen (try_key inner d) (\<lambda>h. case h of None \<Rightarrow> a | Some h \<Rightarrow> b h))"
  unfolding try_key_def
  by (intro steady_andThen_where [OF taken_try_lock_exclusive] able_paths(5) [OF able])
    (use a b in \<open>auto split: option.split\<close>)

lemma friendly_examine [steady_intros]:
  "may_remove p \<Longrightarrow> steady (friendly good) (examine j inner now p d st)"
  unfolding examine_def Let_def by (intro steady_intros) simp_all

lemma friendly_drop_taken:
  assumes "able may_add may_remove takes solid inner" and "taken_at (lock_path inner d) h" and "friendly good w"
  shows "friendly good (drop_held h w)"
  using assms able_paths(9) [OF assms(1)] by (intro friendly_drop_held) (auto simp: taken_at_def)

lemma friendly_sweep_item:
  assumes able: "able may_add may_remove takes solid inner" and p: "p = entries_dir inner @ [n]"
  shows "steady (friendly good) (sweep_item j inner now p st)"
proof (cases "is_temporary p")
  case True
  then have "may_remove p" using able_paths(13) [OF able] temporary_starts by (auto simp: p)
  with True show ?thesis
    unfolding sweep_item_def sweep_temporary_def
    by (auto intro!: steady_intros friendly_under_key [OF able] friendly_drop_taken [OF able] split: option.split)
next
  case False
  have "steady (friendly good) (examine j inner now p d st)"
    if "entry_digest p = Some d" "taken_at (lock_path inner d) h" for d h
  proof -
    have "p = entry_path inner d" using that(1) entry_digest_named unfolding p by blast
    with that(2) able_paths(11) [OF able] show ?thesis by (intro friendly_examine) (simp add: taken_at_def)
  qed
  with False show ?thesis
    unfolding sweep_item_def
    by (auto intro!: steady_ok steady_scoped friendly_under_key [OF able] friendly_drop_taken [OF able] split: option.split)
qed

lemma friendly_sweep_loop:
  assumes able: "able may_add may_remove takes solid inner"
  shows "\<forall>p \<in> set ps. \<exists>n. p = entries_dir inner @ [n] \<Longrightarrow> steady (friendly good) (sweep_loop j inner now ps st)"
proof (induction ps arbitrary: st)
  case Nil
  then show ?case by (simp add: steady_def)
next
  case (Cons p ps)
  then obtain n where "p = entries_dir inner @ [n]" by auto
  with Cons show ?case
    unfolding sweep_loop.simps by (intro steady_andThen friendly_sweep_item [OF able]) simp_all
qed

lemma friendly_evict [steady_intros]:
  "may_remove (entry_path inner d) \<Longrightarrow> steady (friendly good) (evict inner u d sz st)"
  unfolding evict_def Let_def by (intro steady_intros) simp_all

lemma friendly_evict_loop:
  assumes able: "able may_add may_remove takes solid inner"
  shows "steady (friendly good) (evict_loop inner te tb ks st)"
proof (induction ks arbitrary: st)
  case Nil
  then show ?case unfolding evict_loop.simps by (intro steady_ok)
next
  case (Cons k ks)
  obtain u d sz where k: "k = (u, d, sz)" by (metis prod_cases3)
  have "steady (friendly good) (evict inner u d sz st)" if "taken_at (lock_path inner d) h" for h
    using that able_paths(11) [OF able] by (intro friendly_evict) (simp add: taken_at_def)
  then show ?case
    unfolding k evict_loop.simps
    by (intro steady_if steady_ok steady_andThen [OF steady_scoped] friendly_under_key [OF able]
        friendly_drop_taken [OF able] Cons)
qed

lemma friendly_prune:
  assumes able: "able may_add may_remove takes solid inner"
  shows "steady (friendly good) (prune j inner wt)"
proof -
  note paths = able_paths [OF able]
  have t: "steady (friendly good) (take_prune_locks wt m p)" if "mine (fd m)" "mine (fd p)" for m p
    using that unfolding take_prune_locks_def by (cases wt) (simp_all, (intro steady_intros; assumption)+)
  let ?lims = "i_limits inner"
  have e: "steady (friendly good) (
       if u_entries before > hard_entries ?lims \<or> u_bytes before > hard_bytes ?lims
        then evict_loop inner (min (target_entries ?lims) (hard_entries ?lims))
               (min (target_bytes ?lims) (hard_bytes ?lims)) (sort (s_kept st)) (0, s_left st)
        else ok (0, s_left st))" for before st
    by (intro steady_intros friendly_evict_loop [OF able])
  have body: "steady (friendly good) (
     andThen (io (read_dir (entries_dir inner))) (\<lambda>items.
     andThen (sweep_loop j inner now items st0) (\<lambda>st.
     andThen
       (if u_entries before > hard_entries ?lims \<or> u_bytes before > hard_bytes ?lims
        then evict_loop inner (min (target_entries ?lims) (hard_entries ?lims))
               (min (target_bytes ?lims) (hard_bytes ?lims)) (sort (s_kept st)) (0, s_left st)
        else ok (0, s_left st)) (\<lambda>(removed, left).
     andThen (sync_dir (entries_dir inner)) (\<lambda>_.
     andThen (io (set_modified p (at now))) (\<lambda>_.
     ok ((s_outcome st)\<lparr>capacity_removed := removed, after_entries := u_entries left,
           after_bytes := u_bytes left\<rparr>)))))))" for now st0 before p
  proof (rule steady_andThen_where [OF listed])
    fix items
    assume "\<forall>q \<in> set items. \<exists>n. q = entries_dir inner @ [n]"
    then show "steady (friendly good) (
     andThen (sweep_loop j inner now items st0) (\<lambda>st.
     andThen
       (if u_entries before > hard_entries ?lims \<or> u_bytes before > hard_bytes ?lims
        then evict_loop inner (min (target_entries ?lims) (hard_entries ?lims))
               (min (target_bytes ?lims) (hard_bytes ?lims)) (sort (s_kept st)) (0, s_left st)
        else ok (0, s_left st)) (\<lambda>(removed, left).
     andThen (sync_dir (entries_dir inner)) (\<lambda>_.
     andThen (io (set_modified p (at now))) (\<lambda>_.
     ok ((s_outcome st)\<lparr>capacity_removed := removed, after_entries := u_entries left,
           after_bytes := u_bytes left\<rparr>))))))"
      unfolding case_prod_unfold
      by (intro steady_andThen [OF friendly_sweep_loop [OF able]] steady_andThen [OF e] steady_intros)
  qed
  have "steady (friendly good) (prune_locked j inner p)" for p
    unfolding prune_locked_def Let_def
  proof (intro steady_andThen friendly_ensure_dir friendly_remove_unheld_locks [OF able]
      friendly_usage_of paths(1))
    fix before lr
    show "steady (friendly good) (\<lambda>w. andThen (io (read_dir (entries_dir inner))) (\<lambda>items.
     andThen (sweep_loop j inner (now_ms w) items \<lparr>
         s_outcome = prune_default\<lparr>locks_removed := lr, before_entries := u_entries before,
           before_bytes := u_bytes before\<rparr>,
         s_left = before, s_kept = []\<rparr>) (\<lambda>st.
     andThen
       (if u_entries before > hard_entries ?lims \<or> u_bytes before > hard_bytes ?lims
        then evict_loop inner (min (target_entries ?lims) (hard_entries ?lims))
               (min (target_bytes ?lims) (hard_bytes ?lims)) (sort (s_kept st)) (0, s_left st)
        else ok (0, s_left st)) (\<lambda>(removed, left).
     andThen (sync_dir (entries_dir inner)) (\<lambda>_.
     andThen (io (set_modified p (at (now_ms w)))) (\<lambda>_.
     ok ((s_outcome st)\<lparr>capacity_removed := removed, after_entries := u_entries left,
           after_bytes := u_bytes left\<rparr>)))))) w)"
      by (rule steady_read [where f = now_ms, OF body])
  qed
  then show ?thesis
    unfolding prune_def
    by (intro steady_andThen [OF friendly_validate_root] steady_andThen_where [OF opened_open_lock] steady_scoped
        steady_andThen [OF t] friendly_drop_file opened_at_mine paths(3,4))
qed

text \<open>Store, clear and opening.\<close>

lemma friendly_maintain:
  assumes able: "able may_add may_remove takes solid inner"
  shows "steady (friendly good) (maintain j inner)"
proof (rule steadyI)
  fix w r w'
  assume w: "friendly good w" and e: "maintain j inner w = (r, w')"
  note pr = steadyD [OF friendly_prune [OF able, of j Skip]]
  obtain a w1 where a: "usage_of inner w = (a, w1)" by (cases "usage_of inner w")
  with w have w1: "friendly good w1" by (blast dest: steadyD [OF friendly_usage_of [OF able_paths(1) [OF able]]])
  obtain b w2 where b: "prune j inner Skip w1 = (b, w2)" by (cases "prune j inner Skip w1")
  with w1 have w2: "friendly good w2" by (blast dest: pr)
  obtain c w3 where c: "sweep_due inner w1 = (c, w3)" by (cases "sweep_due inner w1")
  with w1 have w3: "friendly good w3" by (blast dest: steadyD [OF friendly_sweep_due])
  obtain d w4 where d: "prune j inner Skip w3 = (d, w4)" by (cases "prune j inner Skip w3")
  with w3 have w4: "friendly good w4" by (blast dest: pr)
  from e a b c d w1 w2 w3 w4 show "friendly good w'"
    by (auto simp: maintain_def Let_def andThen_def ok_def split: sum.splits stop.splits if_splits)
qed

lemma friendly_store:
  assumes able: "able may_add may_remove takes solid (kl_inner kl)"
    and t: "takes (lock_path (kl_inner kl) (digest (kl_key kl)))" and h: "may_remove (h_path (kl_held kl))"
    and m: "mine (fd (h_file (kl_held kl)))" "mine (fd (kl_maintenance kl))"
  shows "steady (friendly good) (store rnd j kl v pol)"
proof (rule steadyI)
  fix w r w'
  assume w: "friendly good w" and e: "store rnd j kl v pol w = (r, w')"
  note d = friendly_drop_key_lock [OF _ h m]
  have s: "steady (friendly good)
      (andThen (scoped (write_atomic rnd (kl_inner kl) (digest (kl_key kl)) bytes) (drop_key_lock kl)) (\<lambda>_.
       andThen (maintain j (kl_inner kl)) (\<lambda>m. ok (Written m))))" for bytes
    by (intro steady_intros friendly_write_atomic [OF able t] friendly_maintain [OF able] d)
  from e w d [OF w] steadyD [OF s w] show "friendly good w'"
    by (auto simp: store_def Let_def split: option.splits if_splits)
qed

lemma friendly_remove_each:
  "\<forall>p \<in> set ps. may_remove p \<Longrightarrow> steady (friendly good) (remove_each ps)"
proof (induction ps)
  case Nil
  then show ?case unfolding remove_each.simps by (intro steady_ok)
next
  case (Cons p ps)
  then show ?case unfolding remove_each.simps by (intro steady_intros) simp_all
qed

lemma yields_clear:
  assumes able: "able may_add may_remove takes solid inner"
  shows "yields (friendly good) (\<lambda>_. takes (maintenance_path inner)) (clear inner)"
proof -
  note paths = able_paths [OF able]
  have c: "steady (friendly good) (clear_dir d)" if "may_add d" and r: "\<And>n. may_remove (d @ [n])" for d
    unfolding clear_dir_def
    by (intro steady_andThen [OF friendly_ensure_dir] steady_andThen_where [OF listed] that(1)
        steady_andThen [OF friendly_remove_each] friendly_sync_dir) (use r in auto)
  from able have r: "takes (maintenance_path inner) \<Longrightarrow> may_remove (entries_dir inner @ [n]) \<and> may_remove (locks_dir inner @ [n])" for n
    by (simp add: able_def)
  have body: "yields (friendly good) (\<lambda>_. takes (maintenance_path inner))
      (andThen (clear_dir (entries_dir inner)) (\<lambda>_. clear_dir (locks_dir inner)))" if t: "takes (maintenance_path inner)"
    unfolding yields_def by (intro conjI steady_andThen c paths(1,2)) (use r [OF t] t in simp_all)
  have s: "yields (friendly good) (\<lambda>_. True) m" if "steady (friendly good) m" for m :: "'x cache_io"
    using that by (simp add: yields_def)
  show ?thesis
    unfolding clear_def
    by (intro yields_andThen [OF s [OF friendly_validate_root]] yields_andThen [OF opened_open_lock] yields_scoped
        yields_andThen [OF yields_take_lock] body friendly_drop_file opened_at_mine paths(3))
qed

lemma friendly_clear: "able may_add may_remove takes solid inner \<Longrightarrow> steady (friendly good) (clear inner)"
  by (rule yields_steady [OF yields_clear])

lemma friendly_create_private:
  assumes "may_add (d @ [n])" "may_remove (d @ [n])" "may_add (d @ [t])" "may_remove (d @ [t])"
  shows "steady (friendly good) (create_private t d n bytes)"
proof (rule steadyI)
  fix w r w'
  let ?tmp = "d @ [t]" and ?target = "d @ [n]"
  assume w: "friendly good w" and e: "create_private t d n bytes w = (r, w')"
  obtain a w1 where a: "symlink_metadata ?target w = (a, w1)" by (cases "symlink_metadata ?target w")
  with w have w1: "friendly good w1" by (blast dest: steadyD [OF friendly_read_only(1)])
  have body: "steady (friendly good) (\<lambda>w2.
            case io (write_all f bytes) w2 of
              (Inl Pending, w3) \<Rightarrow> (Inl Pending, w3)
            | (Inl (Err e), w3) \<Rightarrow> (Inl (Err e), drop_temp ?tmp f w3)
            | (Inr _, w3) \<Rightarrow> (case rename_new ?tmp ?target w3 of
                (Inl Pending, w4) \<Rightarrow> (Inl Pending, w4)
              | (Inr _, w4) \<Rightarrow> (Inr (), drop_file f w4)
              | (Inl (Err e), w4) \<Rightarrow>
                  if e = AlreadyExists then (Inr (), drop_temp ?tmp f w4)
                  else (Inl (Err (error_io e)), drop_temp ?tmp f w4)))" if f: "mine (fd f) \<and> blank f" for f
  proof (intro steady_match)
    show "steady (friendly good) (io (write_all f bytes))" using f by (intro steady_intros) simp
    show "steady (friendly good) (rename_new ?tmp ?target)" by (intro steady_intros assms)
    show "steady (friendly good) (\<lambda>w3. (Inl (Err e), drop_temp ?tmp f w3))" for e :: error
      using f by (simp add: steady_def friendly_drop_temp assms)
    show "steady (friendly good) (\<lambda>w4. (Inr (), drop_file f w4))"
      using f by (simp add: steady_def friendly_drop_file)
    show "steady (friendly good) (\<lambda>w4. if e = AlreadyExists then (Inr (), drop_temp ?tmp f w4)
                  else (Inl (Err (error_io e)), drop_temp ?tmp f w4))" for e
      using f by (simp add: steady_def friendly_drop_temp assms)
  qed
  have c: "yields (friendly good) (\<lambda>f. mine (fd f) \<and> blank f) (io (create_new ?tmp))"
    by (intro yields_io yields_create_new assms)
  from e a w1 steadyD [OF steady_andThen_where [OF c body] w1] show "friendly good w'"
    by (auto simp: create_private_def Let_def split: sum.splits stop.splits)
qed

lemma friendly_with_clock:
  assumes own: "owns may_add may_remove \<lparr>root = r, schema = sc, i_limits = lims\<rparr>"
    and pre: "\<forall>q \<in> set (prefixes_of r). may_add q"
  shows "steady (friendly good) (with_clock t r sc lims)"
proof -
  let ?inner = "\<lparr>root = r, schema = sc, i_limits = lims\<rparr>"
  note paths = owns_paths [OF own]
  have last: "steady (friendly good) (\<lambda>w2. let w3 = drop_file p w2 in
      andThen (touch (prune_lock_path ?inner) (at (now_ms w3))) (\<lambda>_. ok ?inner) w3)" if p: "opened_at q p" for p q
  proof (rule steadyI)
    fix w r' w'
    assume w: "friendly good w" and e: "(let w3 = drop_file p w in
      andThen (touch (prune_lock_path ?inner) (at (now_ms w3))) (\<lambda>_. ok ?inner) w3) = (r', w')"
    have "steady (friendly good) (andThen (touch q t) (\<lambda>_. ok ?inner))" for q t
      by (intro steady_intros)
    from steadyD [OF this friendly_drop_file [OF w opened_at_mine [OF p]]] e show "friendly good w'" by (simp add: Let_def)
  qed
  have stamp: "steady (friendly good) (\<lambda>w. case symlink_metadata (prune_lock_path ?inner) w of
         (Inl Pending, w1) \<Rightarrow> (Inl Pending, w1)
       | (Inr _, w1) \<Rightarrow> (Inr ?inner, w1)
       | (Inl (Err _), w1) \<Rightarrow>
           andThen (open_lock (prune_lock_path ?inner)) (\<lambda>p w2.
             let w3 = drop_file p w2 in
             andThen (touch (prune_lock_path ?inner) (at (now_ms w3))) (\<lambda>_. ok ?inner) w3) w1)"
    by (intro steady_match friendly_read_only steady_andThen_where [OF opened_open_lock] last paths)
      (simp_all add: steady_def under_def prune_lock_path_def)
  have tag: "steady (friendly good) (andThen (create_private t r cachedir_tag (as_bytes cachedir_tag_text))
      (\<lambda>_ w. case symlink_metadata (prune_lock_path ?inner) w of
         (Inl Pending, w1) \<Rightarrow> (Inl Pending, w1)
       | (Inr _, w1) \<Rightarrow> (Inr ?inner, w1)
       | (Inl (Err _), w1) \<Rightarrow>
           andThen (open_lock (prune_lock_path ?inner)) (\<lambda>p w2.
             let w3 = drop_file p w2 in
             andThen (touch (prune_lock_path ?inner) (at (now_ms w3))) (\<lambda>_. ok ?inner) w3) w1))"
    using paths [of "r @ [cachedir_tag]"] paths [of "r @ [t]"]
    by (intro steady_andThen friendly_create_private stamp) (simp_all add: under_def)
  show ?thesis
    unfolding with_clock_def Let_def [of ?inner]
    by (intro steady_andThen [OF friendly_ensure_root [OF pre]] steady_andThen [OF friendly_ensure_dir]
        steady_andThen_where [OF opened_open_lock] paths steady_after_drop [OF tag friendly_drop_file] opened_at_mine)
      (simp_all add: under_def entries_dir_def locks_dir_def maintenance_path_def)
qed

end

end
