(* ===== verification/Custody.thy ===== *)
theory Custody
  imports Frame Sample_Cache
begin

text \<open>
  What a \<open>KeyLock\<close> protects, between any two system calls: while one process holds a key, no
  operation of another, whatever it does and however its calls interleave, takes the key, frees
  or replaces its lock file, or changes its entry.
\<close>

section \<open>A key in the custody of another process\<close>

text \<open>
  \<open>kl\<close> holds its key: both its locks are in the lock table and its lock file is the one at the
  path; the entry's name leads to \<open>found\<close>, an inode and its bytes, or nowhere.
\<close>

definition custody :: "inner \<Rightarrow> key_lock \<Rightarrow> (nat \<times> u8 list) option \<Rightarrow> os \<Rightarrow> bool" where
  "custody inner kl found s \<longleftrightarrow>
     (let d = digest (kl_key kl); h = h_file (kl_held kl); m = kl_maintenance kl in
      holds s h Exclusive \<and> holds s m Shared \<and> fd h < next_fd s \<and> fd m < next_fd s
      \<and> ino_at s (lock_path inner d) = Some (f_ino h) \<and> f_ino h < next_ino s \<and> kind (inodes s (f_ino h)) = Regular
      \<and> ino_at s (maintenance_path inner) = Some (f_ino m)
      \<and> (case found of
          None \<Rightarrow> ino_at s (entry_path inner d) = None
        | Some (i, bytes) \<Rightarrow> ino_at s (entry_path inner d) = Some i \<and> i < next_ino s \<and> data (inodes s i) = bytes))"

definition kept_paths :: "inner \<Rightarrow> key_lock \<Rightarrow> path set" where
  "kept_paths inner kl = {lock_path inner (digest (kl_key kl)), entry_path inner (digest (kl_key kl)), maintenance_path inner}"

text \<open>Only the names on those three paths, two descriptors and two inodes matter.\<close>

lemma custody_cong:
  assumes "custody inner kl found s"
    and "\<And>p. p \<in> kept_paths inner kl \<Longrightarrow> ino_at s' p = ino_at s p"
    and "\<And>i. i < next_ino s \<Longrightarrow> kind (inodes s i) = Regular \<Longrightarrow> kind (inodes s' i) = Regular"
    and "\<And>i bytes. found = Some (i, bytes) \<Longrightarrow> data (inodes s' i) = data (inodes s i)"
    and "next_ino s \<le> next_ino s'" and "next_fd s \<le> next_fd s'"
    and "holds s' (h_file (kl_held kl)) Exclusive" and "holds s' (kl_maintenance kl) Shared"
  shows "custody inner kl found s'"
  using assms by (auto simp: custody_def Let_def kept_paths_def split: option.splits)

lemma kept_ino:
  assumes "custody inner kl found s" and "p \<in> kept_paths inner kl" and "p \<noteq> entry_path inner (digest (kl_key kl))"
  shows "ino_at s p \<noteq> None"
  using assms by (auto simp: custody_def Let_def kept_paths_def)

lemma custody_add:
  assumes c: "custody inner kl found s" and p: "p \<noteq> entry_path inner (digest (kl_key kl))" "ino_at s p = None"
  shows "custody inner kl found (add_node p m s)"
proof (rule custody_cong [OF c])
  show "ino_at (add_node p m s) q = ino_at s q" if "q \<in> kept_paths inner kl" for q
    using kept_ino [OF c that] p by (cases "q = p") (auto simp: ino_at_add_node split: option.split)
qed (use c in \<open>auto simp: add_node_def holds_def custody_def Let_def\<close>)

lemma custody_names:
  assumes c: "custody inner kl found s" and "\<And>q. q \<in> kept_paths inner kl \<Longrightarrow> map_of ds q = map_of (dirents s) q"
  shows "custody inner kl found (s\<lparr>dirents := ds\<rparr>)"
  by (rule custody_cong [OF c]) (use assms in \<open>auto simp: ino_at_def holds_def custody_def Let_def\<close>)

lemma custody_content:
  assumes c: "custody inner kl found s" and "kind m = kind (inodes s i) \<or> i \<noteq> f_ino (h_file (kl_held kl))"
    and "data m = data (inodes s i) \<or> (\<forall>j bytes. found = Some (j, bytes) \<longrightarrow> i \<noteq> j)"
  shows "custody inner kl found (set_node i m s)"
  using assms by (auto simp: custody_def Let_def holds_def set_node_def ino_at_def split: option.splits)

lemma custody_locks:
  assumes c: "custody inner kl found s" and "holds (s\<lparr>locks := ls\<rparr>) (h_file (kl_held kl)) Exclusive"
    and "holds (s\<lparr>locks := ls\<rparr>) (kl_maintenance kl) Shared"
  shows "custody inner kl found (s\<lparr>locks := ls\<rparr>)"
  by (rule custody_cong [OF c]) (use assms in \<open>auto simp: ino_at_def\<close>)

text \<open>
  What another process may do: make and remove other names, close and lock its own descriptors,
  write to other files, and take any lock but that key's and the whole cache's.
\<close>

interpretation custody: frame "custody inner kl found" "\<lambda>p. p \<noteq> entry_path inner (digest (kl_key kl))"
  "\<lambda>p. \<forall>q \<in> kept_paths inner kl. \<not> under p q"
  "\<lambda>n. n \<noteq> fd (h_file (kl_held kl)) \<and> n \<noteq> fd (kl_maintenance kl)"
  "\<lambda>f. f_ino f \<noteq> f_ino (h_file (kl_held kl)) \<and> (\<forall>i bytes. found = Some (i, bytes) \<longrightarrow> f_ino f \<noteq> i)"
  "\<lambda>p. p \<noteq> lock_path inner (digest (kl_key kl)) \<and> p \<noteq> maintenance_path inner"
  "\<lambda>p. p = lock_path inner (digest (kl_key kl))" for inner kl found
proof
  fix s
  assume c: "custody inner kl found s"
  let ?d = "digest (kl_key kl)" and ?h = "h_file (kl_held kl)" and ?m = "kl_maintenance kl"
  from c have H: "holds s ?h Exclusive" "holds s ?m Shared" "fd ?h < next_fd s" "fd ?m < next_fd s"
    "ino_at s (lock_path inner ?d) = Some (f_ino ?h)" "kind (inodes s (f_ino ?h)) = Regular" "f_ino ?h < next_ino s"
    "ino_at s (maintenance_path inner) = Some (f_ino ?m)"
    by (simp_all add: custody_def Let_def)
  show "p \<noteq> entry_path inner ?d \<Longrightarrow> ino_at s p = None \<Longrightarrow> custody inner kl found (add_node p m s)" for p m
    by (rule custody_add [OF c])
  show "custody inner kl found (set_node i ((inodes s i)\<lparr>mode := md\<rparr>) s)"
    "custody inner kl found (set_node i ((inodes s i)\<lparr>mtime := t\<rparr>) s)" for i md t
    by (rule custody_content [OF c]; simp)+
  show "f_ino f \<noteq> f_ino ?h \<and> (\<forall>i bytes. found = Some (i, bytes) \<longrightarrow> f_ino f \<noteq> i) \<Longrightarrow>
      custody inner kl found (set_node (f_ino f) m s)" for f m
    by (rule custody_content [OF c]) simp_all
  show "custody inner kl found (remove_name p s)" "custody inner kl found (remove_tree p s)"
    if "\<forall>q \<in> kept_paths inner kl. \<not> under p q" for p
  proof -
    have "q \<noteq> p" if "q \<in> kept_paths inner kl" for q
      using \<open>\<forall>q \<in> kept_paths inner kl. \<not> under p q\<close> that by (auto simp: under_def)
    then show "custody inner kl found (remove_name p s)"
      unfolding remove_name_def by (intro custody_names [OF c]) (simp add: map_of_filter_key)
    show "custody inner kl found (remove_tree p s)"
      unfolding remove_tree_def by (intro custody_names [OF c]) (simp add: map_of_filter_key that)
  qed
  show "custody inner kl found (s\<lparr>dirents := filter (\<lambda>(r, j). r \<noteq> p \<and> r \<noteq> q) (dirents s) @ [(q, i)]\<rparr>)"
    if "\<forall>r \<in> kept_paths inner kl. \<not> under p r" "\<forall>r \<in> kept_paths inner kl. \<not> under q r" for p q i
  proof (rule custody_names [OF c])
    fix r assume "r \<in> kept_paths inner kl"
    with that have "r \<noteq> p" "r \<noteq> q" by (auto simp: under_def)
    then show "map_of (filter (\<lambda>(r, j). r \<noteq> p \<and> r \<noteq> q) (dirents s) @ [(q, i)]) r = map_of (dirents s) r"
      by (simp add: map_add_def map_of_filter_key split: option.split)
  qed
  show "custody inner kl found (s\<lparr>next_fd := Suc (next_fd s)\<rparr>)"
    by (rule custody_cong [OF c]) (use H in \<open>simp_all add: ino_at_def holds_def\<close>)
  show "next_fd s \<noteq> fd ?h \<and> next_fd s \<noteq> fd ?m" using H by simp
  show "f_ino \<lparr>fd = next_fd s, f_ino = next_ino s\<rparr> \<noteq> f_ino ?h
      \<and> (\<forall>i bytes. found = Some (i, bytes) \<longrightarrow> f_ino \<lparr>fd = next_fd s, f_ino = next_ino s\<rparr> \<noteq> i)"
    using c H by (auto simp: custody_def Let_def)
  show "custody inner kl found (grant f l s)" for f l
    unfolding grant_def by (rule custody_locks [OF c]) (use H in \<open>simp_all add: holds_def\<close>)
  show "custody inner kl found (s\<lparr>locks := filter (\<lambda>(d, i, m). d \<noteq> fd f) (locks s)\<rparr>)"
    if "fd f \<noteq> fd ?h \<and> fd f \<noteq> fd ?m" for f
    by (rule custody_locks [OF c]) (use H that in \<open>auto simp: holds_def\<close>)
  show "conflict f Exclusive s'"
    if "fd f \<noteq> fd ?h \<and> fd f \<noteq> fd ?m" "\<not> (p \<noteq> lock_path inner ?d \<and> p \<noteq> maintenance_path inner)"
      "ino_at s p = Some (f_ino f)" "custody inner kl found s'" for f p s'
  proof -
    from that(4) have "(fd ?h, f_ino ?h, Exclusive) \<in> set (locks s')" "(fd ?m, f_ino ?m, Shared) \<in> set (locks s')"
      by (simp_all add: custody_def Let_def holds_def)
    moreover note free = that(1)
    moreover from that(2,3) H have "f_ino f = f_ino ?h \<or> f_ino f = f_ino ?m" by auto
    ultimately obtain d m' where "(d, f_ino f, m') \<in> set (locks s')" "d \<noteq> fd f" by metis
    then show ?thesis by (auto simp: conflict_def)
  qed
  show "\<exists>m. node_at s p = Some m \<and> kind m = Regular" if "p = lock_path inner ?d" for p
    using that H by (simp add: node_at_def)
qed

section \<open>Another process on the same cache\<close>

lemma custody_able:
  assumes r: "root inner' = root inner" and d: "is_digest (digest (kl_key kl))"
  shows "able (\<lambda>p. p \<noteq> entry_path inner (digest (kl_key kl))) (\<lambda>p. \<forall>q \<in> kept_paths inner kl. \<not> under p q)
    (\<lambda>p. p \<noteq> lock_path inner (digest (kl_key kl)) \<and> p \<noteq> maintenance_path inner)
    (\<lambda>p. p = lock_path inner (digest (kl_key kl))) inner'"
proof -
  let ?d = "digest (kl_key kl)"
  have n: "\<not> starts_with ''.'' (entry_name ?d)"
    using d by (cases ?d) (auto simp: is_digest_def starts_with_def entry_name_def is_ascii_hexdigit_def)
  have same: "entries_dir inner' = entries_dir inner" "locks_dir inner' = locks_dir inner"
    "maintenance_path inner' = maintenance_path inner" "prune_lock_path inner' = prune_lock_path inner"
    "lock_path inner' e = lock_path inner e" "entry_path inner' e = entry_path inner e" for e
    by (simp_all add: entries_dir_def locks_dir_def maintenance_path_def prune_lock_path_def lock_path_def entry_path_def r)
  show ?thesis
    unfolding able_def same kept_paths_def
    using n by (auto simp: under_def entries_dir_def locks_dir_def maintenance_path_def prune_lock_path_def
        lock_path_def entry_path_def entry_name_def lock_name_def)
qed

text \<open>C8: While a process holds a key, no operation of another process on the cache, opened with any
  schema and limits, disturbs it, whatever else interferes and whichever calls fail, at any point
  between two system calls: the key stays locked by its holder and its lock file in place, its
  entry's name leads to the same file with the same bytes, nobody else is given the key, and no
  clear completes. That holds for lookups, locked lookups and stores of other keys, locks, prunes
  and clears.\<close>

theorem held_key_undisturbed:
  assumes "is_digest (digest (kl_key kl))" and "friendly (custody inner kl found) w" and "root inner' = root inner"
    and "kl_inner kl' = inner'" and "digest (kl_key kl') \<noteq> digest (kl_key kl)"
    and "h_path (kl_held kl') = lock_path inner' (digest (kl_key kl'))"
    and "{fd (h_file (kl_held kl')), fd (kl_maintenance kl')} \<inter> {fd (h_file (kl_held kl)), fd (kl_maintenance kl)} = {}"
  shows "custody inner kl found (fs (snd (cache_lookup j inner' k w)))
    \<and> custody inner kl found (fs (snd (locked_lookup j kl' w)))
    \<and> custody inner kl found (fs (snd (cache_lock inner' k w)))
    \<and> custody inner kl found (fs (snd (store rnd j kl' v pol w)))
    \<and> custody inner kl found (fs (drop_key_lock kl' w))
    \<and> custody inner kl found (fs (snd (prune j inner' wt w)))
    \<and> custody inner kl found (fs (snd (clear inner' w)))
    \<and> (\<forall>l. fst (cache_lock inner' k w) = Inr l \<longrightarrow> digest k \<noteq> digest (kl_key kl))
    \<and> fst (clear inner' w) \<noteq> Inr ()"
proof -
  let ?good = "custody inner kl found" and ?d = "digest (kl_key kl)"
  note able = custody_able [OF assms(3,1)]
  note paths = able_paths [OF able]
  have same: "lock_path inner' e = lock_path inner e" "maintenance_path inner' = maintenance_path inner" for e
    by (simp_all add: lock_path_def locks_dir_def maintenance_path_def assms(3))
  have other: "lock_path inner' (digest (kl_key kl')) \<noteq> lock_path inner ?d \<and>
      lock_path inner' (digest (kl_key kl')) \<noteq> maintenance_path inner"
    using assms(5) by (auto simp: same lock_path_def lock_name_def locks_dir_def maintenance_path_def assms(3))
  have out: "steady (friendly ?good) m \<Longrightarrow> ?good (fs (snd (m w)))" for m :: "'x cache_io"
    using assms(2) by (auto simp: steady_def friendly_def)
  have "?good (fs (snd (cache_lookup j inner' k w)))"
    unfolding cache_lookup_def by (intro out custody.friendly_cache_read paths(1)) simp
  moreover have "?good (fs (snd (locked_lookup j kl' w)))"
    unfolding locked_lookup_def assms(4) by (intro out custody.friendly_cache_read paths(1,11) other)
  moreover have "?good (fs (snd (cache_lock inner' k w)))"
    by (intro out custody.friendly_cache_lock able)
  moreover have "?good (fs (snd (store rnd j kl' v pol w)))"
    using able other paths(9) [OF other] assms(6,7) unfolding assms(4) [symmetric]
    by (intro out custody.friendly_store) auto
  moreover have "?good (fs (drop_key_lock kl' w))"
    using custody.friendly_drop_key_lock [OF assms(2), of kl'] paths(9) [OF other] assms(6,7) by (auto simp: friendly_def)
  moreover have "?good (fs (snd (prune j inner' wt w)))" by (intro out custody.friendly_prune able)
  moreover have "?good (fs (snd (clear inner' w)))" by (intro out custody.friendly_clear able)
  moreover have "digest k \<noteq> ?d" if "fst (cache_lock inner' k w) = Inr l" for l
    using yieldsD [OF custody.taken_cache_lock [OF able, where k = k] assms(2)] that
    by (cases "cache_lock inner' k w") (auto simp: custody.taken_at_def same)
  moreover have "fst (clear inner' w) \<noteq> Inr ()"
    using yieldsD [OF custody.yields_clear [OF able] assms(2)]
    by (cases "clear inner' w") (auto simp: same)
  ultimately show ?thesis by blast
qed

text \<open>Whoever locks a key has it in custody from then on.\<close>

lemma custody_taken:
  assumes r: "ready inner w" and lk: "locked_key inner k kl (fs w) s"
    and found: "found = map_option (\<lambda>i. (i, data (inodes (fs w) i))) (ino_at (fs w) (entry_path inner (digest k)))"
  shows "custody inner kl found s"
proof -
  let ?q = "entry_path inner (digest k)"
  from r have wf: "wf_os (fs w)" by (simp add: ready_def)
  note after = took_lock_ready [OF r lk]
  have i: "i < next_ino (fs w)" if "ino_at (fs w) ?q = Some i" for i using wf_ino_less [OF wf that] .
  have n: "next_ino (fs w) \<le> next_ino s" using lk by (auto simp: locked_key_def took_def)
  have "maintenance_path inner \<noteq> lock_path inner (digest k)"
    by (simp add: maintenance_path_def lock_path_def locks_dir_def)
  with lk after(4) [of ?q] after(4) [of "maintenance_path inner"] after(5) i n show ?thesis
    unfolding found
    by (cases "ino_at (fs w) ?q")
      (auto simp: custody_def Let_def locked_key_def took_def holds_def dest: less_le_trans)
qed

lemma held_key_undisturbed_witness:
  "\<exists>kl s. cache_lock sample_inner sample_key sample_world = (Inr kl, sample_world\<lparr>fs := s\<rparr>)
    \<and> custody sample_inner kl None (fs (snd (prune sample_serde sample_inner Skip (sample_world\<lparr>fs := s\<rparr>))))
    \<and> fst (clear sample_inner (sample_world\<lparr>fs := s\<rparr>)) \<noteq> Inr ()"
proof -
  from cache_lock_calm [OF sample_ready, of sample_key] sample_unlocked obtain kl s where
    l: "cache_lock sample_inner sample_key sample_world = (Inr kl, sample_world\<lparr>fs := s\<rparr>)"
    and lk: "locked_key sample_inner sample_key kl (fs sample_world) s"
    by (auto simp: sample_world_def)
  have c: "custody sample_inner kl None s"
    by (rule custody_taken [OF sample_ready lk]) (simp add: sample_absent sample_world_def)
  have w: "friendly (custody sample_inner kl None) (sample_world\<lparr>fs := s\<rparr>)"
    using c by (simp add: friendly_def sample_world_def)
  from lk have k: "kl_key kl = sample_key" by (simp add: locked_key_def)
  let ?d = "replicate 64 CHR ''b''" and ?n = "Suc (max (fd (h_file (kl_held kl))) (fd (kl_maintenance kl)))"
  let ?kl = "\<lparr>kl_inner = sample_inner, kl_key = \<lparr>namespace = ''n'', digest = ?d\<rparr>,
     kl_held = \<lparr>h_path = lock_path sample_inner ?d, h_file = \<lparr>fd = ?n, f_ino = 0\<rparr>\<rparr>,
     kl_maintenance = \<lparr>fd = ?n, f_ino = 0\<rparr>\<rparr>"
  have "?d \<noteq> digest sample_key" by (simp add: sample_key_def)
  then have "custody sample_inner kl None (fs (snd (prune sample_serde sample_inner Skip (sample_world\<lparr>fs := s\<rparr>))))
    \<and> fst (clear sample_inner (sample_world\<lparr>fs := s\<rparr>)) \<noteq> Inr ()"
    using held_key_undisturbed [OF _ w refl, where kl' = ?kl and j = sample_serde and wt = Skip] sample_key_digest k
    by auto
  with l show ?thesis by blast
qed

end
