(* ===== verification/Confinement.thy ===== *)
theory Confinement
  imports Frame
begin

text \<open>
  Three uses of the locale \<open>frame\<close>: the names outside the cache's root, the names present
  when an unlocked lookup starts, and the shape of the directory tree. Each says what an
  operation keeps whatever other processes and failures do meanwhile, provided those keep
  it themselves.
\<close>

section \<open>Names outside the root\<close>

definition outside :: "path \<Rightarrow> os \<Rightarrow> (path \<times> nat) list" where
  "outside r s = filter (\<lambda>(p, i). \<not> under r p) (dirents s)"

lemma under_trans: "under r p \<Longrightarrow> under p q \<Longrightarrow> under r q"
  by (metis add_diff_cancel_left' length_take min.absorb_iff2 nat_le_linear take_all take_take under_def)

lemma filter_filter_out: "(\<And>x. x \<in> set xs \<Longrightarrow> P x \<Longrightarrow> Q x) \<Longrightarrow> filter P (filter Q xs) = filter P xs"
  by (auto intro!: filter_cong)

interpretation outside: frame "\<lambda>s. outside r s = N" "under r" "under r" "\<lambda>_. True" "\<lambda>_. True" "\<lambda>_. True"
  "\<lambda>_. False" for r N
proof
  fix s p
  assume g: "outside r s = N" and p: "under r p"
  show "outside r (remove_name p s) = N"
    using g p by (auto simp: outside_def remove_name_def intro!: filter_cong)
  show "outside r (remove_tree p s) = N"
    using g under_trans [OF p]
    by (auto simp: outside_def remove_tree_def intro!: filter_cong)
next
  fix s p i q
  assume g: "outside r s = N" and "under r p" "under r q"
  then have "filter (\<lambda>(p, i). \<not> under r p) (filter (\<lambda>(t, j). t \<noteq> p \<and> t \<noteq> q) (dirents s)) =
      filter (\<lambda>(p, i). \<not> under r p) (dirents s)"
    by (intro filter_filter_out) auto
  with g \<open>under r q\<close>
  show "outside r (s\<lparr>dirents := filter (\<lambda>(t, j). t \<noteq> p \<and> t \<noteq> q) (dirents s) @ [(q, i)]\<rparr>) = N"
    by (simp add: outside_def)
qed (simp_all add: outside_def add_node_def set_node_def grant_def)

lemma owns_under: "owns (under (root inner)) (under (root inner)) inner"
  by (simp add: owns_def)

section \<open>Names that must stay\<close>

definition present :: "(path \<times> nat) set \<Rightarrow> os \<Rightarrow> bool" where
  "present D s \<longleftrightarrow> (\<forall>(p, i) \<in> D. ino_at s p = Some i)"

interpretation present: frame "present D" "\<lambda>_. True" "\<lambda>_. False" "\<lambda>_. True" "\<lambda>_. True" "\<lambda>_. True"
  "\<lambda>_. False" for D
proof
  fix s p m
  assume "present D s"
  then show "present D (add_node p m s)"
    by (auto simp: present_def ino_at_def add_node_def)
qed (auto simp: present_def ino_at_def set_node_def grant_def)

section \<open>The directory tree\<close>

definition tree_ok :: "os \<Rightarrow> bool" where
  "tree_ok s \<longleftrightarrow> distinct (map fst (dirents s)) \<and> distinct (map snd (dirents s))
     \<and> (\<forall>(p, i) \<in> set (dirents s). i < next_ino s)"

lemma tree_ok_filter:
  "tree_ok s \<Longrightarrow> tree_ok (s\<lparr>dirents := filter P (dirents s)\<rparr>)"
  by (auto simp: tree_ok_def distinct_map_filter distinct_map_fst_filter)

interpretation tree: frame tree_ok "\<lambda>_. True" "\<lambda>_. True" "\<lambda>_. True" "\<lambda>_. True" "\<lambda>_. True" "\<lambda>_. False"
proof
  fix s p m
  assume g: "tree_ok s" and "ino_at s p = None"
  then have "p \<notin> fst ` set (dirents s)" by (metis ino_at_def map_of_eq_None_iff)
  moreover from g have "next_ino s \<notin> snd ` set (dirents s)" by (auto simp: tree_ok_def)
  ultimately show "tree_ok (add_node p m s)"
    using g by (fastforce simp: tree_ok_def add_node_def)
next
  fix s p
  assume g: "tree_ok s"
  show "tree_ok (remove_name p s)" using tree_ok_filter [OF g] by (simp add: remove_name_def)
  show "tree_ok (remove_tree p s)" using tree_ok_filter [OF g] by (simp add: remove_tree_def)
next
  fix s p i q
  assume g: "tree_ok s" and p: "ino_at s p = Some i"
  then have i: "(p, i) \<in> set (dirents s)" by (auto simp: ino_at_def dest: map_of_SomeD)
  from g have inj: "inj_on snd (set (dirents s))" by (simp add: tree_ok_def distinct_map)
  have "i \<notin> snd ` set (filter (\<lambda>(r, j). r \<noteq> p \<and> r \<noteq> q) (dirents s))"
  proof
    assume "i \<in> snd ` set (filter (\<lambda>(r, j). r \<noteq> p \<and> r \<noteq> q) (dirents s))"
    then obtain r where "(r, i) \<in> set (dirents s)" "r \<noteq> p" by auto
    with inj i show False by (metis inj_onD prod.inject snd_conv)
  qed
  with g i show "tree_ok (s\<lparr>dirents := filter (\<lambda>(r, j). r \<noteq> p \<and> r \<noteq> q) (dirents s) @ [(q, i)]\<rparr>)"
    by (auto simp: tree_ok_def distinct_map_filter distinct_map_fst_filter)
qed (auto simp: tree_ok_def set_node_def grant_def)

section \<open>What the operations keep\<close>


text \<open>A lookup without the key's lock never removes a file: every name that was there when
  it started, and that nobody else removes, still leads to the same file when it ends.\<close>

theorem unlocked_lookup_removes_nothing:
  assumes "present D (fs w)"
    and "\<forall>(g, e) \<in> set (script w). \<forall>s. present D s \<longrightarrow> present D (g s)"
  shows "present D (fs (snd (cache_lookup j inner k w)))"
proof -
  have "steady (friendly (present D)) (cache_lookup j inner k)"
    unfolding cache_lookup_def by (rule present.friendly_cache_read) simp_all
  with assms show ?thesis by (auto simp: steady_def friendly_def)
qed

text \<open>Opening a cache, and every operation on it, keeps the directory tree well formed: no
  name twice, no two names for one file, every file allocated; for every interference that
  keeps it so, and for every failing call.\<close>

theorem tree_stays_well_formed:
  assumes "friendly tree_ok w"
  shows "tree_ok (fs (snd (with_clock t r sc lims w)))
    \<and> tree_ok (fs (snd (cache_lock inner k w)))
    \<and> tree_ok (fs (snd (store rnd j kl v pol w)))
    \<and> tree_ok (fs (snd (prune j inner wt w)))
    \<and> tree_ok (fs (snd (clear inner w)))"
proof -
  have own: "able (\<lambda>_. True) (\<lambda>_. True) (\<lambda>_. True) (\<lambda>_. False) i" for i by (rule owns_able) (simp add: owns_def)
  have out: "steady (friendly tree_ok) m \<Longrightarrow> tree_ok (fs (snd (m w)))" for m :: "'x cache_io"
    using assms by (auto simp: steady_def friendly_def)
  have "tree_ok (fs (snd (with_clock t r sc lims w)))"
    by (intro out tree.friendly_with_clock) (simp_all add: owns_def)
  moreover have "tree_ok (fs (snd (cache_lock inner k w)))" by (intro out tree.friendly_cache_lock own)
  moreover have "tree_ok (fs (snd (store rnd j kl v pol w)))" by (intro out tree.friendly_store own) simp_all
  moreover have "tree_ok (fs (snd (prune j inner wt w)))" by (intro out tree.friendly_prune own)
  moreover have "tree_ok (fs (snd (clear inner w)))" by (intro out tree.friendly_clear own)
  ultimately show ?thesis by blast
qed

end
