(* ===== verification/Lock_Protocol.thy ===== *)
theory Lock_Protocol
  imports Calm Transitions
begin

text \<open>
  Any number of processes at one key's lock file, one system call at a time: the calls of
  \<open>lock_exclusive\<close>, \<open>try_lock_exclusive\<close> and \<open>Drop for Held\<close> of private.rs, between the
  maintenance lock of \<open>Cache::lock\<close> and \<open>Cache::prune\<close> (shared) and that of \<open>Cache::clear\<close>
  (exclusive). The kernel is the model \<open>os\<close> and its effects; only the lock file is deleted
  and created again, and a process that waited for a deleted file notices by comparing
  inodes.
\<close>

section \<open>Processes\<close>

datatype pc =
    Idle
  | Shared_maintenance handle           \<comment> \<open>holds \<open>maintenance.lock\<close> shared\<close>
  | Opened handle handle                \<comment> \<open>and has the lock file open\<close>
  | Locked handle handle                \<comment> \<open>and has it locked, inode not yet compared\<close>
  | Holding handle handle               \<comment> \<open>the inode was the one at the path\<close>
  | Removed handle handle               \<comment> \<open>dropping: the file is deleted, the lock still held\<close>
  | Clearing handle                     \<comment> \<open>holds \<open>maintenance.lock\<close> exclusively\<close>

record protocol =
  kernel :: os
  pcs :: "nat \<Rightarrow> pc"

definition unlocked :: "handle \<Rightarrow> os \<Rightarrow> os" where
  "unlocked f s = s\<lparr>locks := filter (\<lambda>(d, i, m). d \<noteq> fd f) (locks s)\<rparr>"

definition reopen :: "nat \<Rightarrow> os \<Rightarrow> handle \<times> os" where
  "reopen i s = (\<lparr>fd = next_fd s, f_ino = i\<rparr>, s\<lparr>next_fd := Suc (next_fd s)\<rparr>)"

text \<open>
  \<open>mi\<close> is the inode of \<open>maintenance.lock\<close>, \<open>p\<close> the path of the key's lock file. A step of
  \<open>elsewhere\<close> is any change of the kernel that leaves the lock table and the name \<open>p\<close>.
\<close>

inductive step :: "nat \<Rightarrow> path \<Rightarrow> protocol \<Rightarrow> protocol \<Rightarrow> bool" for mi p where
  share: "pcs st n = Idle \<Longrightarrow> reopen mi (kernel st) = (m, k) \<Longrightarrow> \<not> conflict m Shared k \<Longrightarrow>
    step mi p st (st\<lparr>kernel := grant m Shared k, pcs := (pcs st)(n := Shared_maintenance m)\<rparr>)"
| unshare: "pcs st n = Shared_maintenance m \<Longrightarrow>
    step mi p st (st\<lparr>kernel := unlocked m (kernel st), pcs := (pcs st)(n := Idle)\<rparr>)"
| open_file: "pcs st n = Shared_maintenance m \<Longrightarrow>
    open_os lock_flags u perm p (kernel st) = (Inr f, k) \<Longrightarrow>
    step mi p st (st\<lparr>kernel := k, pcs := (pcs st)(n := Opened m f)\<rparr>)"
| lock_file: "pcs st n = Opened m f \<Longrightarrow> \<not> conflict f Exclusive (kernel st) \<Longrightarrow>
    step mi p st (st\<lparr>kernel := grant f Exclusive (kernel st), pcs := (pcs st)(n := Locked m f)\<rparr>)"
| give_up: "pcs st n = Opened m f \<Longrightarrow>
    step mi p st (st\<lparr>kernel := unlocked f (kernel st), pcs := (pcs st)(n := Shared_maintenance m)\<rparr>)"
| same_inode: "pcs st n = Locked m f \<Longrightarrow> ino_at (kernel st) p = Some (f_ino f) \<Longrightarrow>
    step mi p st (st\<lparr>pcs := (pcs st)(n := Holding m f)\<rparr>)"
| let_go: "pcs st n = Locked m f \<Longrightarrow>
    step mi p st (st\<lparr>kernel := unlocked f (kernel st), pcs := (pcs st)(n := Shared_maintenance m)\<rparr>)"
| delete: "pcs st n = Holding m f \<Longrightarrow> unlink_os p (kernel st) = (r, k) \<Longrightarrow>
    step mi p st (st\<lparr>kernel := k, pcs := (pcs st)(n := Removed m f)\<rparr>)"
| unlock: "pcs st n = Removed m f \<Longrightarrow>
    step mi p st (st\<lparr>kernel := unlocked f (kernel st), pcs := (pcs st)(n := Shared_maintenance m)\<rparr>)"
| not_deleted: "pcs st n = Holding m f \<Longrightarrow>
    step mi p st (st\<lparr>kernel := unlocked f (kernel st), pcs := (pcs st)(n := Shared_maintenance m)\<rparr>)"
| exclude: "pcs st n = Idle \<Longrightarrow> reopen mi (kernel st) = (m, k) \<Longrightarrow> \<not> conflict m Exclusive k \<Longrightarrow>
    step mi p st (st\<lparr>kernel := grant m Exclusive k, pcs := (pcs st)(n := Clearing m)\<rparr>)"
| clear_away: "pcs st n = Clearing m \<Longrightarrow> unlink_os p (kernel st) = (r, k) \<Longrightarrow>
    step mi p st (st\<lparr>kernel := k\<rparr>)"
| cleared: "pcs st n = Clearing m \<Longrightarrow>
    step mi p st (st\<lparr>kernel := unlocked m (kernel st), pcs := (pcs st)(n := Idle)\<rparr>)"
| elsewhere: "ino_at k p = ino_at (kernel st) p \<Longrightarrow> locks k = locks (kernel st) \<Longrightarrow>
    next_fd (kernel st) \<le> next_fd k \<Longrightarrow> next_ino (kernel st) \<le> next_ino k \<Longrightarrow>
    step mi p st (st\<lparr>kernel := k\<rparr>)"

inductive_cases stepE: "step mi p st st'"

section \<open>The invariant\<close>

text \<open>The descriptions a process has open, and the locks it holds.\<close>

fun descriptors :: "pc \<Rightarrow> nat set" where
  "descriptors Idle = {}"
| "descriptors (Shared_maintenance m) = {fd m}"
| "descriptors (Opened m f) = {fd m, fd f}"
| "descriptors (Locked m f) = {fd m, fd f}"
| "descriptors (Holding m f) = {fd m, fd f}"
| "descriptors (Removed m f) = {fd m, fd f}"
| "descriptors (Clearing m) = {fd m}"

fun locks_held :: "nat \<Rightarrow> pc \<Rightarrow> (nat \<times> nat \<times> lock_mode) set" where
  "locks_held mi Idle = {}"
| "locks_held mi (Shared_maintenance m) = {(fd m, mi, Shared)}"
| "locks_held mi (Opened m f) = {(fd m, mi, Shared)}"
| "locks_held mi (Locked m f) = {(fd m, mi, Shared), (fd f, f_ino f, Exclusive)}"
| "locks_held mi (Holding m f) = {(fd m, mi, Shared), (fd f, f_ino f, Exclusive)}"
| "locks_held mi (Removed m f) = {(fd m, mi, Shared), (fd f, f_ino f, Exclusive)}"
| "locks_held mi (Clearing m) = {(fd m, mi, Exclusive)}"

fun own_descriptors_differ :: "pc \<Rightarrow> bool" where
  "own_descriptors_differ (Opened m f) = (fd m \<noteq> fd f)"
| "own_descriptors_differ (Locked m f) = (fd m \<noteq> fd f)"
| "own_descriptors_differ (Holding m f) = (fd m \<noteq> fd f)"
| "own_descriptors_differ (Removed m f) = (fd m \<noteq> fd f)"
| "own_descriptors_differ _ = True"

definition compatible :: "(nat \<times> nat \<times> lock_mode) set \<Rightarrow> bool" where
  "compatible L \<longleftrightarrow> (\<forall>d i m d' m'. (d, i, m) \<in> L \<longrightarrow> (d', i, m') \<in> L \<longrightarrow> d \<noteq> d' \<longrightarrow>
     m = Shared \<and> m' = Shared)"

definition consistent_protocol :: "nat \<Rightarrow> path \<Rightarrow> protocol \<Rightarrow> bool" where
  "consistent_protocol mi p st \<longleftrightarrow>
     compatible (set (locks (kernel st)))
     \<and> (\<forall>(d, i, m) \<in> set (locks (kernel st)). d < next_fd (kernel st))
     \<and> (\<forall>n. locks_held mi (pcs st n) \<subseteq> set (locks (kernel st)))
     \<and> (\<forall>n. \<forall>d \<in> descriptors (pcs st n). d < next_fd (kernel st))
     \<and> (\<forall>n. own_descriptors_differ (pcs st n))
     \<and> (\<forall>n n'. n \<noteq> n' \<longrightarrow> descriptors (pcs st n) \<inter> descriptors (pcs st n') = {})
     \<and> (\<forall>n m f. pcs st n = Holding m f \<longrightarrow> ino_at (kernel st) p = Some (f_ino f))"

lemma consistent_protocolD:
  assumes "consistent_protocol mi p st"
  shows "compatible (set (locks (kernel st)))"
    "(d, i, l) \<in> set (locks (kernel st)) \<Longrightarrow> d < next_fd (kernel st)"
    "x \<in> locks_held mi (pcs st n) \<Longrightarrow> x \<in> set (locks (kernel st))"
    "d \<in> descriptors (pcs st n) \<Longrightarrow> d < next_fd (kernel st)"
    "own_descriptors_differ (pcs st n)"
    "n \<noteq> n' \<Longrightarrow> d \<in> descriptors (pcs st n) \<Longrightarrow> d' \<in> descriptors (pcs st n') \<Longrightarrow> d \<noteq> d'"
    "pcs st n = Holding m f \<Longrightarrow> ino_at (kernel st) p = Some (f_ino f)"
  using assms unfolding consistent_protocol_def by blast+

lemma consistent_protocolI:
  assumes "compatible (set (locks (kernel st)))"
    and "\<And>d i l. (d, i, l) \<in> set (locks (kernel st)) \<Longrightarrow> d < next_fd (kernel st)"
    and "\<And>n x. x \<in> locks_held mi (pcs st n) \<Longrightarrow> x \<in> set (locks (kernel st))"
    and "\<And>n d. d \<in> descriptors (pcs st n) \<Longrightarrow> d < next_fd (kernel st)"
    and "\<And>n. own_descriptors_differ (pcs st n)"
    and "\<And>n n' d. n \<noteq> n' \<Longrightarrow> d \<in> descriptors (pcs st n) \<Longrightarrow> d \<in> descriptors (pcs st n') \<Longrightarrow> False"
    and "\<And>n m f. pcs st n = Holding m f \<Longrightarrow> ino_at (kernel st) p = Some (f_ino f)"
  shows "consistent_protocol mi p st"
  using assms unfolding consistent_protocol_def by blast

lemma compatibleD:
  "compatible L \<Longrightarrow> (d, i, m) \<in> L \<Longrightarrow> (d', i, m') \<in> L \<Longrightarrow> d \<noteq> d' \<Longrightarrow> m = Shared \<and> m' = Shared"
  unfolding compatible_def by blast

lemma holders_equal:
  assumes c: "consistent_protocol mi p st" and h: "pcs st n = Holding m f" "pcs st n' = Holding m' f'"
  shows "n = n'"
proof (rule ccontr)
  assume ne: "n \<noteq> n'"
  note cD = consistent_protocolD [OF c]
  from cD(7) [OF h(1)] cD(7) [OF h(2)] have i: "f_ino f' = f_ino f" by simp
  from cD(6) [OF ne, of "fd f" "fd f'"] h have fds: "fd f \<noteq> fd f'" by simp
  from cD(3) [of "(fd f, f_ino f, Exclusive)" n] h have "(fd f, f_ino f, Exclusive) \<in> set (locks (kernel st))"
    by simp
  moreover from cD(3) [of "(fd f', f_ino f', Exclusive)" n'] h i
  have "(fd f', f_ino f, Exclusive) \<in> set (locks (kernel st))" by simp
  ultimately show False using compatibleD [OF cD(1) _ _ fds] by blast
qed

lemma shared_descriptor: "(d, mi, Shared) \<in> locks_held mi c \<Longrightarrow> d \<in> descriptors c"
  by (cases c) auto

lemma clearing_alone:
  assumes c: "consistent_protocol mi p st" and h: "pcs st n = Clearing m"
    and d: "(d, mi, Shared) \<in> locks_held mi (pcs st n')"
  shows False
proof -
  note cD = consistent_protocolD [OF c]
  from h d have ne: "n \<noteq> n'" by auto
  from cD(6) [OF ne _ shared_descriptor [OF d], of "fd m"] h have fds: "fd m \<noteq> d" by simp
  from cD(3) [of "(fd m, mi, Exclusive)" n] h have "(fd m, mi, Exclusive) \<in> set (locks (kernel st))"
    by simp
  from compatibleD [OF cD(1) this cD(3) [OF d] fds] show False by simp
qed

section \<open>Every step keeps it\<close>

text \<open>
  The three shapes of step: a process opens a description and may lock it, a process closes
  one, and the kernel changes without touching the lock table.
\<close>

lemma unlocked_fields [simp]:
  "ino_at (unlocked f s) q = ino_at s q" "next_fd (unlocked f s) = next_fd s"
  "set (locks (unlocked f s)) = {x \<in> set (locks s). fst x \<noteq> fd f}"
  by (auto simp: unlocked_def)

lemma compatible_subset: "compatible L \<Longrightarrow> K \<subseteq> L \<Longrightarrow> compatible K"
  unfolding compatible_def by blast

lemma consistent_close:
  assumes c: "consistent_protocol mi p st" and f: "fd f \<in> descriptors (pcs st n)"
    and d: "descriptors x \<subseteq> descriptors (pcs st n) - {fd f}" and own: "own_descriptors_differ x"
    and l: "locks_held mi x \<subseteq> locks_held mi (pcs st n)" and h: "\<And>m f. x \<noteq> Holding m f"
  shows "consistent_protocol mi p (st\<lparr>kernel := unlocked f (kernel st), pcs := (pcs st)(n := x)\<rparr>)"
proof -
  note cD = consistent_protocolD [OF c]
  have fst_held: "fst y \<in> descriptors z" if "y \<in> locks_held mi z" for y z
    using that by (cases z) auto
  let ?st = "st\<lparr>kernel := unlocked f (kernel st), pcs := (pcs st)(n := x)\<rparr>"
  have sub: "descriptors (pcs ?st a) \<subseteq> descriptors (pcs st a)" for a
    using assms(3) by auto
  show ?thesis
  proof (rule consistent_protocolI)
    show "compatible (set (locks (kernel ?st)))"
      by (rule compatible_subset [OF cD(1)]) auto
    show "(d, i, m) \<in> set (locks (kernel ?st)) \<Longrightarrow> d < next_fd (kernel ?st)" for d i m
      using cD(2) [of d i m] by simp
    show "y \<in> set (locks (kernel ?st))" if y: "y \<in> locks_held mi (pcs ?st a)" for a y
    proof (cases "a = n")
      case True
      with y l cD(3) [of y n] fst_held [of y x] assms(3) show ?thesis by auto
    next
      case False
      with y cD(3) [of y a] cD(6) [OF False fst_held [of y] f] show ?thesis by auto
    qed
    show "d \<in> descriptors (pcs ?st a) \<Longrightarrow> d < next_fd (kernel ?st)" for a d
      using sub [of a] cD(4) [of d a] by auto
    show "own_descriptors_differ (pcs ?st a)" for a
      using own cD(5) by simp
    show False if "a \<noteq> b" and "d \<in> descriptors (pcs ?st a)" and "d \<in> descriptors (pcs ?st b)" for a b d
      using cD(6) [OF that(1), of d d] sub [of a] sub [of b] that(2,3) by blast
    show "ino_at (kernel ?st) p = Some (f_ino g)" if "pcs ?st a = Holding m g" for a m g
      using that h cD(7) [of a m g] by (cases "a = n") auto
  qed
qed

lemma consistent_kernel:
  assumes c: "consistent_protocol mi p st" and "locks k = locks (kernel st)"
    and "next_fd (kernel st) \<le> next_fd k"
    and "\<And>n m f. pcs st n = Holding m f \<Longrightarrow> ino_at k p = ino_at (kernel st) p"
  shows "consistent_protocol mi p (st\<lparr>kernel := k\<rparr>)"
proof (rule consistent_protocolI)
  note cD = consistent_protocolD [OF c]
  let ?st = "st\<lparr>kernel := k\<rparr>"
  show "compatible (set (locks (kernel ?st)))" using cD(1) assms(2) by simp
  show "(d, i, m) \<in> set (locks (kernel ?st)) \<Longrightarrow> d < next_fd (kernel ?st)" for d i m
    using cD(2) [of d i m] assms(2,3) by simp
  show "y \<in> locks_held mi (pcs ?st a) \<Longrightarrow> y \<in> set (locks (kernel ?st))" for a y
    using cD(3) assms(2) by simp
  show "d \<in> descriptors (pcs ?st a) \<Longrightarrow> d < next_fd (kernel ?st)" for a d
    using cD(4) [of d a] assms(3) by simp
  show "own_descriptors_differ (pcs ?st a)" for a using cD(5) by simp
  show "a \<noteq> b \<Longrightarrow> d \<in> descriptors (pcs ?st a) \<Longrightarrow> d \<in> descriptors (pcs ?st b) \<Longrightarrow> False" for a b d
    using cD(6) by fastforce
  show "pcs ?st a = Holding m g \<Longrightarrow> ino_at (kernel ?st) p = Some (f_ino g)" for a m g
    using cD(7) [of a m g] assms(4) [of a m g] by simp
qed

text \<open>A process moves on, opening no description and taking no lock.\<close>

lemma consistent_pc:
  assumes c: "consistent_protocol mi p st" and d: "descriptors x = descriptors (pcs st n)"
    and l: "locks_held mi x = locks_held mi (pcs st n)" and own: "own_descriptors_differ x"
    and h: "\<And>m f. x = Holding m f \<Longrightarrow> ino_at (kernel st) p = Some (f_ino f)"
  shows "consistent_protocol mi p (st\<lparr>pcs := (pcs st)(n := x)\<rparr>)"
proof (rule consistent_protocolI)
  note cD = consistent_protocolD [OF c]
  let ?st = "st\<lparr>pcs := (pcs st)(n := x)\<rparr>"
  have dd: "descriptors (pcs ?st a) = descriptors (pcs st a)"
    and ll: "locks_held mi (pcs ?st a) = locks_held mi (pcs st a)" for a
    using d l by simp_all
  show "compatible (set (locks (kernel ?st)))" using cD(1) by simp
  show "(d, i, m) \<in> set (locks (kernel ?st)) \<Longrightarrow> d < next_fd (kernel ?st)" for d i m
    using cD(2) [of d i m] by simp
  show "y \<in> locks_held mi (pcs ?st a) \<Longrightarrow> y \<in> set (locks (kernel ?st))" for a y
    using cD(3) [of y a] ll [of a] by simp
  show "d \<in> descriptors (pcs ?st a) \<Longrightarrow> d < next_fd (kernel ?st)" for a d
    using cD(4) [of d a] dd [of a] by simp
  show "own_descriptors_differ (pcs ?st a)" for a using cD(5) own by simp
  show "a \<noteq> b \<Longrightarrow> d \<in> descriptors (pcs ?st a) \<Longrightarrow> d \<in> descriptors (pcs ?st b) \<Longrightarrow> False" for a b d
    using cD(6) unfolding dd by fastforce
  show "pcs ?st a = Holding m g \<Longrightarrow> ino_at (kernel ?st) p = Some (f_ino g)" for a m g
    using cD(7) [of a m g] h [of m g] by (auto split: if_splits)
qed

text \<open>A process locks a description of its own, open already or opened just now.\<close>

lemma consistent_grant:
  assumes c: "consistent_protocol mi p st"
    and free: "\<not> conflict f l k" and k: "locks k = locks (kernel st)" "next_fd (kernel st) \<le> next_fd k"
      "ino_at k p = ino_at (kernel st) p"
    and f: "fd f < next_fd k" "fd f \<in> descriptors (pcs st n) \<or> next_fd (kernel st) \<le> fd f"
    and d: "descriptors x = insert (fd f) (descriptors (pcs st n))"
    and ls: "locks_held mi x = insert (fd f, f_ino f, l) (locks_held mi (pcs st n))"
    and own: "own_descriptors_differ x" and h: "\<And>m f. x \<noteq> Holding m f"
  shows "consistent_protocol mi p (st\<lparr>kernel := grant f l k, pcs := (pcs st)(n := x)\<rparr>)"
proof (rule consistent_protocolI)
  note cD = consistent_protocolD [OF c]
  let ?st = "st\<lparr>kernel := grant f l k, pcs := (pcs st)(n := x)\<rparr>"
  have lk: "set (locks (kernel ?st)) = insert (fd f, f_ino f, l) (set (locks (kernel st)))"
    using k by (simp add: grant_def)
  have nf: "next_fd (kernel ?st) = next_fd k" by (simp add: grant_def)
  show "compatible (set (locks (kernel ?st)))"
  proof -
    have "l = Shared \<and> m = Shared" if "(e, f_ino f, m) \<in> set (locks (kernel st))" and "e \<noteq> fd f" for e m
      using free that k by (cases l; cases m) (fastforce simp: conflict_def)+
    then show ?thesis
      using cD(1) unfolding lk compatible_def by (metis insert_iff prod.inject)
  qed
  show "(e, i, m) \<in> set (locks (kernel ?st)) \<Longrightarrow> e < next_fd (kernel ?st)" for e i m
    using cD(2) [of e i m] f(1) k(2) unfolding lk nf by auto
  show "y \<in> locks_held mi (pcs ?st a) \<Longrightarrow> y \<in> set (locks (kernel ?st))" for a y
    using cD(3) [of y a] cD(3) [of y n] ls unfolding lk by (auto split: if_splits)
  show "e \<in> descriptors (pcs ?st a) \<Longrightarrow> e < next_fd (kernel ?st)" for a e
    using cD(4) [of e a] cD(4) [of e n] d f(1) k(2) unfolding nf by (auto split: if_splits)
  show "own_descriptors_differ (pcs ?st a)" for a using cD(5) own by simp
  have fd: "fd f \<notin> descriptors (pcs st a)" if "a \<noteq> n" for a
    using f(2) cD(4) [of "fd f" a] cD(6) [OF that, of "fd f" "fd f"] by auto
  show False if "a \<noteq> b" and "e \<in> descriptors (pcs ?st a)" and "e \<in> descriptors (pcs ?st b)" for a b e
    using that d fd cD(6) [OF that(1), of e e] by (auto split: if_splits)
  show "pcs ?st a = Holding m g \<Longrightarrow> ino_at (kernel ?st) p = Some (f_ino g)" for a m g
    using cD(7) [of a m g] h k(3) by (auto split: if_splits)
qed

lemma open_fresh:
  assumes "open_os lock_flags u perm p s = (Inr f, k)"
  shows "fd f = next_fd s" "next_fd k = Suc (next_fd s)" "locks k = locks s"
    "ino_at s p = Some i \<Longrightarrow> ino_at k p = Some i"
  using assms
  by (auto simp: open_os_def lock_flags_def Let_def ino_at_add_node
      split: option.splits if_splits ftype.splits)

text \<open>Opening one more description, not locked.\<close>

lemma consistent_open:
  assumes c: "consistent_protocol mi p st" and n: "pcs st n = Shared_maintenance m"
    and o: "open_os lock_flags u perm p (kernel st) = (Inr f, k)"
  shows "consistent_protocol mi p (st\<lparr>kernel := k, pcs := (pcs st)(n := Opened m f)\<rparr>)"
proof (rule consistent_protocolI)
  note cD = consistent_protocolD [OF c] and op = open_fresh [OF o]
  let ?st = "st\<lparr>kernel := k, pcs := (pcs st)(n := Opened m f)\<rparr>"
  show "compatible (set (locks (kernel ?st)))" using cD(1) op by simp
  show "(d, i, l) \<in> set (locks (kernel ?st)) \<Longrightarrow> d < next_fd (kernel ?st)" for d i l
    using cD(2) [of d i l] op by simp
  show "y \<in> locks_held mi (pcs ?st a) \<Longrightarrow> y \<in> set (locks (kernel ?st))" for a y
    using cD(3) [of y a] op n by (auto split: if_splits)
  show "d \<in> descriptors (pcs ?st a) \<Longrightarrow> d < next_fd (kernel ?st)" for a d
    using cD(4) [of d a] op n by (auto split: if_splits)
  show "own_descriptors_differ (pcs ?st a)" for a
    using cD(5) cD(4) [of "fd m" n] op n by auto
  show False if "a \<noteq> b" and "d \<in> descriptors (pcs ?st a)" and "d \<in> descriptors (pcs ?st b)" for a b d
    using that cD(6) [OF that(1), of d d] cD(4) [of d a] cD(4) [of d b] op n
    by (auto split: if_splits)
  show "pcs ?st a = Holding h g \<Longrightarrow> ino_at (kernel ?st) p = Some (f_ino g)" for a h g
    using cD(7) [of a h g] op(4) by (auto split: if_splits)
qed

lemma unlink_kernel:
  assumes "unlink_os p s = (r, k)"
  shows "locks k = locks s" "next_fd k = next_fd s" "next_ino k = next_ino s"
  using assms by (auto simp: unlink_os_def split: option.splits if_splits)

lemma consistent_step: "consistent_protocol mi p st \<Longrightarrow> step mi p st st' \<Longrightarrow> consistent_protocol mi p st'"
proof (erule stepE)
  note I = consistent_protocolD
  fix n m k
  assume c: "consistent_protocol mi p st" and n: "pcs st n = Idle"
    and re: "reopen mi (kernel st) = (m, k)"
  {
    assume "\<not> conflict m Shared k" and st: "st' = st\<lparr>kernel := grant m Shared k, pcs := (pcs st)(n := Shared_maintenance m)\<rparr>"
    then show "consistent_protocol mi p st'"
      unfolding st using c n re by (intro consistent_grant) (auto simp: reopen_def)
  }
  {
    assume "\<not> conflict m Exclusive k" and st: "st' = st\<lparr>kernel := grant m Exclusive k, pcs := (pcs st)(n := Clearing m)\<rparr>"
    then show "consistent_protocol mi p st'"
      unfolding st using c n re by (intro consistent_grant) (auto simp: reopen_def)
  }
next
  fix n m
  assume c: "consistent_protocol mi p st" and n: "pcs st n = Shared_maintenance m"
  {
    assume st: "st' = st\<lparr>kernel := unlocked m (kernel st), pcs := (pcs st)(n := Idle)\<rparr>"
    show "consistent_protocol mi p st'"
      unfolding st using c n by (intro consistent_close) auto
  }
  {
    fix u perm f k
    assume "open_os lock_flags u perm p (kernel st) = (Inr f, k)"
      and st: "st' = st\<lparr>kernel := k, pcs := (pcs st)(n := Opened m f)\<rparr>"
    then show "consistent_protocol mi p st'" unfolding st using c n by (intro consistent_open)
  }
next
  fix n m f
  assume c: "consistent_protocol mi p st" and n: "pcs st n = Opened m f"
  have df: "fd m \<noteq> fd f" using consistent_protocolD(5) [OF c, of n] n by simp
  {
    assume "\<not> conflict f Exclusive (kernel st)"
      and st: "st' = st\<lparr>kernel := grant f Exclusive (kernel st), pcs := (pcs st)(n := Locked m f)\<rparr>"
    then show "consistent_protocol mi p st'"
      unfolding st using c n df consistent_protocolD(4) [OF c, of "fd f" n]
      by (intro consistent_grant) auto
  }
  {
    assume st: "st' = st\<lparr>kernel := unlocked f (kernel st), pcs := (pcs st)(n := Shared_maintenance m)\<rparr>"
    show "consistent_protocol mi p st'"
      unfolding st using c n df by (intro consistent_close) auto
  }
next
  fix n m f
  assume c: "consistent_protocol mi p st" and n: "pcs st n = Locked m f"
  have df: "fd m \<noteq> fd f" using consistent_protocolD(5) [OF c, of n] n by simp
  {
    assume i: "ino_at (kernel st) p = Some (f_ino f)"
      and st: "st' = st\<lparr>pcs := (pcs st)(n := Holding m f)\<rparr>"
    show "consistent_protocol mi p st'"
      unfolding st using c n df i by (intro consistent_pc) auto
  }
  {
    assume st: "st' = st\<lparr>kernel := unlocked f (kernel st), pcs := (pcs st)(n := Shared_maintenance m)\<rparr>"
    show "consistent_protocol mi p st'"
      unfolding st using c n df by (intro consistent_close) auto
  }
next
  fix n m f r k
  assume c: "consistent_protocol mi p st" and n: "pcs st n = Holding m f"
    and u: "unlink_os p (kernel st) = (r, k)"
    and st: "st' = st\<lparr>kernel := k, pcs := (pcs st)(n := Removed m f)\<rparr>"
  have df: "fd m \<noteq> fd f" using consistent_protocolD(5) [OF c, of n] n by simp
  let ?mid = "st\<lparr>pcs := (pcs st)(n := Removed m f)\<rparr>"
  have mid: "consistent_protocol mi p ?mid" using c n df by (intro consistent_pc) auto
  have "consistent_protocol mi p (?mid\<lparr>kernel := k\<rparr>)"
  proof (rule consistent_kernel [OF mid])
    fix n' m' f'
    assume "pcs ?mid n' = Holding m' f'"
    then have "pcs st n' = Holding m' f'" and "n' \<noteq> n" by (auto split: if_splits)
    with holders_equal [OF c _ n] show "ino_at k p = ino_at (kernel ?mid) p" by blast
  qed (use unlink_kernel [OF u] in simp_all)
  moreover have "?mid\<lparr>kernel := k\<rparr> = st'" by (cases st) (simp add: st)
  ultimately show "consistent_protocol mi p st'" by (simp only:)
next
  fix n m f
  assume c: "consistent_protocol mi p st" and n: "pcs st n = Holding m f"
    and st: "st' = st\<lparr>kernel := unlocked f (kernel st), pcs := (pcs st)(n := Shared_maintenance m)\<rparr>"
  have df: "fd m \<noteq> fd f" using consistent_protocolD(5) [OF c, of n] n by simp
  show "consistent_protocol mi p st'"
    unfolding st using c n df by (intro consistent_close) auto
next
  fix n m f
  assume c: "consistent_protocol mi p st" and n: "pcs st n = Removed m f"
    and st: "st' = st\<lparr>kernel := unlocked f (kernel st), pcs := (pcs st)(n := Shared_maintenance m)\<rparr>"
  have df: "fd m \<noteq> fd f" using consistent_protocolD(5) [OF c, of n] n by simp
  show "consistent_protocol mi p st'"
    unfolding st using c n df by (intro consistent_close) auto
next
  fix n m
  assume c: "consistent_protocol mi p st" and n: "pcs st n = Clearing m"
  {
    fix r k
    assume u: "unlink_os p (kernel st) = (r, k)" and st: "st' = st\<lparr>kernel := k\<rparr>"
    show "consistent_protocol mi p st'"
      unfolding st
    proof (rule consistent_kernel [OF c])
      fix n' m' f'
      assume h: "pcs st n' = Holding m' f'"
      have "(fd m', mi, Shared) \<in> locks_held mi (pcs st n')" using h by simp
      from clearing_alone [OF c n this] show "ino_at k p = ino_at (kernel st) p" ..
    qed (use unlink_kernel [OF u] in simp_all)
  }
  {
    assume st: "st' = st\<lparr>kernel := unlocked m (kernel st), pcs := (pcs st)(n := Idle)\<rparr>"
    show "consistent_protocol mi p st'"
      unfolding st using c n by (intro consistent_close) auto
  }
next
  fix k
  assume c: "consistent_protocol mi p st" and "ino_at k p = ino_at (kernel st) p"
    "locks k = locks (kernel st)" "next_fd (kernel st) \<le> next_fd k" "st' = st\<lparr>kernel := k\<rparr>"
  then show "consistent_protocol mi p st'" by (auto intro!: consistent_kernel)
qed

text \<open>Any state of the kernel to start from, with nobody at this key.\<close>

definition initial :: "protocol \<Rightarrow> bool" where
  "initial st \<longleftrightarrow> (\<forall>n. pcs st n = Idle) \<and> compatible (set (locks (kernel st)))
     \<and> (\<forall>(d, i, m) \<in> set (locks (kernel st)). d < next_fd (kernel st))"

lemma consistent_initial: "initial st \<Longrightarrow> consistent_protocol mi p st"
  by (auto simp: initial_def consistent_protocol_def)

interpretation key_protocol: guarded initial "step mi p" "consistent_protocol mi p" for mi p
  by unfold_locales (rule consistent_initial, assumption, rule consistent_step)

text \<open>What holding means, in every state the protocol can reach\<close>

lemma holding_excludes:
  assumes "initial st0" and "reachable (step mi p) st0 st" and "pcs st n = Holding m f"
  shows "(\<forall>n' m' f'. pcs st n' = Holding m' f' \<longrightarrow> n' = n)
    \<and> ino_at (kernel st) p = Some (f_ino f)
    \<and> (fd f, f_ino f, Exclusive) \<in> set (locks (kernel st))
    \<and> (\<forall>n' m'. pcs st n' \<noteq> Clearing m')"
proof -
  have c: "consistent_protocol mi p st" using assms(2,1) by (rule key_protocol.reachable_good)
  have "\<forall>n' m' f'. pcs st n' = Holding m' f' \<longrightarrow> n' = n" using holders_equal [OF c _ assms(3)] by blast
  moreover have "ino_at (kernel st) p = Some (f_ino f)" using consistent_protocolD(7) [OF c assms(3)] .
  moreover have "(fd f, f_ino f, Exclusive) \<in> set (locks (kernel st))"
    using consistent_protocolD(3) [OF c, of _ n] assms(3) by simp
  moreover have "(fd m, mi, Shared) \<in> locks_held mi (pcs st n)" using assms(3) by simp
  ultimately show ?thesis using clearing_alone [OF c] by blast
qed

end
