(* ===== verification/Lock_Code.thy ===== *)
theory Lock_Code
  imports Lock_Protocol Triples
begin

text \<open>
  The locking code of \<open>Private\<close> is the protocol of \<open>Lock_Protocol\<close>: each system call of
  \<open>lock_exclusive\<close>, \<open>try_lock_exclusive\<close> and \<open>drop_held\<close> is a step of one process, and what
  the script does in between may be any steps of the others. So what the protocol shows of
  a process that holds the key holds of the code's return value.
\<close>

text \<open>A change of the kernel the other processes can make by their own steps\<close>

definition others :: "nat \<Rightarrow> path \<Rightarrow> nat \<Rightarrow> (os \<Rightarrow> os) \<Rightarrow> bool" where
  "others mi p n g \<longleftrightarrow> (\<forall>k cs. \<exists>cs'. reachable (step mi p) \<lparr>kernel = k, pcs = cs\<rparr> \<lparr>kernel = g k, pcs = cs'\<rparr>
     \<and> cs' n = cs n)"

text \<open>Process \<open>n\<close> can be at \<open>c\<close> with the kernel of \<open>w\<close>, and only the others interfere.\<close>

definition proc_at :: "nat \<Rightarrow> path \<Rightarrow> nat \<Rightarrow> protocol \<Rightarrow> pc \<Rightarrow> world \<Rightarrow> bool" where
  "proc_at mi p n st0 c w \<longleftrightarrow>
     (\<exists>cs. reachable (step mi p) st0 \<lparr>kernel = fs w, pcs = cs\<rparr> \<and> cs n = c)
     \<and> (\<forall>(g, e) \<in> set (script w). others mi p n g)"

lemma proc_at_step:
  assumes "proc_at mi p n st0 c w" and "script w' = script w"
    and "\<And>cs. cs n = c \<Longrightarrow> step mi p \<lparr>kernel = fs w, pcs = cs\<rparr> \<lparr>kernel = fs w', pcs = cs(n := c')\<rparr>"
  shows "proc_at mi p n st0 c' w'"
proof -
  obtain cs where r: "reachable (step mi p) st0 \<lparr>kernel = fs w, pcs = cs\<rparr>" and n: "cs n = c"
    using assms(1) by (auto simp: proc_at_def)
  have "reachable (step mi p) st0 \<lparr>kernel = fs w', pcs = cs(n := c')\<rparr>"
    by (rule further [OF r], rule assms(3), rule n)
  moreover have "\<forall>(g, e) \<in> set (script w'). others mi p n g"
    using assms(1,2) by (simp add: proc_at_def)
  ultimately show ?thesis unfolding proc_at_def by (intro conjI exI [of _ "cs(n := c')"]) simp_all
qed

text \<open>The others move\<close>

lemma proc_at_move:
  assumes "proc_at mi p n st0 c w" and "script w = (g, e) # rest"
  shows "proc_at mi p n st0 c (w\<lparr>fs := g (fs w), script := rest\<rparr>)"
proof -
  obtain cs where r: "reachable (step mi p) st0 \<lparr>kernel = fs w, pcs = cs\<rparr>" and n: "cs n = c"
    using assms(1) by (auto simp: proc_at_def)
  have "others mi p n g" using assms by (auto simp: proc_at_def)
  then obtain cs' where "reachable (step mi p) \<lparr>kernel = fs w, pcs = cs\<rparr> \<lparr>kernel = g (fs w), pcs = cs'\<rparr>" and "cs' n = cs n"
    unfolding others_def by blast
  then have "reachable (step mi p) st0 \<lparr>kernel = g (fs w), pcs = cs'\<rparr> \<and> cs' n = c"
    using reachable_trans [OF _ r] n by simp
  then show ?thesis using assms by (auto simp: proc_at_def)
qed

text \<open>A system call: the others move, then it fails for an outside reason or has its effect.\<close>

lemma triple_sys_steps:
  assumes good: "\<And>w x k. proc_at mi p n st0 c w \<Longrightarrow> f (fs w) = (Inr x, k) \<Longrightarrow> Q x (w\<lparr>fs := k\<rparr>)"
    and bad: "\<And>w e k. proc_at mi p n st0 c w \<Longrightarrow> f (fs w) = (Inl e, k) \<Longrightarrow> E (w\<lparr>fs := k\<rparr>)"
    and fails: "\<And>w. proc_at mi p n st0 c w \<Longrightarrow> E w"
  shows "triple (proc_at mi p n st0 c) (sys f) Q E"
  unfolding triple_def
proof (intro allI impI)
  fix w
  assume w: "proc_at mi p n st0 c w"
  show "case sys f w of (Inr x, w') \<Rightarrow> Q x w' | (Inl e, w') \<Rightarrow> E w'"
  proof (cases "script w")
    case Nil
    then show ?thesis using good [OF w] bad [OF w] by (auto simp: sys_def split: prod.splits sum.splits)
  next
    case (Cons mv rest)
    obtain g e where mv: "mv = (g, e)" by (cases mv)
    let ?w = "w\<lparr>fs := g (fs w), script := rest\<rparr>"
    have w': "proc_at mi p n st0 c ?w" by (rule proc_at_move [OF w]) (simp add: Cons mv)
    show ?thesis
    proof (cases e)
      case None
      have "sys f w = (case f (fs ?w) of (r, s) \<Rightarrow> (r, ?w\<lparr>fs := s\<rparr>))" 
        by (cases w) (use Cons mv None in \<open>simp add: sys_def\<close>)
      then show ?thesis using good [OF w'] bad [OF w'] by (auto split: prod.splits sum.splits)
    next
      case (Some err)
      then show ?thesis using fails [OF w'] by (simp add: sys_def Cons mv)
    qed
  qed
qed

lemma proc_at_elsewhere:
  assumes "proc_at mi p n st0 c w" and "ino_at k p = ino_at (fs w) p" and "locks k = locks (fs w)"
    and "next_fd (fs w) \<le> next_fd k" and "next_ino (fs w) \<le> next_ino k"
  shows "proc_at mi p n st0 c (w\<lparr>fs := k\<rparr>)"
proof (rule proc_at_step [OF assms(1)])
  fix cs assume n: "cs n = c"
  have "step mi p \<lparr>kernel = fs w, pcs = cs\<rparr> (\<lparr>kernel = fs w, pcs = cs\<rparr>\<lparr>kernel := k\<rparr>)"
    by (rule step.elsewhere) (simp_all add: assms)
  with n show "step mi p \<lparr>kernel = fs w, pcs = cs\<rparr> \<lparr>kernel = fs (w\<lparr>fs := k\<rparr>), pcs = cs(n := c)\<rparr>"
    by (simp add: fun_upd_idem)
qed simp

lemma proc_at_drop:
  assumes "proc_at mi p n st0 c w"
    and "c = Opened m f \<or> c = Locked m f \<or> c = Holding m f \<or> c = Removed m f"
  shows "proc_at mi p n st0 (Shared_maintenance m) (drop_file f w)"
proof (rule proc_at_step [OF assms(1)])
  fix cs assume n: "cs n = c"
  let ?st = "\<lparr>kernel = fs w, pcs = cs\<rparr>"
  have "step mi p ?st (?st\<lparr>kernel := unlocked f (kernel ?st), pcs := (pcs ?st)(n := Shared_maintenance m)\<rparr>)"
    using assms(2) n step.give_up [where st = ?st and n = n and m = m and f = f]
      step.let_go [where st = ?st and n = n and m = m and f = f]
      step.not_deleted [where st = ?st and n = n and m = m and f = f]
      step.unlock [where st = ?st and n = n and m = m and f = f] by auto
  then show "step mi p ?st \<lparr>kernel = fs (drop_file f w), pcs = cs(n := Shared_maintenance m)\<rparr>"
    by (simp add: unlocked_def drop_file_def)
qed (simp add: drop_file_def)

section \<open>The calls of the locking code\<close>

text \<open>
  \<open>triple_steps\<close> collects, for each call, where the process is before and after it. On an
  error it holds no lock on the key's file.
\<close>

named_theorems triple_steps \<open>where a call takes the process\<close>

definition no_lock :: "nat \<Rightarrow> path \<Rightarrow> nat \<Rightarrow> protocol \<Rightarrow> handle \<Rightarrow> world \<Rightarrow> bool" where
  "no_lock mi p n st0 m w \<longleftrightarrow> proc_at mi p n st0 (Shared_maintenance m) w
     \<or> (\<exists>f. proc_at mi p n st0 (Opened m f) w)"

lemma open_fails_same: "open_os fl u perm q s = (Inl e, k) \<Longrightarrow> k = s"
  by (auto simp: open_os_def Let_def split: option.splits sum.splits if_splits ftype.splits)

lemma open_steps [triple_steps]:
  "triple (proc_at mi p n st0 (Shared_maintenance m)) (open_with lock_flags perm p)
     (\<lambda>f. proc_at mi p n st0 (Opened m f)) (proc_at mi p n st0 (Shared_maintenance m))"
proof -
  have "triple (proc_at mi p n st0 (Shared_maintenance m))
     (sys (open_os lock_flags u q p)) (\<lambda>f. proc_at mi p n st0 (Opened m f)) (proc_at mi p n st0 (Shared_maintenance m))"
    for u q
  proof (rule triple_sys_steps)
    fix w f k
    assume at: "proc_at mi p n st0 (Shared_maintenance m) w" and o: "open_os lock_flags u q p (fs w) = (Inr f, k)"
    show "proc_at mi p n st0 (Opened m f) (w\<lparr>fs := k\<rparr>)"
    proof (rule proc_at_step [OF at])
      fix cs assume "cs n = Shared_maintenance m"
      then show "step mi p \<lparr>kernel = fs w, pcs = cs\<rparr> \<lparr>kernel = fs (w\<lparr>fs := k\<rparr>), pcs = cs(n := Opened m f)\<rparr>"
        using step.open_file [where st = "\<lparr>kernel = fs w, pcs = cs\<rparr>" and n = n and m = m and f = f, OF _ _] o by simp
    qed simp
  next
    fix w e k
    assume "proc_at mi p n st0 (Shared_maintenance m) w" and "open_os lock_flags u q p (fs w) = (Inl e, k)"
    then show "proc_at mi p n st0 (Shared_maintenance m) (w\<lparr>fs := k\<rparr>)"
      using open_fails_same by (cases w) fastforce
  qed
  then show ?thesis by (simp add: triple_def open_with_def)
qed

lemma quiet_steps:
  assumes "\<And>s r k. f s = (r, k) \<Longrightarrow> ino_at k p = ino_at s p \<and> locks k = locks s
    \<and> next_fd s \<le> next_fd k \<and> next_ino s \<le> next_ino k"
  shows "triple (proc_at mi p n st0 c) (sys f) (\<lambda>_. proc_at mi p n st0 c) (proc_at mi p n st0 c)"
  by (rule triple_sys_steps) (use assms in \<open>blast intro: proc_at_elsewhere\<close>)+

lemma metadata_steps [triple_steps]:
  "triple (proc_at mi p n st0 c) (file_metadata f)
     (\<lambda>x w. proc_at mi p n st0 c w \<and> m_ino x = f_ino f) (proc_at mi p n st0 c)"
proof -
  have "triple (proc_at mi p n st0 c) (sys (fstat_os f))
      (\<lambda>x w. proc_at mi p n st0 c w \<and> m_ino x = f_ino f) (proc_at mi p n st0 c)"
    by (rule triple_sys_steps) (auto simp: fstat_os_def)
  then show ?thesis by (simp add: file_metadata_def)
qed

lemma fchmod_steps [triple_steps]:
  "triple (proc_at mi p n st0 c) (fchmod f k) (\<lambda>_. proc_at mi p n st0 c) (proc_at mi p n st0 c)"
  unfolding fchmod_def
  by (rule quiet_steps) (auto simp: fchmod_os_def set_node_def ino_at_def)

lemma stat_steps [triple_steps]:
  "triple (proc_at mi p n st0 c) (symlink_metadata p)
     (\<lambda>x w. proc_at mi p n st0 c w \<and> ino_at (fs w) p = Some (m_ino x)) (proc_at mi p n st0 c)"
  unfolding symlink_metadata_def
  by (rule triple_sys_steps) (auto simp: stat_os_def split: option.splits)

lemma secure_lock_steps:
  "triple (proc_at mi p n st0 (Opened m f)) (on_error (secure_lock f) (drop_file f))
     (\<lambda>g w. proc_at mi p n st0 (Opened m g) w \<and> g = f) (no_lock mi p n st0 m)"
proof (rule triple_on_error)
  show "triple (proc_at mi p n st0 (Opened m f)) (secure_lock f)
     (\<lambda>g w. proc_at mi p n st0 (Opened m g) w \<and> g = f) (proc_at mi p n st0 (Opened m f))"
    unfolding secure_lock_def
  proof (rule triple_andThen)
    show "triple (proc_at mi p n st0 (Opened m f)) (io (file_metadata f)) (\<lambda>_. proc_at mi p n st0 (Opened m f))
       (proc_at mi p n st0 (Opened m f))"
      by (rule triple_io, rule triple_post [OF metadata_steps]) simp
    fix x
    have chmod: "triple (proc_at mi p n st0 (Opened m f)) (andThen (io (fchmod f mode_file)) (\<lambda>_. ok f))
       (\<lambda>g w. proc_at mi p n st0 (Opened m g) w \<and> g = f) (proc_at mi p n st0 (Opened m f))"
      by (rule triple_andThen [OF triple_io [OF fchmod_steps]], rule triple_ok) simp
    show "triple (proc_at mi p n st0 (Opened m f)) (\<lambda>w. if \<not> is_file x \<or> \<not> owned x w then fail UnsafeRoot w
       else andThen (io (fchmod f mode_file)) (\<lambda>_. ok f) w)
       (\<lambda>g w. proc_at mi p n st0 (Opened m g) w \<and> g = f) (proc_at mi p n st0 (Opened m f))"
      by (rule triple_if_world) (rule triple_fail, simp, rule triple_weaken [OF chmod], simp_all)
  qed
  fix w
  assume "proc_at mi p n st0 (Opened m f) w"
  then show "no_lock mi p n st0 m (drop_file f w) \<and> no_lock mi p n st0 m w"
    using proc_at_drop [of mi p n st0 "Opened m f" w m f] by (auto simp: no_lock_def)
qed

lemma open_lock_steps:
  "triple (proc_at mi p n st0 (Shared_maintenance m)) (open_lock p)
     (\<lambda>f. proc_at mi p n st0 (Opened m f)) (no_lock mi p n st0 m)"
proof -
  have "triple (proc_at mi p n st0 (Shared_maintenance m)) (\<lambda>w. case open_with lock_flags mode_file p w of
     (Inl Pending, w1) \<Rightarrow> (Inl Pending, w1)
   | (Inl (Err errno), w1) \<Rightarrow> (case symlink_metadata p w1 of
       (Inl Pending, w2) \<Rightarrow> (Inl Pending, w2)
     | (Inl (Err _), w2) \<Rightarrow> fail (error_io errno) w2
     | (Inr m, w2) \<Rightarrow> fail (if \<not> is_file m then UnsafeRoot else error_io errno) w2)
   | (Inr f, w1) \<Rightarrow> on_error (secure_lock f) (drop_file f) w1)
   (\<lambda>f. proc_at mi p n st0 (Opened m f)) (no_lock mi p n st0 m)"
  proof (rule triple_case_io [OF open_steps])
    fix f
    show "triple (proc_at mi p n st0 (Opened m f)) (on_error (secure_lock f) (drop_file f))
       (\<lambda>f. proc_at mi p n st0 (Opened m f)) (no_lock mi p n st0 m)"
      by (rule triple_post [OF secure_lock_steps]) simp
  next
    fix e
    show "triple (proc_at mi p n st0 (Shared_maintenance m)) (\<lambda>w1. case symlink_metadata p w1 of
       (Inl Pending, w2) \<Rightarrow> (Inl Pending, w2)
     | (Inl (Err _), w2) \<Rightarrow> fail (error_io e) w2
     | (Inr x, w2) \<Rightarrow> fail (if \<not> is_file x then UnsafeRoot else error_io e) w2)
     (\<lambda>f. proc_at mi p n st0 (Opened m f)) (no_lock mi p n st0 m)"
      by (rule triple_case_io [OF stat_steps]) (rule triple_fail, simp add: no_lock_def | simp add: no_lock_def)+
  qed (simp add: no_lock_def)
  then show ?thesis by (simp only: open_lock_def [abs_def])
qed

lemma proc_at_lock:
  assumes "proc_at mi p n st0 (Opened m f) w" and "\<not> conflict f Exclusive (fs w)"
  shows "proc_at mi p n st0 (Locked m f) (w\<lparr>fs := grant f Exclusive (fs w)\<rparr>)"
proof (rule proc_at_step [OF assms(1)])
  fix cs assume "cs n = Opened m f"
  then show "step mi p \<lparr>kernel = fs w, pcs = cs\<rparr>
      \<lparr>kernel = fs (w\<lparr>fs := grant f Exclusive (fs w)\<rparr>), pcs = cs(n := Locked m f)\<rparr>"
    using step.lock_file [where st = "\<lparr>kernel = fs w, pcs = cs\<rparr>" and n = n and m = m and f = f] assms(2)
    by simp
qed simp

lemma flock_steps:
  assumes "proc_at mi p n st0 (Opened m f) w" and "flock_wait f Exclusive (script w) (fs w) = (r, s, rest)"
  shows "proc_at mi p n st0 (case r of Inr _ \<Rightarrow> Locked m f | Inl _ \<Rightarrow> Opened m f) (w\<lparr>fs := s, script := rest\<rparr>)"
  using assms
proof (induction "script w" arbitrary: w)
  case Nil
  show ?case
  proof (cases "conflict f Exclusive (fs w)")
    case True
    with Nil show ?thesis by (cases w) auto
  next
    case False
    with Nil proc_at_lock [OF Nil(2) False] show ?thesis by (cases w) auto
  qed
next
  case (Cons mv moves)
  obtain g e where mv: "mv = (g, e)" by (cases mv)
  let ?w = "w\<lparr>fs := g (fs w), script := moves\<rparr>"
  have sc: "script w = (g, e) # moves" using Cons(2) mv by simp
  have w': "proc_at mi p n st0 (Opened m f) ?w" by (rule proc_at_move [OF Cons(3) sc])
  have same: "?w\<lparr>fs := x, script := y\<rparr> = w\<lparr>fs := x, script := y\<rparr>" for x y by (cases w) simp
  show ?case
  proof (cases e)
    case (Some err)
    with Cons(4) sc w' show ?thesis by auto
  next
    case None
    show ?thesis
    proof (cases "conflict f Exclusive (g (fs w))")
      case True
      with Cons(4) sc None have "flock_wait f Exclusive (script ?w) (fs ?w) = (r, s, rest)" by simp
      with Cons(1) [of ?w] w' show ?thesis by (simp only: same) simp
    next
      case False
      with Cons(4) sc None have "r = Inr ()" "s = grant f Exclusive (fs ?w)" "rest = moves" by auto
      moreover have "?w\<lparr>fs := grant f Exclusive (fs ?w)\<rparr> = w\<lparr>fs := grant f Exclusive (fs ?w), script := moves\<rparr>"
        by (cases w) simp
      moreover have "proc_at mi p n st0 (Locked m f) (?w\<lparr>fs := grant f Exclusive (fs ?w)\<rparr>)"
        using False by (intro proc_at_lock [OF w']) simp
      ultimately show ?thesis by (simp only: sum.case)
    qed
  qed
qed

lemma take_lock_steps:
  "triple (proc_at mi p n st0 (Opened m f)) (take_lock f Exclusive)
     (\<lambda>_. proc_at mi p n st0 (Locked m f)) (proc_at mi p n st0 (Opened m f))"
  unfolding take_lock_def
proof (rule triple_map_err, rule tripleI)
  fix w x w'
  assume "proc_at mi p n st0 (Opened m f) w" and "file_lock f Exclusive w = (Inr x, w')"
  then show "proc_at mi p n st0 (Locked m f) w'"
    using flock_steps [of mi p n st0 m f w] by (auto simp: file_lock_def split: prod.splits)
next
  fix w e w'
  assume "proc_at mi p n st0 (Opened m f) w" and "file_lock f Exclusive w = (Inl e, w')"
  then show "proc_at mi p n st0 (Opened m f) w'"
    using flock_steps [of mi p n st0 m f w] by (auto simp: file_lock_def split: prod.splits)
qed

lemma try_lock_steps:
  "triple (proc_at mi p n st0 (Opened m f)) (file_try_lock f Exclusive)
     (\<lambda>_. proc_at mi p n st0 (Locked m f)) (proc_at mi p n st0 (Opened m f))"
proof -
  let ?O = "proc_at mi p n st0 (Opened m f)" and ?L = "proc_at mi p n st0 (Locked m f)"
  have try_it: "triple ?O (sys (try_flock_os f Exclusive)) (\<lambda>b w. if b then ?L w else ?O w) ?O"
    by (rule triple_sys_steps) (auto simp: try_flock_os_def proc_at_lock split: if_splits)
  show ?thesis
    unfolding triple_def
  proof (intro allI impI)
    fix w
    assume w: "?O w"
    obtain r w1 where r: "sys (try_flock_os f Exclusive) w = (r, w1)" by (cases "sys (try_flock_os f Exclusive) w")
    show "case file_try_lock f Exclusive w of (Inr x, w') \<Rightarrow> ?L w' | (Inl e, w') \<Rightarrow> ?O w'"
    proof (cases r)
      case (Inl e)
      with triple_Inl [OF try_it w, of e w1] r show ?thesis by (cases e) (simp_all add: file_try_lock_def)
    next
      case (Inr b)
      with triple_Inr [OF try_it w, of b w1] r show ?thesis by (cases b) (simp_all add: file_try_lock_def)
    qed
  qed
qed

lemma proc_at_same:
  assumes "proc_at mi p n st0 (Locked m f) w" and "ino_at (fs w) p = Some (f_ino f)"
  shows "proc_at mi p n st0 (Holding m f) w"
proof (rule proc_at_step [OF assms(1)])
  fix cs assume "cs n = Locked m f"
  then show "step mi p \<lparr>kernel = fs w, pcs = cs\<rparr> \<lparr>kernel = fs w, pcs = cs(n := Holding m f)\<rparr>"
    using step.same_inode [where st = "\<lparr>kernel = fs w, pcs = cs\<rparr>" and n = n and m = m and f = f] assms(2)
    by simp
qed simp

lemma names_steps:
  "triple (proc_at mi p n st0 (Locked m f)) (names p f)
     (\<lambda>b. proc_at mi p n st0 (if b then Holding m f else Locked m f)) (proc_at mi p n st0 (Locked m f))"
  unfolding names_def
proof (rule triple_andThen [OF triple_io [OF metadata_steps]])
  fix x
  show "triple (\<lambda>w. proc_at mi p n st0 (Locked m f) w \<and> m_ino x = f_ino f)
    (\<lambda>w. case symlink_metadata p w of
       (Inl Pending, w1) \<Rightarrow> (Inl Pending, w1)
     | (Inl (Err e), w1) \<Rightarrow> if e = NotFound then (Inr False, w1) else fail (error_io e) w1
     | (Inr named, w1) \<Rightarrow> (Inr (m_ino named = m_ino x), w1))
    (\<lambda>b. proc_at mi p n st0 (if b then Holding m f else Locked m f)) (proc_at mi p n st0 (Locked m f))"
    unfolding triple_def
  proof (intro allI impI, elim conjE)
    fix w
    assume w: "proc_at mi p n st0 (Locked m f) w" and x: "m_ino x = f_ino f"
    obtain r w1 where r: "symlink_metadata p w = (r, w1)" by (cases "symlink_metadata p w")
    let ?body = "case symlink_metadata p w of
       (Inl Pending, w1) \<Rightarrow> (Inl Pending, w1)
     | (Inl (Err e), w1) \<Rightarrow> if e = NotFound then (Inr False, w1) else fail (error_io e) w1
     | (Inr named, w1) \<Rightarrow> (Inr (m_ino named = m_ino x), w1)"
    show "case ?body of
        (Inr b, w') \<Rightarrow> proc_at mi p n st0 (if b then Holding m f else Locked m f) w'
      | (Inl e, w') \<Rightarrow> proc_at mi p n st0 (Locked m f) w'"
    proof (cases r)
      case (Inl e)
      with triple_Inl [OF stat_steps w, of e w1] r show ?thesis by (cases e) simp_all
    next
      case (Inr named)
      with triple_Inr [OF stat_steps w, of named w1] r x show ?thesis by (simp add: proc_at_same)
    qed
  qed
qed

definition lock_post :: "nat \<Rightarrow> path \<Rightarrow> nat \<Rightarrow> protocol \<Rightarrow> handle \<Rightarrow> error stop + held \<Rightarrow> world \<Rightarrow> bool" where
  "lock_post mi p n st0 m r w \<longleftrightarrow> (case r of
     Inr h \<Rightarrow> proc_at mi p n st0 (Holding m (h_file h)) w \<and> h_path h = p
   | Inl (Err e) \<Rightarrow> no_lock mi p n st0 m w
   | Inl Pending \<Rightarrow> True)"

lemma no_lock_drop:
  "proc_at mi p n st0 c w \<Longrightarrow> c = Opened m f \<or> c = Locked m f \<Longrightarrow> no_lock mi p n st0 m (drop_file f w)"
  using proc_at_drop [of mi p n st0 c w m f] by (auto simp: no_lock_def)

lemma lock_exclusive_steps:
  "proc_at mi p n st0 (Shared_maintenance m) w \<Longrightarrow> lock_exclusive p w = (r, w') \<Longrightarrow> lock_post mi p n st0 m r w'"
proof (induction p w arbitrary: r w' rule: lock_exclusive.induct)
  case (1 p w)
  note again = "1.IH" and start = "1.prems"(1) and run = "1.prems"(2)
  obtain x1 w1 where o: "open_lock p w = (x1, w1)" by (cases "open_lock p w")
  show ?case
  proof (cases x1)
    case (Inl e)
    with o run have "r = Inl e" "w' = w1" by (subst (asm) lock_exclusive.simps, simp)+
    with triple_Inl [OF open_lock_steps start] o Inl show ?thesis
      by (cases e) (auto simp: lock_post_def)
  next
    case (Inr f)
    have at1: "proc_at mi p n st0 (Opened m f) w1" using triple_Inr [OF open_lock_steps start] o Inr by simp
    obtain x2 w2 where l: "take_lock f Exclusive w1 = (x2, w2)" by (cases "take_lock f Exclusive w1")
    show ?thesis
    proof (cases x2)
      case (Inl e)
      with triple_Inl [OF take_lock_steps at1] l have at2: "proc_at mi p n st0 (Opened m f) w2" by simp
      from run o l Inl \<open>x1 = Inr f\<close> have "(r, w') = (Inl e, case e of Pending \<Rightarrow> w2 | Err k \<Rightarrow> drop_file f w2)"
        by (subst (asm) lock_exclusive.simps) (cases e, simp_all)
      with no_lock_drop [OF at2, of m f] show ?thesis by (cases e) (simp_all add: lock_post_def)
    next
      case (Inr u)
      have at2: "proc_at mi p n st0 (Locked m f) w2" using triple_Inr [OF take_lock_steps at1] l Inr by simp
      obtain x3 w3 where nm: "names p f w2 = (x3, w3)" by (cases "names p f w2")
      show ?thesis
      proof (cases x3)
        case (Inl e)
        with triple_Inl [OF names_steps at2] nm have at3: "proc_at mi p n st0 (Locked m f) w3" by simp
        from run o l nm Inl \<open>x1 = Inr f\<close> \<open>x2 = Inr u\<close>
        have "(r, w') = (Inl e, case e of Pending \<Rightarrow> w3 | Err k \<Rightarrow> drop_file f w3)"
          by (subst (asm) lock_exclusive.simps) (cases e, simp_all)
        with no_lock_drop [OF at3, of m f] show ?thesis by (cases e) (simp_all add: lock_post_def)
      next
        case (Inr same)
        with triple_Inr [OF names_steps at2] nm
        have at3: "proc_at mi p n st0 (if same then Holding m f else Locked m f) w3" by simp
        show ?thesis
        proof (cases same)
          case True
          with run o l nm Inr \<open>x1 = Inr f\<close> \<open>x2 = Inr u\<close> have "r = Inr \<lparr>h_path = p, h_file = f\<rparr>" "w' = w3"
            by (subst (asm) lock_exclusive.simps, simp)+
          with at3 True show ?thesis by (simp add: lock_post_def)
        next
          case False
          with run o l nm Inr \<open>x1 = Inr f\<close> \<open>x2 = Inr u\<close> have "lock_exclusive p (drop_file f w3) = (r, w')"
            by (subst (asm) lock_exclusive.simps) simp
          moreover have "proc_at mi p n st0 (Shared_maintenance m) (drop_file f w3)"
            using proc_at_drop [OF at3, of m f] False by simp
          ultimately show ?thesis
            using again [OF o [symmetric] \<open>x1 = Inr f\<close> l [symmetric] \<open>x2 = Inr u\<close> nm [symmetric] Inr False] by blast
        qed
      qed
    qed
  qed
qed

lemma try_lock_exclusive_steps:
  assumes start: "proc_at mi p n st0 (Shared_maintenance m) w" and run: "try_lock_exclusive p w = (Inr (Some h), w')"
  shows "proc_at mi p n st0 (Holding m (h_file h)) w' \<and> h_path h = p"
proof -
  obtain f w1 where o: "open_lock p w = (Inr f, w1)"
    and body: "(case file_try_lock f Exclusive w1 of
     (Inl Pending, w2) \<Rightarrow> (Inl Pending, w2)
   | (Inl (Err TryWouldBlock), w2) \<Rightarrow> (Inr None, drop_file f w2)
   | (Inl (Err (TryError e)), w2) \<Rightarrow> (Inl (Err (error_io e)), drop_file f w2)
   | (Inr _, w2) \<Rightarrow> (case names p f w2 of
       (Inl Pending, w3) \<Rightarrow> (Inl Pending, w3)
     | (Inl (Err e), w3) \<Rightarrow> (Inl (Err e), drop_file f w3)
     | (Inr same, w3) \<Rightarrow>
         if same then (Inr (Some \<lparr>h_path = p, h_file = f\<rparr>), w3)
         else (Inr None, drop_file f w3))) = (Inr (Some h), w')"
    using run unfolding try_lock_exclusive_def andThen_eq_Inr_iff by blast
  have at1: "proc_at mi p n st0 (Opened m f) w1" using triple_Inr [OF open_lock_steps start] o by simp
  obtain u w2 where l: "file_try_lock f Exclusive w1 = (Inr u, w2)"
    using body by (auto split: prod.splits sum.splits stop.splits try_lock_error.splits)
  have at2: "proc_at mi p n st0 (Locked m f) w2" using triple_Inr [OF try_lock_steps at1] l by simp
  obtain w3 where nm: "names p f w2 = (Inr True, w3)" and h: "h = \<lparr>h_path = p, h_file = f\<rparr>" "w' = w3"
    using body by (auto simp: l split: prod.splits sum.splits stop.splits if_splits)
  show ?thesis using triple_Inr [OF names_steps at2 nm] h by simp
qed

lemma drop_held_steps:
  assumes "proc_at mi p n st0 (Holding m (h_file h)) w" and "h_path h = p"
  shows "proc_at mi p n st0 (Shared_maintenance m) (drop_held h w)"
proof -
  let ?after = "\<lambda>w. proc_at mi p n st0 (Holding m (h_file h)) w \<or> proc_at mi p n st0 (Removed m (h_file h)) w"
  have gone: "proc_at mi p n st0 (Removed m (h_file h)) (w\<lparr>fs := k\<rparr>)"
    if at: "proc_at mi p n st0 (Holding m (h_file h)) w" and u: "unlink_os p (fs w) = (r, k)" for w r k
  proof (rule proc_at_step [OF at])
    fix cs assume "cs n = Holding m (h_file h)"
    then show "step mi p \<lparr>kernel = fs w, pcs = cs\<rparr>
        \<lparr>kernel = fs (w\<lparr>fs := k\<rparr>), pcs = cs(n := Removed m (h_file h))\<rparr>"
      using step.delete [where st = "\<lparr>kernel = fs w, pcs = cs\<rparr>" and n = n and m = m and f = "h_file h"] u by simp
  qed simp
  have "triple (proc_at mi p n st0 (Holding m (h_file h))) (remove_file p) (\<lambda>_. ?after) ?after"
    unfolding remove_file_def by (rule triple_sys_steps) (blast intro: gone)+
  then have "?after (snd (remove_file p w))"
    using assms(1) by (cases "remove_file p w") (auto simp: triple_def split: sum.splits)
  then show ?thesis
    unfolding drop_held_def assms(2) by (blast intro: proc_at_drop)
qed

section \<open>What the code's lock promises\<close>

definition alone :: "nat \<Rightarrow> path \<Rightarrow> nat \<Rightarrow> protocol \<Rightarrow> held \<Rightarrow> world \<Rightarrow> bool" where
  "alone mi p n st0 h w \<longleftrightarrow> ino_at (fs w) p = Some (f_ino (h_file h))
     \<and> holds (fs w) (h_file h) Exclusive
     \<and> (\<exists>cs m. reachable (step mi p) st0 \<lparr>kernel = fs w, pcs = cs\<rparr> \<and> cs n = Holding m (h_file h)
          \<and> (\<forall>n' m' f'. cs n' = Holding m' f' \<longrightarrow> n' = n) \<and> (\<forall>n' m'. cs n' \<noteq> Clearing m'))"

lemma holding_alone:
  assumes "initial st0" and "proc_at mi p n st0 (Holding m (h_file h)) w"
  shows "alone mi p n st0 h w"
proof -
  obtain cs where r: "reachable (step mi p) st0 \<lparr>kernel = fs w, pcs = cs\<rparr>" and n: "cs n = Holding m (h_file h)"
    using assms(2) by (auto simp: proc_at_def)
  from holding_excludes [OF assms(1) r] n
  show ?thesis unfolding alone_def holds_def using r n by simp blast
qed


end
