(* ===== verification/Witnesses.thy ===== *)
theory Witnesses
  imports Sample_Cache Confinement Lock_Code
begin

text \<open>
  Witnesses on the sample cache for the properties of \<open>Confinement\<close> and \<open>Lock_Code\<close>.
\<close>

definition sample_lock :: key_lock where
  "sample_lock = \<lparr>kl_inner = sample_inner, kl_key = sample_key,
     kl_held = \<lparr>h_path = lock_path sample_inner (digest sample_key), h_file = \<lparr>fd = 0, f_ino = 0\<rparr>\<rparr>,
     kl_maintenance = \<lparr>fd = 0, f_ino = 0\<rparr>\<rparr>"


lemma unlocked_lookup_removes_nothing_witness:
  "present {([''c''], 1)} (fs (snd (cache_lookup sample_serde sample_inner sample_key sample_world)))"
proof (rule unlocked_lookup_removes_nothing)
  show "present {([''c''], 1)} (fs sample_world)"
    by (simp add: present_def ino_at_def sample_world_def sample_os_def)
qed (simp add: sample_world_def)

lemma tree_stays_well_formed_witness:
  "tree_ok (fs (snd (clear sample_inner sample_world)))"
proof -
  have "friendly tree_ok sample_world"
    by (simp add: friendly_def tree_ok_def sample_world_def sample_os_def)
  note c = tree_stays_well_formed [OF this, THEN conjunct2, THEN conjunct2, THEN conjunct2, THEN conjunct2]
  show ?thesis by (rule c)
qed

definition sample_start :: protocol where
  "sample_start = \<lparr>kernel = sample_os, pcs = (\<lambda>_. Idle)\<rparr>"

lemma sample_holding:
  "\<exists>st m f. reachable (step 4 (lock_path sample_inner ''k'')) sample_start st \<and> pcs st 0 = Holding m f"
proof -
  let ?p = "lock_path sample_inner ''k''" and ?m = "\<lparr>fd = 0, f_ino = 4\<rparr>"
  let ?k0 = "sample_os\<lparr>next_fd := 1\<rparr>"
  let ?k1 = "grant ?m Shared ?k0"
  let ?s1 = "sample_start\<lparr>kernel := ?k1, pcs := (\<lambda>_. Idle)(0 := Shared_maintenance ?m)\<rparr>"
  have "step 4 ?p sample_start ?s1"
    using step.share [of sample_start 0 4 ?m ?k0 ?p]
    by (simp add: sample_start_def reopen_def conflict_def sample_os_def)
  then have r1: "reachable (step 4 ?p) sample_start ?s1" by (rule further [OF start])
  let ?f = "\<lparr>fd = 1, f_ino = 6\<rparr>"
  obtain k2 where o: "open_os lock_flags 7 mode_file ?p ?k1 = (Inr ?f, k2)"
    "ino_at k2 ?p = Some 6" "locks k2 = [(0, 4, Shared)]"
    by (simp add: open_os_def lock_flags_def grant_def sample_os_def ino_at_def node_at_def parent_error_def
        add_node_def new_node_def lock_path_def sample_inner_def sample_paths lock_name_def Let_def sample_dir_def)
  let ?s2 = "?s1\<lparr>kernel := k2, pcs := (pcs ?s1)(0 := Opened ?m ?f)\<rparr>"
  have "step 4 ?p ?s1 ?s2" using o(1) by (intro step.open_file) simp_all
  with r1 have r2: "reachable (step 4 ?p) sample_start ?s2" by (rule further)
  let ?s3 = "?s2\<lparr>kernel := grant ?f Exclusive k2, pcs := (pcs ?s2)(0 := Locked ?m ?f)\<rparr>"
  have "step 4 ?p ?s2 ?s3"
    using step.lock_file [of ?s2 0 ?m ?f 4 ?p] o by (simp add: conflict_def)
  with r2 have r3: "reachable (step 4 ?p) sample_start ?s3" by (rule further)
  let ?s4 = "?s3\<lparr>pcs := (pcs ?s3)(0 := Holding ?m ?f)\<rparr>"
  have "step 4 ?p ?s3 ?s4"
    using step.same_inode [of ?s3 0 ?m ?f ?p 4] o by (simp add: grant_def)
  with r3 have "reachable (step 4 ?p) sample_start ?s4" by (rule further)
  moreover have "pcs ?s4 0 = Holding ?m ?f" by simp
  ultimately show ?thesis by blast
qed

definition sample_locked_os :: os where
  "sample_locked_os = grant \<lparr>fd = 0, f_ino = 4\<rparr> Shared (sample_os\<lparr>next_fd := 1\<rparr>)"

text \<open>A process that holds \<open>maintenance.lock\<close> shared, and two moves of the others to come\<close>

definition sample_shared_world :: world where
  "sample_shared_world = \<lparr>fs = sample_locked_os, script = [(id, None), (id, None)], euid = 7, umask = 0\<rparr>"

lemma sample_shared:
  "proc_at 4 (lock_path sample_inner ''k'') 0 sample_start (Shared_maintenance \<lparr>fd = 0, f_ino = 4\<rparr>) sample_shared_world"
proof -
  let ?p = "lock_path sample_inner ''k''" and ?m = "\<lparr>fd = 0, f_ino = 4\<rparr>"
  let ?cs = "(\<lambda>_. Idle)(0 := Shared_maintenance ?m)"
  have "step 4 ?p sample_start \<lparr>kernel = sample_locked_os, pcs = ?cs\<rparr>"
    using step.share [of sample_start 0 4 ?m "sample_os\<lparr>next_fd := 1\<rparr>" ?p]
    by (simp add: sample_start_def reopen_def conflict_def sample_os_def sample_locked_os_def)
  then have "reachable (step 4 ?p) sample_start \<lparr>kernel = sample_locked_os, pcs = ?cs\<rparr>" by (rule further [OF start])
  moreover have "others 4 ?p 0 id" unfolding others_def by (auto intro: reachable.start)
  ultimately show ?thesis by (auto simp: proc_at_def sample_shared_world_def intro!: exI [of _ ?cs])
qed

lemma sample_lock_taken:
  "fst (lock_exclusive (lock_path sample_inner ''k'') sample_shared_world) =
     Inr \<lparr>h_path = lock_path sample_inner ''k'', h_file = \<lparr>fd = 1, f_ino = 6\<rparr>\<rparr>"
  by code_simp


end
