(* ===== verification/Single_Flight.thy ===== *)
theory Single_Flight
  imports Transitions
begin

text \<open>
  \<open>SingleFlight\<close> (\<open>crates/unixd/src/single_flight.rs\<close>) as a transition system. A flight is
  the shared future \<open>start\<close> makes: it is created with its map entry under the map's lock,
  its task is spawned when the future is first polled, the task runs the work, drops
  \<open>Landed\<close> when the work has ended in any way, and then hands its result to every caller that
  awaits the flight. Each step is one critical section of the map's mutex, or one event of a
  task. A caller may go away at any time.
\<close>

section \<open>State\<close>

datatype ('t, 'e) landing = Value 't | Failed 'e | Panicked

definition flight_error_display :: "('e \<Rightarrow> string) \<Rightarrow> ('t, 'e) landing \<Rightarrow> string option" where
  "flight_error_display text r = (case r of
     Value _ \<Rightarrow> None
   | Failed e \<Rightarrow> Some (text e)
   | Panicked \<Rightarrow> Some ''the shared work panicked'')"

datatype ('t, 'e) flight_state =
    Created                          \<comment> \<open>in the map, not polled\<close>
  | Running                          \<comment> \<open>its task is spawned, \<open>_landed\<close> alive\<close>
  | Landing "('t, 'e) landing"       \<comment> \<open>the work ended, \<open>_landed\<close> not dropped yet\<close>
  | Landed "('t, 'e) landing"        \<comment> \<open>\<open>_landed\<close> dropped, the result is there for all\<close>

record ('k, 't, 'e) flights =
  map_of_flights :: "'k \<rightharpoonup> nat"                          \<comment> \<open>the mutex-protected map\<close>
  flight_key :: "nat \<rightharpoonup> 'k"                              \<comment> \<open>the flights ever made\<close>
  flight_state :: "nat \<Rightarrow> ('t, 'e) flight_state"
  runs :: "nat \<Rightarrow> nat"                                 \<comment> \<open>how often its work was started\<close>
  waiting :: "nat \<rightharpoonup> 'k \<times> nat"                        \<comment> \<open>a caller's key and the flight it awaits\<close>
  answers :: "(nat \<times> 'k \<times> nat \<times> ('t, 'e) landing) list"  \<comment> \<open>caller, key, flight, result\<close>
  next_flight :: nat

definition no_flights :: "('k, 't, 'e) flights" where
  "no_flights = \<lparr>map_of_flights = Map.empty, flight_key = Map.empty, flight_state = (\<lambda>_. Created),
     runs = (\<lambda>_. 0), waiting = Map.empty, answers = [], next_flight = 0\<rparr>"

text \<open>\<open>run\<close> up to its \<open>flight.await\<close>: join the key's flight, or start one.\<close>

definition join :: "nat \<Rightarrow> 'k \<Rightarrow> ('k, 't, 'e) flights \<Rightarrow> ('k, 't, 'e) flights" where
  "join caller key s = (case map_of_flights s key of
     Some f \<Rightarrow> s\<lparr>waiting := (waiting s)(caller \<mapsto> (key, f))\<rparr>
   | None \<Rightarrow> (let f = next_flight s in s\<lparr>
       map_of_flights := (map_of_flights s)(key \<mapsto> f),
       flight_key := (flight_key s)(f \<mapsto> key),
       flight_state := (flight_state s)(f := Created),
       runs := (runs s)(f := 0),
       waiting := (waiting s)(caller \<mapsto> (key, f)),
       next_flight := Suc f\<rparr>))"

text \<open>The first poll of a flight spawns its task.\<close>

definition poll :: "nat \<Rightarrow> ('k, 't, 'e) flights \<Rightarrow> ('k, 't, 'e) flights" where
  "poll f s = s\<lparr>flight_state := (flight_state s)(f := Running), runs := (runs s)(f := Suc (runs s f))\<rparr>"

definition work_ends :: "nat \<Rightarrow> ('t, 'e) landing \<Rightarrow> ('k, 't, 'e) flights \<Rightarrow> ('k, 't, 'e) flights" where
  "work_ends f r s = s\<lparr>flight_state := (flight_state s)(f := Landing r)\<rparr>"

text \<open>\<open>Drop for Landed\<close>: whatever flight is under the key is forgotten.\<close>

definition forget :: "nat \<Rightarrow> ('t, 'e) landing \<Rightarrow> ('k, 't, 'e) flights \<Rightarrow> ('k, 't, 'e) flights" where
  "forget f r s = s\<lparr>map_of_flights := (case flight_key s f of
       None \<Rightarrow> map_of_flights s | Some key \<Rightarrow> (map_of_flights s)(key := None)),
     flight_state := (flight_state s)(f := Landed r)\<rparr>"

definition receive :: "nat \<Rightarrow> 'k \<Rightarrow> nat \<Rightarrow> ('t, 'e) landing \<Rightarrow> ('k, 't, 'e) flights \<Rightarrow> ('k, 't, 'e) flights" where
  "receive caller key f r s = s\<lparr>waiting := (waiting s)(caller := None),
     answers := (caller, key, f, r) # answers s\<rparr>"

definition go_away :: "nat \<Rightarrow> ('k, 't, 'e) flights \<Rightarrow> ('k, 't, 'e) flights" where
  "go_away caller s = s\<lparr>waiting := (waiting s)(caller := None)\<rparr>"

inductive flight_step :: "('k, 't, 'e) flights \<Rightarrow> ('k, 't, 'e) flights \<Rightarrow> bool" where
  joins: "waiting s caller = None \<Longrightarrow> flight_step s (join caller key s)"
| polls: "waiting s caller = Some (key, f) \<Longrightarrow> flight_state s f = Created \<Longrightarrow> flight_step s (poll f s)"
| ends: "f < next_flight s \<Longrightarrow> flight_state s f = Running \<Longrightarrow> flight_step s (work_ends f r s)"
| forgets: "f < next_flight s \<Longrightarrow> flight_state s f = Landing r \<Longrightarrow> flight_step s (forget f r s)"
| receives: "waiting s caller = Some (key, f) \<Longrightarrow> flight_state s f = Landed r \<Longrightarrow>
    flight_step s (receive caller key f r s)"
| leaves: "waiting s caller = Some x \<Longrightarrow> flight_step s (go_away caller s)"

inductive_cases flight_stepE: "flight_step s s'"

abbreviation flights_reachable :: "('k, 't, 'e) flights \<Rightarrow> bool" where
  "flights_reachable s \<equiv> reachable flight_step no_flights s"

section \<open>The invariant\<close>

fun has_landed :: "('t, 'e) flight_state \<Rightarrow> bool" where
  "has_landed (Landed r) = True"
| "has_landed _ = False"

definition flights_ok :: "('k, 't, 'e) flights \<Rightarrow> bool" where
  "flights_ok s \<longleftrightarrow>
     (\<forall>key f. map_of_flights s key = Some f \<longleftrightarrow>
        f < next_flight s \<and> flight_key s f = Some key \<and> \<not> has_landed (flight_state s f))
     \<and> (\<forall>f. f < next_flight s \<longrightarrow> flight_key s f \<noteq> None)
     \<and> (\<forall>f. f < next_flight s \<longrightarrow> runs s f = (if flight_state s f = Created then 0 else 1))
     \<and> (\<forall>caller key f. waiting s caller = Some (key, f) \<longrightarrow> f < next_flight s \<and> flight_key s f = Some key)
     \<and> (\<forall>(caller, key, f, r) \<in> set (answers s).
          f < next_flight s \<and> flight_key s f = Some key \<and> flight_state s f = Landed r)"

lemma flights_okD:
  assumes "flights_ok s"
  shows "map_of_flights s key = Some f \<longleftrightarrow>
      f < next_flight s \<and> flight_key s f = Some key \<and> \<not> has_landed (flight_state s f)"
    "f < next_flight s \<Longrightarrow> \<exists>key. flight_key s f = Some key"
    "f < next_flight s \<Longrightarrow> runs s f = (if flight_state s f = Created then 0 else 1)"
    "waiting s caller = Some (key, f) \<Longrightarrow> f < next_flight s \<and> flight_key s f = Some key"
    "(caller, key, f, r) \<in> set (answers s) \<Longrightarrow>
      f < next_flight s \<and> flight_key s f = Some key \<and> flight_state s f = Landed r"
  using assms unfolding flights_ok_def by blast+

lemma flights_okI:
  assumes "\<And>key f. map_of_flights s key = Some f \<longleftrightarrow>
      f < next_flight s \<and> flight_key s f = Some key \<and> \<not> has_landed (flight_state s f)"
    and "\<And>f. f < next_flight s \<Longrightarrow> flight_key s f \<noteq> None"
    and "\<And>f. f < next_flight s \<Longrightarrow> runs s f = (if flight_state s f = Created then 0 else 1)"
    and "\<And>caller key f. waiting s caller = Some (key, f) \<Longrightarrow> f < next_flight s \<and> flight_key s f = Some key"
    and "\<And>caller key f r. (caller, key, f, r) \<in> set (answers s) \<Longrightarrow>
      f < next_flight s \<and> flight_key s f = Some key \<and> flight_state s f = Landed r"
  shows "flights_ok s"
  using assms unfolding flights_ok_def by blast

lemma join_ok:
  assumes s: "flights_ok s"
  shows "flights_ok (join caller key s)"
proof (cases "map_of_flights s key")
  case None
  note D = flights_okD [OF s]
  let ?s = "join caller key s"
  have nf: "\<not> (f < next_flight s \<and> flight_key s f = Some key \<and> \<not> has_landed (flight_state s f))" for f
    using D(1) [of key f] None by simp
  show ?thesis
  proof (rule flights_okI)
    show "map_of_flights ?s k = Some f \<longleftrightarrow>
      f < next_flight ?s \<and> flight_key ?s f = Some k \<and> \<not> has_landed (flight_state ?s f)" for k f
      using D(1) [of k f] nf [of f] None by (auto simp: join_def Let_def less_Suc_eq)
    show "f < next_flight ?s \<Longrightarrow> flight_key ?s f \<noteq> None" for f
      using D(2) [of f] None by (auto simp: join_def Let_def less_Suc_eq)
    show "f < next_flight ?s \<Longrightarrow> runs ?s f = (if flight_state ?s f = Created then 0 else 1)" for f
      using D(3) [of f] None by (auto simp: join_def Let_def less_Suc_eq)
    show "waiting ?s c = Some (k, f) \<Longrightarrow> f < next_flight ?s \<and> flight_key ?s f = Some k" for c k f
      using D(4) [of c k f] None by (auto simp: join_def Let_def split: if_splits)
    show "(c, k, f, r) \<in> set (answers ?s) \<Longrightarrow>
      f < next_flight ?s \<and> flight_key ?s f = Some k \<and> flight_state ?s f = Landed r" for c k f r
      using D(5) [of c k f r] None by (auto simp: join_def Let_def)
  qed
next
  case (Some f)
  note D = flights_okD [OF s]
  from Some D(1) [of key f] have f: "f < next_flight s" "flight_key s f = Some key" by simp_all
  have j: "join caller key s = s\<lparr>waiting := (waiting s)(caller \<mapsto> (key, f))\<rparr>" using Some by (simp add: join_def)
  show ?thesis
    unfolding j
  proof (rule flights_okI)
    let ?s = "s\<lparr>waiting := (waiting s)(caller \<mapsto> (key, f))\<rparr>"
    show "map_of_flights ?s k = Some g \<longleftrightarrow>
      g < next_flight ?s \<and> flight_key ?s g = Some k \<and> \<not> has_landed (flight_state ?s g)" for k g
      using D(1) [of k g] by simp
    show "g < next_flight ?s \<Longrightarrow> flight_key ?s g \<noteq> None" for g using D(2) [of g] by auto
    show "g < next_flight ?s \<Longrightarrow> runs ?s g = (if flight_state ?s g = Created then 0 else 1)" for g
      using D(3) [of g] by simp
    show "waiting ?s c = Some (k, g) \<Longrightarrow> g < next_flight ?s \<and> flight_key ?s g = Some k" for c k g
      using D(4) [of c k g] f by (auto split: if_splits)
    show "(c, k, g, r) \<in> set (answers ?s) \<Longrightarrow>
      g < next_flight ?s \<and> flight_key ?s g = Some k \<and> flight_state ?s g = Landed r" for c k g r
      using D(5) [of c k g r] by simp
  qed
qed

lemma state_change_ok:
  assumes s: "flights_ok s" and f: "f < next_flight s" "\<not> has_landed (flight_state s f)"
    and x: "\<not> has_landed x" "n = (if x = Created then 0 else 1)"
  shows "flights_ok (s\<lparr>flight_state := (flight_state s)(f := x), runs := (runs s)(f := n)\<rparr>)"
proof -
  note D = flights_okD [OF s]
  let ?s = "s\<lparr>flight_state := (flight_state s)(f := x), runs := (runs s)(f := n)\<rparr>"
  show ?thesis
  proof (rule flights_okI)
    show "map_of_flights ?s k = Some g \<longleftrightarrow>
      g < next_flight ?s \<and> flight_key ?s g = Some k \<and> \<not> has_landed (flight_state ?s g)" for k g
      using D(1) [of k g] f x(1) by auto
    show "g < next_flight ?s \<Longrightarrow> flight_key ?s g \<noteq> None" for g using D(2) [of g] by auto
    show "g < next_flight ?s \<Longrightarrow> runs ?s g = (if flight_state ?s g = Created then 0 else 1)" for g
      using D(3) [of g] x(2) by auto
    show "waiting ?s c = Some (k, g) \<Longrightarrow> g < next_flight ?s \<and> flight_key ?s g = Some k" for c k g
      using D(4) [of c k g] by auto
    show "(c, k, g, q) \<in> set (answers ?s) \<Longrightarrow>
      g < next_flight ?s \<and> flight_key ?s g = Some k \<and> flight_state ?s g = Landed q" for c k g q
      using D(5) [of c k g q] f(2) by auto
  qed
qed

lemma poll_ok:
  assumes s: "flights_ok s" and "waiting s caller = Some (key, f)" and "flight_state s f = Created"
  shows "flights_ok (poll f s)"
proof -
  from flights_okD(4) [OF s assms(2)] have f: "f < next_flight s" by simp
  with flights_okD(3) [OF s f] assms(3) state_change_ok [OF s f, of Running 1] show ?thesis
    by (simp add: poll_def)
qed

lemma work_ends_ok:
  assumes s: "flights_ok s" and f: "f < next_flight s" and "flight_state s f = Running"
  shows "flights_ok (work_ends f r s)"
proof -
  from flights_okD(3) [OF s f] assms(3) have "(runs s)(f := 1) = runs s" by auto
  with state_change_ok [OF s f, of "Landing r" 1] assms(3) show ?thesis
    by (simp add: work_ends_def)
qed

lemma forget_ok:
  assumes s: "flights_ok s" and f: "f < next_flight s" "flight_state s f = Landing r"
  shows "flights_ok (forget f r s)"
proof -
  note D = flights_okD [OF s]
  from D(2) [OF f(1)] obtain key where key: "flight_key s f = Some key" ..
  with f D(1) [of key f] have m: "map_of_flights s key = Some f" by simp
  let ?s = "forget f r s"
  show ?thesis
  proof (rule flights_okI)
    show "map_of_flights ?s k = Some g \<longleftrightarrow>
      g < next_flight ?s \<and> flight_key ?s g = Some k \<and> \<not> has_landed (flight_state ?s g)" for k g
      using D(1) [of k g] m key by (auto simp: forget_def)
    show "g < next_flight ?s \<Longrightarrow> flight_key ?s g \<noteq> None" for g using D(2) [of g] by (auto simp: forget_def)
    show "g < next_flight ?s \<Longrightarrow> runs ?s g = (if flight_state ?s g = Created then 0 else 1)" for g
      using D(3) [of g] f by (auto simp: forget_def)
    show "waiting ?s c = Some (k, g) \<Longrightarrow> g < next_flight ?s \<and> flight_key ?s g = Some k" for c k g
      using D(4) [of c k g] by (auto simp: forget_def)
    show "(c, k, g, q) \<in> set (answers ?s) \<Longrightarrow>
      g < next_flight ?s \<and> flight_key ?s g = Some k \<and> flight_state ?s g = Landed q" for c k g q
      using D(5) [of c k g q] f by (auto simp: forget_def)
  qed
qed

lemma receive_ok:
  assumes s: "flights_ok s" and "waiting s caller = Some (key, f)" and "flight_state s f = Landed r"
  shows "flights_ok (receive caller key f r s)"
proof -
  note D = flights_okD [OF s]
  let ?s = "receive caller key f r s"
  show ?thesis
  proof (rule flights_okI)
    show "map_of_flights ?s k = Some g \<longleftrightarrow>
      g < next_flight ?s \<and> flight_key ?s g = Some k \<and> \<not> has_landed (flight_state ?s g)" for k g
      using D(1) [of k g] by (simp add: receive_def)
    show "g < next_flight ?s \<Longrightarrow> flight_key ?s g \<noteq> None" for g using D(2) [of g] by (auto simp: receive_def)
    show "g < next_flight ?s \<Longrightarrow> runs ?s g = (if flight_state ?s g = Created then 0 else 1)" for g
      using D(3) [of g] by (simp add: receive_def)
    show "waiting ?s c = Some (k, g) \<Longrightarrow> g < next_flight ?s \<and> flight_key ?s g = Some k" for c k g
      using D(4) [of c k g] by (simp add: receive_def split: if_splits)
    show "(c, k, g, q) \<in> set (answers ?s) \<Longrightarrow>
      g < next_flight ?s \<and> flight_key ?s g = Some k \<and> flight_state ?s g = Landed q" for c k g q
      using D(5) [of c k g q] D(4) [OF assms(2)] assms(3) by (auto simp: receive_def)
  qed
qed

lemma go_away_ok:
  assumes s: "flights_ok s"
  shows "flights_ok (go_away caller s)"
proof -
  note D = flights_okD [OF s]
  show ?thesis
  proof (rule flights_okI)
    show "map_of_flights (go_away caller s) k = Some g \<longleftrightarrow> g < next_flight (go_away caller s)
      \<and> flight_key (go_away caller s) g = Some k \<and> \<not> has_landed (flight_state (go_away caller s) g)" for k g
      using D(1) [of k g] by (simp add: go_away_def)
    show "g < next_flight (go_away caller s) \<Longrightarrow> flight_key (go_away caller s) g \<noteq> None" for g
      using D(2) [of g] by (auto simp: go_away_def)
    show "g < next_flight (go_away caller s) \<Longrightarrow> runs (go_away caller s) g =
      (if flight_state (go_away caller s) g = Created then 0 else 1)" for g
      using D(3) [of g] by (simp add: go_away_def)
    show "waiting (go_away caller s) c = Some (k, g) \<Longrightarrow>
      g < next_flight (go_away caller s) \<and> flight_key (go_away caller s) g = Some k" for c k g
      using D(4) [of c k g] by (simp add: go_away_def split: if_splits)
    show "(c, k, g, q) \<in> set (answers (go_away caller s)) \<Longrightarrow> g < next_flight (go_away caller s)
      \<and> flight_key (go_away caller s) g = Some k \<and> flight_state (go_away caller s) g = Landed q" for c k g q
      using D(5) [of c k g q] by (simp add: go_away_def)
  qed
qed

lemma flight_step_ok: "flights_ok s \<Longrightarrow> flight_step s s' \<Longrightarrow> flights_ok s'"
  by (erule flight_stepE) (auto intro: join_ok poll_ok work_ends_ok forget_ok receive_ok go_away_ok)

interpretation all_flights: guarded "\<lambda>s. s = no_flights" flight_step flights_ok
proof unfold_locales
  fix s :: "('k, 't, 'e) flights"
  assume "s = no_flights"
  then show "flights_ok s" by (simp add: flights_ok_def no_flights_def)
qed (rule flight_step_ok)

lemma reachable_flights_ok: "flights_reachable s \<Longrightarrow> flights_ok s"
  by (rule all_flights.reachable_good) simp_all

section \<open>Properties\<close>

text \<open>C37: Work runs once for concurrent calls with one key: at any time at most one flight of a
  key has not landed, and it is the one new calls join; the work of a flight is started at
  most once, and once whenever the flight is past its creation; and every caller answered
  from a flight asked for that flight's key and got the same result.\<close>

theorem one_flight_per_key:
  assumes "flights_reachable s"
  shows "(\<forall>f g key. f < next_flight s \<longrightarrow> g < next_flight s \<longrightarrow>
        flight_key s f = Some key \<longrightarrow> flight_key s g = Some key \<longrightarrow>
        \<not> has_landed (flight_state s f) \<longrightarrow> \<not> has_landed (flight_state s g) \<longrightarrow>
        f = g \<and> map_of_flights s key = Some f)
    \<and> (\<forall>f < next_flight s. runs s f = (if flight_state s f = Created then 0 else 1))
    \<and> (\<forall>c k f r c' k' r'. (c, k, f, r) \<in> set (answers s) \<longrightarrow> (c', k', f, r') \<in> set (answers s) \<longrightarrow>
        k' = k \<and> r' = r)"
proof -
  note D = flights_okD [OF reachable_flights_ok [OF assms]]
  have one: "f = g \<and> map_of_flights s key = Some f"
    if "f < next_flight s" "g < next_flight s" "flight_key s f = Some key" "flight_key s g = Some key"
      "\<not> has_landed (flight_state s f)" "\<not> has_landed (flight_state s g)" for f g key
  proof -
    from that D(1) [of key f] D(1) [of key g] have "map_of_flights s key = Some f"
      "map_of_flights s key = Some g" by simp_all
    then show ?thesis by simp
  qed
  have same: "k' = k \<and> r' = r" if "(c, k, f, r) \<in> set (answers s)" "(c', k', f, r') \<in> set (answers s)"
    for c k f r c' k' r'
    using D(5) [OF that(1)] D(5) [OF that(2)] by simp
  from one same D(3) show ?thesis by blast
qed

text \<open>A finished flight is forgotten before anybody sees its result: a caller that was
  answered and calls again starts a new flight, or joins one that was started after, never
  the one that answered it, whether its work returned, failed or panicked.\<close>

theorem answered_flight_forgotten:
  assumes "flights_reachable s" and "(caller, key, f, r) \<in> set (answers s)"
    and "waiting s caller' = None"
  shows "\<exists>g. waiting (join caller' key s) caller' = Some (key, g) \<and> g \<noteq> f"
proof -
  note D = flights_okD [OF reachable_flights_ok [OF assms(1)]]
  from D(5) [OF assms(2)] have f: "f < next_flight s" "flight_state s f = Landed r" by simp_all
  show ?thesis
  proof (cases "map_of_flights s key")
    case None
    with f show ?thesis by (auto simp: join_def Let_def)
  next
    case (Some g)
    with D(1) [of key g] f have "g \<noteq> f" by auto
    with Some show ?thesis by (auto simp: join_def)
  qed
qed

text \<open>No call waits on a dead flight: from every reachable state in which a caller waits,
  with the flight's task allowed to run and its work to end with any result \<open>r\<close> it has not
  yet fixed, steps lead to a state in which this caller is answered.\<close>

theorem waiting_caller_can_be_answered:
  assumes "flights_reachable s" and "waiting s caller = Some (key, f)"
  shows "\<exists>s' r'. flight_step\<^sup>*\<^sup>* s s' \<and> (caller, key, f, r') \<in> set (answers s')
    \<and> (flight_state s f \<in> {Created, Running} \<longrightarrow> r' = r)"
proof -
  from flights_okD(4) [OF reachable_flights_ok [OF assms(1)] assms(2)] have f: "f < next_flight s" by simp
  have landed: "\<exists>s'. flight_step\<^sup>*\<^sup>* t s' \<and> (caller, key, f, q) \<in> set (answers s')"
    if "waiting t caller = Some (key, f)" and "flight_state t f = Landed q" for t q
    using receives [OF that] by (auto simp: receive_def intro!: exI [of _ "receive caller key f q t"])
  have landing: "\<exists>s'. flight_step\<^sup>*\<^sup>* t s' \<and> (caller, key, f, q) \<in> set (answers s')"
    if "waiting t caller = Some (key, f)" and "flight_state t f = Landing q" "f < next_flight t" for t q
  proof -
    have "flight_step t (forget f q t)" using that(2,3) by (intro forgets)
    moreover have "waiting (forget f q t) caller = Some (key, f)" "flight_state (forget f q t) f = Landed q"
      using that(1) by (simp_all add: forget_def)
    ultimately show ?thesis using landed by (meson converse_rtranclp_into_rtranclp)
  qed
  have running: "\<exists>s'. flight_step\<^sup>*\<^sup>* t s' \<and> (caller, key, f, r) \<in> set (answers s')"
    if "waiting t caller = Some (key, f)" and "flight_state t f = Running" "f < next_flight t" for t
  proof -
    have "flight_step t (work_ends f r t)" using that(2,3) by (intro ends)
    moreover have "waiting (work_ends f r t) caller = Some (key, f)"
      "flight_state (work_ends f r t) f = Landing r" "f < next_flight (work_ends f r t)"
      using that by (simp_all add: work_ends_def)
    ultimately show ?thesis using landing by (meson converse_rtranclp_into_rtranclp)
  qed
  show ?thesis
  proof (cases "flight_state s f")
    case Created
    have "flight_step s (poll f s)" using assms(2) Created by (rule polls)
    have "waiting (poll f s) caller = Some (key, f)" "flight_state (poll f s) f = Running"
      "f < next_flight (poll f s)"
      using assms(2) f by (simp_all add: poll_def)
    then obtain s' where "flight_step\<^sup>*\<^sup>* (poll f s) s'" "(caller, key, f, r) \<in> set (answers s')"
      using running [of "poll f s"] by blast
    with \<open>flight_step s (poll f s)\<close> show ?thesis by (blast intro: converse_rtranclp_into_rtranclp)
  next
    case Running
    with running [OF assms(2) _ f] show ?thesis by blast
  next
    case (Landing q)
    with landing [OF assms(2) _ f] show ?thesis by auto
  next
    case (Landed q)
    with landed [OF assms(2)] show ?thesis by auto
  qed
qed

section \<open>A sample flight\<close>

text \<open>Two callers join one key, its work ends, and the first gets the result.\<close>

definition sample_landed :: "(nat, nat, nat) flights" where
  "sample_landed = forget 0 (Value 3) (work_ends 0 (Value 3) (poll 0 (join 1 7 (join 0 7 no_flights))))"

definition sample_flights :: "(nat, nat, nat) flights" where
  "sample_flights = receive 0 7 0 (Value 3) sample_landed"

lemmas sample_flight_defs = join_def poll_def work_ends_def forget_def receive_def no_flights_def Let_def

lemma sample_landed_reachable: "flights_reachable sample_landed"
proof -
  let ?a = "join 0 7 no_flights :: (nat, nat, nat) flights" and ?r = "Value 3 :: (nat, nat) landing"
  have "flight_step no_flights ?a" by (rule joins) (simp add: no_flights_def)
  with start have a: "flights_reachable ?a" by (rule further)
  have "flight_step ?a (join 1 7 ?a)" by (rule joins) (simp add: sample_flight_defs)
  with a have b: "flights_reachable (join 1 7 ?a)" by (rule further)
  have "flight_step (join 1 7 ?a) (poll 0 (join 1 7 ?a))"
    by (rule polls [of _ 0 7]) (simp_all add: sample_flight_defs)
  with b have c: "flights_reachable (poll 0 (join 1 7 ?a))" by (rule further)
  have "flight_step (poll 0 (join 1 7 ?a)) (work_ends 0 ?r (poll 0 (join 1 7 ?a)))"
    by (rule ends) (simp_all add: sample_flight_defs)
  with c have d: "flights_reachable (work_ends 0 ?r (poll 0 (join 1 7 ?a)))" by (rule further)
  have "flight_step (work_ends 0 ?r (poll 0 (join 1 7 ?a))) sample_landed"
    unfolding sample_landed_def by (rule forgets) (simp_all add: sample_flight_defs)
  with d show ?thesis by (rule further)
qed

lemma sample_flights_reachable: "flights_reachable sample_flights"
proof -
  have "flight_step sample_landed sample_flights"
    unfolding sample_flights_def by (rule receives) (simp_all add: sample_landed_def sample_flight_defs)
  with sample_landed_reachable show ?thesis by (rule further)
qed

lemma one_flight_per_key_witness: "runs sample_flights 0 = 1"
proof -
  have "next_flight sample_flights = 1" "flight_state sample_flights 0 = Landed (Value 3)"
    by (simp_all add: sample_flights_def sample_landed_def sample_flight_defs)
  with one_flight_per_key [OF sample_flights_reachable] show ?thesis by simp
qed

lemma answered_flight_forgotten_witness:
  "\<exists>g. waiting (join 0 7 sample_flights) 0 = Some (7, g) \<and> g \<noteq> 0"
proof (rule answered_flight_forgotten [OF sample_flights_reachable, of 0 7 0 "Value 3" 0])
  show "(0, 7, 0, Value 3) \<in> set (answers sample_flights)" "waiting sample_flights 0 = None"
    by (simp_all add: sample_flights_def sample_landed_def sample_flight_defs)
qed

lemma waiting_caller_can_be_answered_witness:
  "\<exists>s' r'. flight_step\<^sup>*\<^sup>* sample_landed s' \<and> (1, 7, 0, r') \<in> set (answers s')"
proof -
  have "waiting sample_landed 1 = Some (7, 0)" by (simp add: sample_landed_def sample_flight_defs)
  from waiting_caller_can_be_answered [OF sample_landed_reachable this, of Panicked] show ?thesis by blast
qed

end
