(* ===== verification/Envelope.thy ===== *)
theory Envelope
  imports Prelude
begin

text \<open>
  The wire types of the daemon (\<open>crates/unixd/src/envelope.rs\<close>), the bounds on one
  connection (\<open>limits.rs\<close>) and the numbers the messages and request ids print. The JSON
  \<open>Value\<close> is a type parameter \<open>'j\<close>. \<open>usize\<close> is 64 bits wide.
\<close>

section \<open>Envelopes\<close>

record version =
  major :: u16
  minor :: u16

record 'b request =
  rq_v :: version
  rq_id :: str
  rq_body :: 'b

record 'j fault =
  f_code :: str
  f_message :: str
  f_retryable :: bool
  f_details :: "'j option"

datatype ('r, 'j) outcome = Outcome_Ok 'r | Outcome_Err "'j fault"

record ('r, 'j) response =
  rs_v :: version
  rs_id :: str
  rs_outcome :: "('r, 'j) outcome"

section \<open>Limits\<close>

record frame_limits =
  max_frame_bytes :: u64
  read_timeout :: duration
  write_timeout :: duration

definition default_frame_limits :: frame_limits where
  "default_frame_limits = \<lparr>max_frame_bytes = 16 * 1024 * 1024,
     read_timeout = from_secs 10, write_timeout = from_secs 10\<rparr>"

section \<open>Printing numbers\<close>

text \<open>The digits of \<open>n\<close> in base \<open>b\<close>, most significant first, and \<open>0\<close> for zero.\<close>

definition digit_char :: "nat \<Rightarrow> char" where
  "digit_char d = ''0123456789abcdef'' ! d"

function digits_in :: "nat \<Rightarrow> nat \<Rightarrow> str" where
  "digits_in b n = (if b < 2 \<or> n < b then [digit_char n]
     else digits_in b (n div b) @ [digit_char (n mod b)])"
  by pat_completeness auto
termination
  by (relation "measure snd") (auto intro: div_less_dividend)

declare digits_in.simps [simp del]

text \<open>\<open>{}\<close> and \<open>{:x}\<close> of an unsigned integer\<close>

definition decimal :: "nat \<Rightarrow> str" where
  "decimal n = digits_in 10 n"

definition lower_hex :: "nat \<Rightarrow> str" where
  "lower_hex n = digits_in 16 n"

lemma digit_char_inj: "d < 16 \<Longrightarrow> e < 16 \<Longrightarrow> digit_char d = digit_char e \<Longrightarrow> d = e"
proof -
  assume "d < 16" and "e < 16" and "digit_char d = digit_char e"
  moreover have "distinct ''0123456789abcdef''" by simp
  ultimately show "d = e" by (simp add: digit_char_def nth_eq_iff_index_eq)
qed

lemma digit_char_in: "d < 16 \<Longrightarrow> digit_char d \<in> set ''0123456789abcdef''"
  unfolding digit_char_def by (rule nth_mem) simp

lemma digits_in_chars: "2 \<le> b \<Longrightarrow> b \<le> 16 \<Longrightarrow> set (digits_in b n) \<subseteq> set ''0123456789abcdef''"
proof (induction b n rule: digits_in.induct)
  case (1 b n)
  show ?case
  proof (cases "n < b")
    case True
    with 1(3) digit_char_in [of n] show ?thesis by (subst digits_in.simps) simp
  next
    case False
    have "n mod b < b" using 1(2) by simp
    then have "n mod b < 16" using 1(3) by simp
    from digit_char_in [OF this] 1 False show ?thesis by (subst digits_in.simps) simp
  qed
qed

lemma digits_in_not_Nil: "digits_in b n \<noteq> []"
  by (subst digits_in.simps) simp

lemma digits_in_inj: "2 \<le> b \<Longrightarrow> b \<le> 16 \<Longrightarrow> digits_in b m = digits_in b n \<Longrightarrow> m = n"
proof (induction b m arbitrary: n rule: digits_in.induct)
  case (1 b m)
  have small: "k < b \<Longrightarrow> k < 16" for k using 1(3) by simp
  have rem: "k mod b < 16" for k using 1(2) by (intro small) simp
  show ?case
  proof (cases "m < b")
    case m: True
    show ?thesis
    proof (cases "n < b")
      case True
      with m 1(2,4) have "digit_char m = digit_char n"
        by (simp add: digits_in.simps [of b m] digits_in.simps [of b n])
      with m True small show ?thesis by (intro digit_char_inj)
    next
      case False
      with m 1(2,4) have "digits_in b (n div b) = []"
        by (simp add: digits_in.simps [of b m] digits_in.simps [of b n])
      with digits_in_not_Nil show ?thesis by blast
    qed
  next
    case m: False
    show ?thesis
    proof (cases "n < b")
      case True
      with m 1(2,4) have "digits_in b (m div b) = []"
        by (simp add: digits_in.simps [of b m] digits_in.simps [of b n])
      with digits_in_not_Nil show ?thesis by blast
    next
      case False
      with m 1(2,4) have "digits_in b (m div b) = digits_in b (n div b)"
        and d: "digit_char (m mod b) = digit_char (n mod b)"
        by (simp_all add: digits_in.simps [of b m] digits_in.simps [of b n])
      with 1(1) [of "n div b"] m 1(2,3) have q: "m div b = n div b" by simp
      have r: "m mod b = n mod b" by (rule digit_char_inj [OF rem rem d])
      show ?thesis using q r by (metis div_mult_mod_eq)
    qed
  qed
qed

lemma lower_hex_inj: "lower_hex m = lower_hex n \<Longrightarrow> m = n"
  unfolding lower_hex_def by (rule digits_in_inj) simp_all

lemma decimal_inj: "decimal m = decimal n \<Longrightarrow> m = n"
  unfolding decimal_def by (rule digits_in_inj) simp_all

lemma no_dash_in_hex: "CHR ''-'' \<notin> set (lower_hex n)"
  using digits_in_chars [of 16 n] by (auto simp: lower_hex_def)

end
