(* ===== verification/Client.thy ===== *)
theory Client
  imports Envelope Os
begin

text \<open>
  The blocking client (\<open>crates/unixd/src/client.rs\<close>, and the trust decision of \<open>sys.rs\<close>).
  What the socket and the clock give is an argument: one event per turn of a loop, with the
  time \<open>left\<close> reads there and the result of the call on the socket. A turn for which there
  is no event leaves the call \<open>Pending\<close>. Times are nanoseconds.
\<close>

section \<open>Errors\<close>

datatype 'j client_error =
    Unavailable
  | Client_Timeout
  | PeerMismatch
  | FrameTooLarge
  | Client_Encode
  | Closed
  | InvalidFrame
  | Remote "'j fault"
  | Client_Io error_kind

definition client_error_display :: "(error_kind \<Rightarrow> str) \<Rightarrow> 'j client_error \<Rightarrow> str" where
  "client_error_display kind_text e = (case e of
     Unavailable \<Rightarrow> ''no daemon is listening''
   | Client_Timeout \<Rightarrow> ''the daemon did not answer in time''
   | PeerMismatch \<Rightarrow> ''the daemon runs as another user''
   | FrameTooLarge \<Rightarrow> ''a frame is larger than the cap''
   | Client_Encode \<Rightarrow> ''the request could not be serialized''
   | Closed \<Rightarrow> ''the daemon closed the connection''
   | InvalidFrame \<Rightarrow> ''the daemon sent an invalid response''
   | Remote fault \<Rightarrow> f_code fault @ '': '' @ f_message fault
   | Client_Io k \<Rightarrow> ''socket error: '' @ kind_text k)"

definition client_error_source :: "'j client_error \<Rightarrow> error_kind option" where
  "client_error_source e = (case e of Client_Io k \<Rightarrow> Some k | _ \<Rightarrow> None)"

definition io_error :: "error_kind \<Rightarrow> 'j client_error" where
  "io_error k = (if k = WouldBlock \<or> k = TimedOut then Client_Timeout else Client_Io k)"

definition connect_error :: "error_kind \<Rightarrow> 'j client_error" where
  "connect_error k = (if k = NotFound \<or> k = ConnectionRefused then Unavailable else io_error k)"

text \<open>\<open>left\<close>: the time to the deadline, when there is any.\<close>

definition left :: "nat \<Rightarrow> nat \<Rightarrow> 'j client_error + nat" where
  "left deadline now = (if now < deadline then Inr (deadline - now) else Inl Client_Timeout)"

section \<open>Frames\<close>

text \<open>
  One turn of a loop: the clock, the result of setting the timeout, and the result of the
  read (the bytes it gave, at most a chunk) or of the write (how many bytes it took).
\<close>

record 'a turn =
  t_now :: nat
  t_set :: "error_kind + unit"
  t_io :: "error_kind + 'a"

definition chunk_size :: nat where
  "chunk_size = 8192"

definition newline :: u8 where
  "newline = 10"

fun position_of :: "u8 \<Rightarrow> u8 list \<Rightarrow> nat option" where
  "position_of b [] = None"
| "position_of b (x # xs) = (if x = b then Some 0 else map_option Suc (position_of b xs))"

type_synonym ('j, 'a) client_result = "'j client_error stop + 'a"

fun read_frame :: "nat \<Rightarrow> u64 \<Rightarrow> u8 list \<Rightarrow> u8 list turn list \<Rightarrow> ('j, u8 list) client_result" where
  "read_frame deadline cap frame [] = Inl Pending"
| "read_frame deadline cap frame (t # ts) = (case left deadline (t_now t) of
     Inl e \<Rightarrow> Inl (Err e)
   | Inr _ \<Rightarrow> (case t_set t of
       Inl k \<Rightarrow> Inl (Err (io_error k))
     | Inr _ \<Rightarrow> (case t_io t of
         Inl k \<Rightarrow> if k = Interrupted then read_frame deadline cap frame ts
                  else Inl (Err (io_error k))
       | Inr chunk \<Rightarrow>
           if chunk = [] then Inl (Err (if frame = [] then Closed else InvalidFrame))
           else (let start = length frame; frame' = frame @ chunk in
             case position_of newline chunk of
               Some offset \<Rightarrow> (let at_newline = start + offset in
                 if at_newline \<ge> unat cap then Inl (Err FrameTooLarge)
                 else Inr (take at_newline frame'))
             | None \<Rightarrow> if length frame' \<ge> unat cap then Inl (Err FrameTooLarge)
                       else read_frame deadline cap frame' ts))))"

text \<open>The result, and the bytes the socket took.\<close>

fun write_frame :: "nat \<Rightarrow> u8 list \<Rightarrow> nat turn list \<Rightarrow> ('j, unit) client_result \<times> u8 list" where
  "write_frame deadline rest ts = (if rest = [] then (Inr (), []) else (case ts of
     [] \<Rightarrow> (Inl Pending, [])
   | t # ts' \<Rightarrow> (case left deadline (t_now t) of
       Inl e \<Rightarrow> (Inl (Err e), [])
     | Inr _ \<Rightarrow> (case t_set t of
         Inl k \<Rightarrow> (Inl (Err (io_error k)), [])
       | Inr _ \<Rightarrow> (case t_io t of
           Inl k \<Rightarrow> if k = Interrupted then write_frame deadline rest ts'
                    else (Inl (Err (io_error k)), [])
         | Inr written \<Rightarrow>
             if written = 0 then (Inl (Err Closed), [])
             else (case write_frame deadline (drop written rest) ts' of
               (r, sent) \<Rightarrow> (r, take written rest @ sent)))))))"

declare write_frame.simps [simp del]

section \<open>Calls\<close>

definition trusted_listener :: "bool \<Rightarrow> u32 \<Rightarrow> u32 \<Rightarrow> bool" where
  "trusted_listener macos own listener \<longleftrightarrow> listener = own \<or> (macos \<and> listener = 0)"

definition request_id :: "u32 \<Rightarrow> u64 \<Rightarrow> str" where
  "request_id pid n = lower_hex (unat pid) @ ''-'' @ lower_hex (unat n)"

record client =
  c_version :: version
  c_limits :: frame_limits
  c_deadline :: nat

definition client_new :: "version \<Rightarrow> client" where
  "client_new v = \<lparr>c_version = v, c_limits = default_frame_limits,
     c_deadline = as_nanos (from_secs 5)\<rparr>"

definition with_deadline :: "duration \<Rightarrow> client \<Rightarrow> client" where
  "with_deadline d c = c\<lparr>c_deadline := as_nanos d\<rparr>"

definition with_limits :: "frame_limits \<Rightarrow> client \<Rightarrow> client" where
  "with_limits l c = c\<lparr>c_limits := l\<rparr>"

text \<open>
  What one call meets: the clock at its start and before the connect, the results of connect,
  of the peer's credentials and of the shutdown, and the turns of the two loops. \<open>next_id\<close> is
  the process's request counter.
\<close>

record surroundings =
  on_macos :: bool
  own_uid :: u32
  process_id :: u32
  next_id :: u64
  started :: nat
  connecting :: nat
  connected :: "error_kind + unit"
  peer :: "error_kind + u32"
  writes :: "nat turn list"
  shut :: "error_kind + unit"
  reads :: "u8 list turn list"

record ('b, 'r, 'j) codec =
  encode_request :: "'b request \<Rightarrow> u8 list option"
  decode_response :: "u8 list \<Rightarrow> ('r, 'j) response option"

definition request_of :: "client \<Rightarrow> surroundings \<Rightarrow> 'b \<Rightarrow> 'b request" where
  "request_of c env body =
     \<lparr>rq_v = c_version c, rq_id = request_id (process_id env) (next_id env), rq_body = body\<rparr>"

definition accept_response :: "client \<Rightarrow> str \<Rightarrow> ('r, 'j) response \<Rightarrow> ('j, 'r) client_result" where
  "accept_response c sent_id r =
     (if rs_id r \<noteq> sent_id then Inl (Err InvalidFrame)
      else (case rs_outcome r of
        Outcome_Ok x \<Rightarrow>
          if major (rs_v r) \<noteq> major (c_version c) then Inl (Err InvalidFrame) else Inr x
      | Outcome_Err fault \<Rightarrow> Inl (Err (Remote fault))))"

text \<open>The result and the bytes sent.\<close>

definition call :: "('b, 'r, 'j) codec \<Rightarrow> client \<Rightarrow> surroundings \<Rightarrow> 'b \<Rightarrow>
    ('j, 'r) client_result \<times> u8 list" where
  "call j c env body = (let deadline = started env + c_deadline c;
       cap = max_frame_bytes (c_limits c); request = request_of c env body in
     (case encode_request j request of
        None \<Rightarrow> (Inl (Err Client_Encode), [])
      | Some encoded \<Rightarrow> (let frame = encoded @ [newline] in
          if length frame > unat cap then (Inl (Err FrameTooLarge), [])
          else (case left deadline (connecting env) of
            Inl e \<Rightarrow> (Inl (Err e), [])
          | Inr _ \<Rightarrow> (case connected env of
              Inl k \<Rightarrow> (Inl (Err (connect_error k)), [])
            | Inr _ \<Rightarrow> (case peer env of
                Inl k \<Rightarrow> (Inl (Err (io_error k)), [])
              | Inr u \<Rightarrow>
                  if \<not> trusted_listener (on_macos env) (own_uid env) u then (Inl (Err PeerMismatch), [])
                  else (case write_frame deadline frame (writes env) of
                    (Inl e, sent) \<Rightarrow> (Inl e, sent)
                  | (Inr _, sent) \<Rightarrow> (case shut env of
                      Inl k \<Rightarrow> (Inl (Err (io_error k)), sent)
                    | Inr _ \<Rightarrow> (case read_frame deadline cap [] (reads env) of
                        Inl e \<Rightarrow> (Inl e, sent)
                      | Inr line \<Rightarrow> (case decode_response j line of
                          None \<Rightarrow> (Inl (Err InvalidFrame), sent)
                        | Some r \<Rightarrow> (accept_response c (rq_id request) r, sent)))))))))))"

section \<open>What a frame is\<close>

text \<open>What the whole byte stream of a reply makes of \<open>read_frame\<close>, chunks forgotten.\<close>

definition frame_in :: "u64 \<Rightarrow> u8 list \<Rightarrow> ('j, u8 list) client_result option" where
  "frame_in cap bytes = (case position_of newline bytes of
     Some i \<Rightarrow> Some (if i \<ge> unat cap then Inl (Err FrameTooLarge) else Inr (take i bytes))
   | None \<Rightarrow> if length bytes \<ge> unat cap then Some (Inl (Err FrameTooLarge)) else None)"

definition at_end :: "u8 list \<Rightarrow> 'j client_error" where
  "at_end bytes = (if bytes = [] then Closed else InvalidFrame)"

text \<open>A turn that gives bytes in time.\<close>

definition gives :: "nat \<Rightarrow> u8 list turn \<Rightarrow> u8 list \<Rightarrow> bool" where
  "gives deadline t bs \<longleftrightarrow> t_now t < deadline \<and> t_set t = Inr () \<and> t_io t = Inr bs"

lemma position_of_append:
  "position_of b (xs @ ys) = (case position_of b xs of
     Some i \<Rightarrow> Some i | None \<Rightarrow> map_option (\<lambda>i. length xs + i) (position_of b ys))"
  by (induction xs; cases "position_of b ys") (auto split: option.split)

lemma position_of_less: "position_of b xs = Some i \<Longrightarrow> i < length xs"
  by (induction xs arbitrary: i) (auto split: if_splits)

lemma position_of_None: "position_of b xs = None \<longleftrightarrow> b \<notin> set xs"
  by (induction xs) auto

lemma position_of_Some: "position_of b xs = Some i \<Longrightarrow> xs ! i = b \<and> b \<notin> set (take i xs)"
  by (induction xs arbitrary: i) (auto split: if_splits)

lemma position_of_break: "b \<notin> set xs \<Longrightarrow> position_of b (xs @ b # ys) = Some (length xs)"
  by (induction xs) auto

text \<open>The chunks before the last, none empty, have no newline and stay under the cap.\<close>

lemma read_frame_chunks:
  fixes r :: "('j, u8 list) client_result"
  assumes "list_all2 (gives deadline) ts chunks" and "[] \<notin> set chunks"
    and "position_of newline frame = None" and "length frame < unat cap"
    and "frame_in cap (frame @ concat chunks) = Some r \<or>
      (frame_in cap (frame @ concat chunks) = (None :: ('j, u8 list) client_result option)
       \<and> r = read_frame deadline cap (frame @ concat chunks) rest)"
  shows "read_frame deadline cap frame (ts @ rest) = r"
  using assms
proof (induction ts arbitrary: chunks frame)
  case Nil
  then show ?case by (auto simp: frame_in_def)
next
  case (Cons t ts)
  then obtain c cs where ch: "chunks = c # cs" and t: "gives deadline t c"
    and ts: "list_all2 (gives deadline) ts cs" and ne: "c \<noteq> []" "[] \<notin> set cs"
    by (auto simp: list_all2_Cons1)
  show ?case
  proof (cases "position_of newline c")
    case (Some i)
    then have pos: "position_of newline (frame @ concat chunks) = Some (length frame + i)"
      using Cons.prems(3) by (simp add: ch position_of_append)
    from position_of_less [OF Some] have "take (length frame + i) (frame @ c) = take (length frame + i) (frame @ concat chunks)"
      by (simp add: ch)
    with pos Cons.prems(5) t Some ne show ?thesis
      by (auto simp: frame_in_def gives_def left_def Let_def ch)
  next
    case None
    then have pos: "position_of newline (frame @ c) = None"
      using Cons.prems(3) by (simp add: position_of_append)
    show ?thesis
    proof (cases "length (frame @ c) \<ge> unat cap")
      case True
      have "frame_in cap (frame @ concat chunks) = (Some (Inl (Err FrameTooLarge)) :: ('j, u8 list) client_result option)"
      proof -
        have "frame @ concat chunks = (frame @ c) @ concat cs" by (simp add: ch)
        with pos True show ?thesis
          by (cases "position_of newline (concat cs)")
            (simp_all add: frame_in_def position_of_append [of newline "frame @ c" "concat cs"] del: append_assoc)
      qed
      with Cons.prems(5) t None True ne show ?thesis
        by (auto simp: gives_def left_def Let_def)
    next
      case False
      from Cons.IH [OF ts ne(2) pos] False Cons.prems(5)
      have "read_frame deadline cap (frame @ c) (ts @ rest) = r" by (simp add: ch)
      with t None False ne show ?thesis
        by (auto simp: gives_def left_def Let_def)
    qed
  qed
qed

lemma read_frame_pending_append:
  assumes "deadline \<le> t_now t"
  shows "read_frame deadline cap frame (ts @ t # ts') =
    (case read_frame deadline cap frame ts of
       Inl Pending \<Rightarrow> Inl (Err Client_Timeout) | r \<Rightarrow> r)"
  using assms
  by (induction ts arbitrary: frame) (auto simp: left_def Let_def split: sum.splits option.splits)

lemma write_frame_prefix:
  fixes r :: "('j, unit) client_result"
  shows "write_frame deadline rest ts = (r, sent) \<Longrightarrow>
    (\<exists>k. sent = take k rest) \<and> (r = Inr () \<longrightarrow> sent = rest)"
proof (induction ts arbitrary: rest r sent)
  case Nil
  then show ?case
    by (subst (asm) write_frame.simps) (auto split: if_splits intro: exI [of _ 0])
next
  case (Cons t ts)
  show ?case
  proof (cases "rest = []")
    case True
    with Cons.prems show ?thesis by (subst (asm) write_frame.simps) auto
  next
    case False
    define r' where "r' = (\<lambda>k. fst (write_frame deadline (drop k rest) ts) :: ('j, unit) client_result)"
    define sent' where "sent' = (\<lambda>k. snd (write_frame deadline (drop k rest) ts
      :: ('j, unit) client_result \<times> u8 list))"
    have w: "write_frame deadline (drop k rest) ts = (r' k, sent' k)" for k
      by (simp add: r'_def sent'_def)
    consider (wrote) k where "k \<noteq> 0" "r = r' k" "sent = take k rest @ sent' k"
      | (again) "write_frame deadline rest ts = (r, sent)" | (stopped) "sent = []" "r \<noteq> Inr ()"
      using Cons.prems False w
      by (subst (asm) write_frame.simps) (auto split: sum.splits if_splits)
    then show ?thesis
    proof cases
      case wrote
      from Cons.IH [OF w] obtain j where "sent' k = take j (drop k rest)" "r' k = Inr () \<longrightarrow> sent' k = drop k rest"
        by blast
      moreover have "take k rest @ take j (drop k rest) = take (k + j) rest" by (rule take_add [symmetric])
      ultimately show ?thesis using wrote by auto
    next
      case again
      then show ?thesis by (rule Cons.IH)
    next
      case stopped
      then show ?thesis by (auto intro: exI [of _ 0])
    qed
  qed
qed

section \<open>Properties\<close>

text \<open>C35: The client's reply does not depend on how the socket cuts it into reads: whatever
  chunks arrive before the deadline, the result is the bytes up to the first newline of the
  whole stream when that newline lies under the cap, \<open>FrameTooLarge\<close> when the cap is
  reached first, and \<open>Closed\<close> or \<open>InvalidFrame\<close> when the daemon closes before either.\<close>

theorem reply_any_chunks:
  assumes "list_all2 (gives deadline) ts chunks" and "[] \<notin> set chunks" and "0 < unat cap"
    and "gives deadline eof []"
  shows "(read_frame deadline cap [] (ts @ eof # rest) :: ('j, u8 list) client_result) = (case frame_in cap (concat chunks) of
      Some r \<Rightarrow> r | None \<Rightarrow> Inl (Err (at_end (concat chunks))))"
proof (rule read_frame_chunks [OF assms(1,2), where rest = "eof # rest"])
  let ?r = "(case frame_in cap (concat chunks) of
      Some r \<Rightarrow> r | None \<Rightarrow> Inl (Err (at_end (concat chunks)))) :: ('j, u8 list) client_result"
  show "frame_in cap ([] @ concat chunks) = Some ?r \<or>
    (frame_in cap ([] @ concat chunks) = (None :: ('j, u8 list) client_result option) \<and>
      ?r = read_frame deadline cap ([] @ concat chunks) (eof # rest))"
    using assms(4) by (auto simp: gives_def left_def at_end_def split: option.split)
qed (use assms(3) in simp_all)

text \<open>The one deadline bounds the whole reply: once the clock of a turn has reached it, the
  call ends with \<open>Timeout\<close> unless an earlier turn ended it, and nothing that arrives later is
  looked at. A daemon that trickles bytes cannot stretch the deadline.\<close>

theorem reply_deadline:
  assumes "deadline \<le> t_now late"
  shows "read_frame deadline cap [] (ts @ late # later) =
    (case read_frame deadline cap [] ts of Inl Pending \<Rightarrow> Inl (Err Client_Timeout) | r \<Rightarrow> r)"
  using assms by (rule read_frame_pending_append)

text \<open>C33: A call sends nothing unless the frame fits the cap and a trusted user listens; what
  it sent is a prefix of the one request frame; and it succeeds only after the whole frame
  was sent, with a response that carries this request's id and this client's major.\<close>

theorem call_is_careful:
  fixes j :: "('b, 'r, 'j) codec"
  assumes "call j c env body = (r, sent)"
  defines "request \<equiv> request_of c env body"
  shows "(sent \<noteq> [] \<longrightarrow> (\<exists>encoded u. encode_request j request = Some encoded
        \<and> length encoded + 1 \<le> unat (max_frame_bytes (c_limits c))
        \<and> peer env = Inr u \<and> trusted_listener (on_macos env) (own_uid env) u
        \<and> (\<exists>k. sent = take k (encoded @ [newline]))))
    \<and> (\<forall>x. r = Inr x \<longrightarrow> (\<exists>encoded line resp. encode_request j request = Some encoded
        \<and> sent = encoded @ [newline] \<and> decode_response j line = Some resp
        \<and> rs_id resp = rq_id request \<and> major (rs_v resp) = major (c_version c)
        \<and> rs_outcome resp = Outcome_Ok x))"
proof (cases "encode_request j request")
  case None
  with assms(1) show ?thesis by (auto simp: call_def Let_def request_def)
next
  case (Some encoded)
  obtain wr ws where w: "write_frame (started env + c_deadline c) (encoded @ [newline]) (writes env)
      = (wr :: ('j, unit) client_result, ws)"
    by (cases "write_frame (started env + c_deadline c) (encoded @ [newline]) (writes env)
      :: ('j, unit) client_result \<times> u8 list")
  from write_frame_prefix [OF w] obtain k where k: "ws = take k (encoded @ [newline])"
    and all: "wr = Inr () \<longrightarrow> ws = encoded @ [newline]" by blast
  from assms(1) Some w k all show ?thesis
    unfolding call_def Let_def request_def
    by (auto simp: accept_response_def split: if_splits sum.splits option.splits outcome.splits)
qed

text \<open>Request ids never repeat within a process: two ids are equal only for the same
  process and the same value of the counter.\<close>

theorem request_ids_differ: "request_id pid n = request_id pid' n' \<longleftrightarrow> pid = pid' \<and> n = n'"
proof
  assume "request_id pid n = request_id pid' n'"
  then have e: "lower_hex (unat pid) @ CHR ''-'' # lower_hex (unat n) =
      lower_hex (unat pid') @ CHR ''-'' # lower_hex (unat n')"
    by (simp add: request_id_def)
  have "takeWhile (\<lambda>c. c \<noteq> CHR ''-'') (lower_hex a @ CHR ''-'' # xs) = lower_hex a" for a xs
    using no_dash_in_hex [of a] by (subst takeWhile_append2) auto
  with e have h: "lower_hex (unat pid) = lower_hex (unat pid')" by metis
  with e have "lower_hex (unat n) = lower_hex (unat n')" by simp
  with h show "pid = pid' \<and> n = n'" by (auto dest!: lower_hex_inj simp: word_unat_eq_iff)
qed simp

end
