(* ===== verification/Server.thy ===== *)
theory Server
  imports Client
begin

text \<open>
  One connection on the daemon's side (\<open>crates/unixd/src/server.rs\<close>). The handler, its
  request decoder and its error's parts are arguments, and so are what is not under src/:
  \<open>serde_json\<close>, and the \<open>LinesCodec\<close> of \<open>tokio_util\<close> read through \<open>FramedRead\<close>, given as the
  first line it decodes from the bytes the limited reader can give. A \<open>connection\<close> is what
  the socket does: the peer, the bytes that arrive, and whether the two timeouts expire.
\<close>

section \<open>Handlers\<close>

text \<open>\<open>Failure\<close>: what goes on the wire of a handler's error.\<close>

record ('e, 'j) failure_parts =
  code_of :: "'e \<Rightarrow> str"
  retryable_of :: "'e \<Rightarrow> bool"
  details_of :: "'e \<Rightarrow> 'j option"
  display_of :: "'e \<Rightarrow> str"

text \<open>
  \<open>handle\<close> may change the daemon's state \<open>'s\<close>. \<open>decode_body\<close> is \<open>serde_json::from_value\<close> for
  the handler's request type, and \<open>json_numbers\<close> the \<open>json!\<close> object of named numbers.
\<close>

record ('s, 'q, 'r, 'e, 'j) handler =
  handle :: "'q \<Rightarrow> 's \<Rightarrow> ('e + 'r) \<times> 's"
  failure_of :: "('e, 'j) failure_parts"
  decode_body :: "'j \<Rightarrow> 'q option"
  json_numbers :: "(str \<times> nat) list \<Rightarrow> 'j"

definition unsupported_version :: "((str \<times> nat) list \<Rightarrow> 'j) \<Rightarrow> version \<Rightarrow> version \<Rightarrow> 'j fault" where
  "unsupported_version numbers version sent = \<lparr>
     f_code = ''unsupported_version'',
     f_message = ''this server speaks major version '' @ decimal (unat (major version))
       @ '', not '' @ decimal (unat (major sent)),
     f_retryable = False,
     f_details = Some (numbers [(''requested_major'', unat (major sent)),
       (''supported_major'', unat (major version))])\<rparr>"

definition invalid_request :: "'j fault" where
  "invalid_request = \<lparr>
     f_code = ''invalid_request'',
     f_message = ''the request body is not one this server answers'',
     f_retryable = False,
     f_details = None\<rparr>"

definition fault_of :: "('e, 'j) failure_parts \<Rightarrow> 'e \<Rightarrow> 'j fault" where
  "fault_of parts e = \<lparr>f_code = code_of parts e, f_message = display_of parts e,
     f_retryable = retryable_of parts e, f_details = details_of parts e\<rparr>"

definition respond :: "('s, 'q, 'r, 'e, 'j) handler \<Rightarrow> version \<Rightarrow> version \<Rightarrow> 'j \<Rightarrow> 's \<Rightarrow>
    ('r, 'j) outcome \<times> 's" where
  "respond h version sent body s =
     (if major sent \<noteq> major version
      then (Outcome_Err (unsupported_version (json_numbers h) version sent), s)
      else (case decode_body h body of
        None \<Rightarrow> (Outcome_Err invalid_request, s)
      | Some request \<Rightarrow> (case handle h request s of
          (Inr response, s') \<Rightarrow> (Outcome_Ok response, s')
        | (Inl e, s') \<Rightarrow> (Outcome_Err (fault_of (failure_of h) e), s'))))"

section \<open>Connections\<close>

text \<open>
  \<open>decode_line max bytes\<close>: the first item of a \<open>FramedRead\<close> over a reader of \<open>bytes\<close> with a
  \<open>LinesCodec\<close> of maximal length \<open>max\<close>: none at the end, an error, or a line.
\<close>

record ('r, 'j) server_codec =
  decode_line :: "u64 \<Rightarrow> u8 list \<Rightarrow> (unit + str) option"
  decode_request :: "str \<Rightarrow> 'j request option"
  encode_response :: "('r, 'j) response \<Rightarrow> u8 list option"

record connection =
  cn_peer :: "error_kind + u32"
  cn_in :: "u8 list"
  cn_read_in_time :: bool
  cn_write_in_time :: bool

definition server_read_frame :: "('r, 'j) server_codec \<Rightarrow> u64 \<Rightarrow> u8 list \<Rightarrow> str option" where
  "server_read_frame j cap bytes = (let limited = take (unat cap) bytes in
     (case decode_line j (saturating_sub cap 1) limited of
        Some (Inr line) \<Rightarrow> Some line
      | _ \<Rightarrow> None))"

text \<open>The whole frame written to the connection, if one is, and the daemon's new state.\<close>

definition serve_as :: "('r, 'j) server_codec \<Rightarrow> ('s, 'q, 'r, 'e, 'j) handler \<Rightarrow> version \<Rightarrow>
    frame_limits \<Rightarrow> u32 \<Rightarrow> connection \<Rightarrow> 's \<Rightarrow> u8 list option \<times> 's" where
  "serve_as j h version lims u cn s =
     (if cn_peer cn \<noteq> Inr u then (None, s)
      else (case (if cn_read_in_time cn then server_read_frame j (max_frame_bytes lims) (cn_in cn) else None) of
        None \<Rightarrow> (None, s)
      | Some line \<Rightarrow> (case decode_request j line of
          None \<Rightarrow> (None, s)
        | Some request \<Rightarrow> (case respond h version (rq_v request) (rq_body request) s of
            (outcome, s') \<Rightarrow>
              (case encode_response j \<lparr>rs_v = version, rs_id = rq_id request, rs_outcome = outcome\<rparr> of
                 None \<Rightarrow> (None, s')
               | Some frame \<Rightarrow>
                   (if cn_write_in_time cn then Some (frame @ [newline]) else None, s'))))))"

definition serve_connection :: "('r, 'j) server_codec \<Rightarrow> ('s, 'q, 'r, 'e, 'j) handler \<Rightarrow> version \<Rightarrow>
    frame_limits \<Rightarrow> u32 \<Rightarrow> connection \<Rightarrow> 's \<Rightarrow> u8 list option \<times> 's" where
  "serve_connection j h version lims own cn s = serve_as j h version lims own cn s"

section \<open>Properties\<close>

text \<open>C36: The daemon answers nobody else and nothing malformed: the handler runs, or a byte is
  written, only for a peer running as the daemon's own user whose whole frame arrived in
  time and parsed as a request; and the handler runs only for a request of the daemon's own
  major whose body its request type decodes. In every other case its state is untouched.\<close>

theorem server_is_careful:
  assumes "serve_connection j h v lims own cn s = (reply, s')"
    and "reply \<noteq> None \<or> s' \<noteq> s"
  shows "cn_peer cn = Inr own \<and> cn_read_in_time cn
    \<and> (\<exists>line request. server_read_frame j (max_frame_bytes lims) (cn_in cn) = Some line
        \<and> decode_request j line = Some request
        \<and> (s' \<noteq> s \<longrightarrow> major (rq_v request) = major v \<and> decode_body h (rq_body request) \<noteq> None))"
  using assms
  by (auto simp: serve_connection_def serve_as_def respond_def
      split: if_splits option.splits prod.splits sum.splits)

text \<open>A reply carries the id of the request it answers and the daemon's own version, and its
  outcome is the handler's, or one of the daemon's two own codes: \<open>unsupported_version\<close> for
  another major, whatever the body, and \<open>invalid_request\<close> for a body of this major that the
  request type does not decode.\<close>

theorem server_reply:
  assumes "serve_connection j h v lims own cn s = (Some bytes, s')"
    and "server_read_frame j (max_frame_bytes lims) (cn_in cn) = Some line"
    and "decode_request j line = Some request"
  shows "\<exists>outcome frame. encode_response j \<lparr>rs_v = v, rs_id = rq_id request, rs_outcome = outcome\<rparr> = Some frame
    \<and> bytes = frame @ [newline]
    \<and> (if major (rq_v request) \<noteq> major v
       then outcome = Outcome_Err (unsupported_version (json_numbers h) v (rq_v request)) \<and> s' = s
       else (case decode_body h (rq_body request) of
         None \<Rightarrow> outcome = Outcome_Err invalid_request \<and> s' = s
       | Some q \<Rightarrow> (case handle h q s of
           (Inr r, t) \<Rightarrow> outcome = Outcome_Ok r \<and> s' = t
         | (Inl e, t) \<Rightarrow> outcome = Outcome_Err (fault_of (failure_of h) e) \<and> s' = t)))"
  using assms
  by (auto simp: serve_connection_def serve_as_def respond_def
      split: if_splits option.splits prod.splits sum.splits)

section \<open>A client and a server\<close>

text \<open>
  What both sides rely on: the two JSON encodings read back what was written, whatever bytes
  they are. The compact JSON of a request or response has no newline in it; it is UTF-8 and
  ends in a brace, so \<open>LinesCodec\<close>, which drops a newline and a carriage return before it,
  gives such a line as it is when it is not longer than the limit.
\<close>

definition line_of :: "u8 list \<Rightarrow> str" where
  "line_of bytes = map (\<lambda>b. char_of (unat b)) bytes"

definition codecs_agree :: "('j request \<Rightarrow> u8 list option) \<Rightarrow> (u8 list \<Rightarrow> ('r, 'j) response option) \<Rightarrow>
    ('r, 'j) server_codec \<Rightarrow> bool" where
  "codecs_agree encode decode j \<longleftrightarrow>
     (\<forall>rq bytes. encode rq = Some bytes \<longrightarrow> newline \<notin> set bytes \<and> decode_request j (line_of bytes) = Some rq)
     \<and> (\<forall>rs bytes. encode_response j rs = Some bytes \<longrightarrow> newline \<notin> set bytes \<and> decode bytes = Some rs)
     \<and> (\<forall>rq cap bytes. encode rq = Some bytes \<longrightarrow> length bytes \<le> unat cap \<longrightarrow>
          decode_line j cap (bytes @ [newline]) = Some (Inr (line_of bytes)))"


section \<open>A sample exchange\<close>

text \<open>A concrete call, with an encoding of one request and one response, for the witnesses.\<close>

definition sample_version :: version where
  "sample_version = \<lparr>major = 1, minor = 0\<rparr>"

definition sample_client :: client where
  "sample_client = \<lparr>c_version = sample_version, c_limits = default_frame_limits, c_deadline = 10\<rparr>"

definition sample_turn :: "'a \<Rightarrow> 'a turn" where
  "sample_turn x = \<lparr>t_now = 0, t_set = Inr (), t_io = Inr x\<rparr>"

definition sample_surroundings :: surroundings where
  "sample_surroundings = \<lparr>on_macos = False, own_uid = 7, process_id = 1, next_id = 0, started = 0,
     connecting = 0, connected = Inr (), peer = Inr 7, writes = [sample_turn 2], shut = Inr (),
     reads = [sample_turn [2], sample_turn [newline]]\<rparr>"

definition sample_request :: "nat request" where
  "sample_request = request_of sample_client sample_surroundings 5"

definition sample_response :: "(nat, nat) response" where
  "sample_response = \<lparr>rs_v = sample_version, rs_id = rq_id sample_request, rs_outcome = Outcome_Ok 6\<rparr>"

definition sample_encode :: "nat request \<Rightarrow> u8 list option" where
  "sample_encode rq = (if rq = sample_request then Some [1] else None)"

definition sample_decode :: "u8 list \<Rightarrow> (nat, nat) response option" where
  "sample_decode bytes = (if bytes = [2] then Some sample_response else None)"

definition sample_server_codec :: "(nat, nat) server_codec" where
  "sample_server_codec = \<lparr>
     decode_line = (\<lambda>cap bytes. Some (Inr (line_of (takeWhile (\<lambda>b. b \<noteq> newline) bytes)))),
     decode_request = (\<lambda>line. if line = line_of [1] then Some sample_request else None),
     encode_response = (\<lambda>rs. if rs = sample_response then Some [2] else None)\<rparr>"

definition sample_handler :: "(nat, nat, nat, unit, nat) handler" where
  "sample_handler = \<lparr>handle = (\<lambda>q s. (Inr (q + 1), s + 1)),
     failure_of = \<lparr>code_of = (\<lambda>_. ''failed''), retryable_of = (\<lambda>_. False), details_of = (\<lambda>_. None),
       display_of = (\<lambda>_. ''the handler failed'')\<rparr>,
     decode_body = Some, json_numbers = (\<lambda>_. 0)\<rparr>"

definition sample_connection :: connection where
  "sample_connection = \<lparr>cn_peer = Inr 7, cn_in = [1, newline], cn_read_in_time = True, cn_write_in_time = True\<rparr>"

lemmas sample_defs = sample_version_def sample_client_def sample_turn_def sample_surroundings_def
  sample_request_def sample_response_def sample_encode_def sample_decode_def sample_server_codec_def
  sample_handler_def sample_connection_def default_frame_limits_def newline_def

lemma sample_codecs: "codecs_agree sample_encode sample_decode sample_server_codec"
  by (simp add: codecs_agree_def sample_encode_def sample_decode_def sample_server_codec_def newline_def
      split: if_splits)

lemma sample_served: "serve_connection sample_server_codec sample_handler sample_version default_frame_limits 7
    sample_connection s = (Some [2, newline], s + 1)"
  by (simp add: serve_connection_def serve_as_def respond_def server_read_frame_def sample_server_codec_def
      sample_connection_def sample_handler_def sample_response_def sample_request_def request_of_def
      sample_client_def sample_version_def default_frame_limits_def newline_def Let_def)

lemma server_is_careful_witness:
  "cn_peer sample_connection = Inr 7 \<and> (\<exists>line. server_read_frame sample_server_codec
     (max_frame_bytes default_frame_limits) (cn_in sample_connection) = Some line)"
  using server_is_careful [OF sample_served [of 0]] by auto

lemma server_reply_witness:
  "\<exists>frame. encode_response sample_server_codec sample_response = Some frame \<and> [2, newline] = frame @ [newline]"
  using server_reply [OF sample_served [of 0], of "line_of [1]" sample_request]
  by (auto simp: sample_server_codec_def sample_connection_def server_read_frame_def newline_def
      default_frame_limits_def)

lemma sample_writes: "write_frame (started sample_surroundings + c_deadline sample_client) ([1] @ [newline])
    (writes sample_surroundings) = (Inr () :: (nat, unit) client_result, [1] @ [newline])"
  by (simp add: sample_surroundings_def sample_client_def sample_turn_def write_frame.simps left_def)

lemma sample_call: "call \<lparr>encode_request = sample_encode, decode_response = sample_decode\<rparr> sample_client
    sample_surroundings 5 = (Inr 6, [1, newline])"
  by (simp add: call_def Let_def sample_writes [simplified] sample_encode_def sample_request_def [symmetric])
     (simp add: sample_surroundings_def sample_client_def sample_turn_def left_def trusted_listener_def
       default_frame_limits_def newline_def write_frame.simps sample_decode_def accept_response_def
       sample_response_def sample_version_def)


lemma call_is_careful_witness:
  "\<exists>encoded. sample_encode sample_request = Some encoded \<and> [1, newline] = encoded @ [newline]"
  using call_is_careful [OF sample_call] by (auto simp: sample_request_def)

lemma reply_any_chunks_witness:
  "read_frame 10 5 [] [sample_turn [1], sample_turn [2, newline], sample_turn []] =
    (Inr [1, 2] :: (nat, u8 list) client_result)"
proof -
  have "list_all2 (gives 10) [sample_turn [1], sample_turn [2, newline]] [[1], [2, newline]]"
    and "gives 10 (sample_turn []) []"
    by (simp_all add: gives_def sample_turn_def)
  from reply_any_chunks [OF this(1) _ _ this(2), of 5 "[]", where 'j = nat] show ?thesis
    by (simp add: frame_in_def newline_def)
qed

lemma reply_deadline_witness:
  "read_frame 10 5 [] ([sample_turn [1]] @ \<lparr>t_now = 10, t_set = Inr (), t_io = Inr [newline]\<rparr> # []) =
    (Inl (Err Client_Timeout) :: (nat, u8 list) client_result)"
  using reply_deadline [of 10 "\<lparr>t_now = 10, t_set = Inr (), t_io = Inr [newline]\<rparr>" 5 "[sample_turn [1]]" "[]",
      where 'a = nat]
  by (simp add: sample_turn_def left_def newline_def)

end
