(* ===== verification/Serve.thy ===== *)
theory Serve
  imports Transitions
begin

text \<open>
  \<open>serve_listener\<close> (\<open>crates/unixd/src/serve.rs\<close>) as a deterministic machine over events: one
  event per branch of the accept loop's \<open>select!\<close>, per atomic action of a connection's task
  (\<open>fetch_sub\<close> and \<open>notify_one\<close> are separate), and per step of the drain. \<open>Notify\<close> keeps at
  most one permit. Time is counted in ticks, a duration is a number of them. A sequence of
  events that the code cannot have runs to \<open>None\<close>.
\<close>

section \<open>State\<close>

record lifecycle =
  idle_timeout :: nat
  drain_timeout :: nat

text \<open>\<open>Default for Lifecycle\<close>, in seconds.\<close>

definition default_lifecycle :: lifecycle where
  "default_lifecycle = \<lparr>idle_timeout = 10 * 60, drain_timeout = 5\<rparr>"

datatype reason = Idle | Asked | Terminate | Interrupt | Accept_failed

datatype phase =
    Accepting
  | Draining reason nat   \<comment> \<open>since\<close>
  | Cutting reason nat    \<comment> \<open>draining since\<close>
  | Returned reason

datatype idle_future =
    Unpolled              \<comment> \<open>made by this turn of the loop, not polled yet\<close>
  | Armed nat             \<comment> \<open>sleeps until\<close>
  | Off                   \<comment> \<open>pending for ever\<close>

datatype task =
    Serving               \<comment> \<open>in the inner \<open>select!\<close>\<close>
  | Over                  \<comment> \<open>served or cut, still counted in \<open>open\<close>\<close>
  | Uncounted             \<comment> \<open>\<open>fetch_sub\<close> done, \<open>notify_one\<close> not\<close>
  | Gone
  | Lost                  \<comment> \<open>unwound by a panic of the handler\<close>

record daemon =
  phase :: phase
  idle :: idle_future
  open_count :: nat
  permit :: bool
  tasks :: "task list"
  cut :: bool
  now :: nat
  busy_until :: nat       \<comment> \<open>ghost: when a connection last began or ended\<close>

definition listening :: "nat \<Rightarrow> daemon" where
  "listening t = \<lparr>phase = Accepting, idle = Unpolled, open_count = 0, permit = False, tasks = [],
     cut = False, now = t, busy_until = t\<rparr>"

section \<open>Steps\<close>

datatype event =
    Tick
  | Poll_idle
  | Accept
  | Accept_aborted
  | Accept_error
  | Closed
  | Idle_over
  | Stop reason
  | Served nat
  | Cut_off nat
  | Panic nat
  | Fetch_sub nat
  | Notify_one nat
  | Drained
  | Drain_over
  | Cut_done

definition ended :: "task \<Rightarrow> bool" where
  "ended t \<longleftrightarrow> t = Gone \<or> t = Lost"

definition break_with :: "reason \<Rightarrow> daemon \<Rightarrow> daemon" where
  "break_with r s = s\<lparr>phase := Draining r (now s)\<rparr>"

definition task_is :: "task \<Rightarrow> nat \<Rightarrow> daemon \<Rightarrow> bool" where
  "task_is t i s \<longleftrightarrow> i < length (tasks s) \<and> tasks s ! i = t"

definition set_task :: "nat \<Rightarrow> task \<Rightarrow> daemon \<Rightarrow> daemon" where
  "set_task i t s = s\<lparr>tasks := (tasks s)[i := t]\<rparr>"

definition when_accepting :: "bool \<Rightarrow> daemon \<Rightarrow> daemon \<Rightarrow> daemon option" where
  "when_accepting b s s' = (if phase s = Accepting \<and> b then Some s' else None)"

fun serve_step :: "lifecycle \<Rightarrow> event \<Rightarrow> daemon \<Rightarrow> daemon option" where
  "serve_step lc Tick s = Some (s\<lparr>now := Suc (now s)\<rparr>)"
| "serve_step lc Poll_idle s = when_accepting (idle s = Unpolled) s
     (s\<lparr>idle := (if open_count s = 0 \<and> idle_timeout lc \<noteq> 0 then Armed (now s + idle_timeout lc) else Off)\<rparr>)"
| "serve_step lc Accept s = when_accepting True s (s\<lparr>idle := Unpolled, open_count := open_count s + 1,
     tasks := tasks s @ [Serving], busy_until := now s\<rparr>)"
| "serve_step lc Accept_aborted s = when_accepting True s (s\<lparr>idle := Unpolled\<rparr>)"
| "serve_step lc Accept_error s = when_accepting True s (break_with Accept_failed s)"
| "serve_step lc Closed s = when_accepting (permit s) s (s\<lparr>idle := Unpolled, permit := False\<rparr>)"
| "serve_step lc Idle_over s =
     when_accepting (case idle s of Armed d \<Rightarrow> d \<le> now s | _ \<Rightarrow> False) s (break_with Idle s)"
| "serve_step lc (Stop r) s = when_accepting (r \<in> {Asked, Terminate, Interrupt}) s (break_with r s)"
| "serve_step lc (Served i) s = (if task_is Serving i s then Some (set_task i Over s) else None)"
| "serve_step lc (Cut_off i) s = (if task_is Serving i s \<and> cut s then Some (set_task i Over s) else None)"
| "serve_step lc (Panic i) s = (if task_is Serving i s then Some (set_task i Lost s) else None)"
| "serve_step lc (Fetch_sub i) s = (if task_is Over i s
     then Some ((set_task i Uncounted s)\<lparr>open_count := open_count s - 1, busy_until := now s\<rparr>) else None)"
| "serve_step lc (Notify_one i) s = (if task_is Uncounted i s
     then Some ((set_task i Gone s)\<lparr>permit := True\<rparr>) else None)"
| "serve_step lc Drained s = (case phase s of
     Draining r _ \<Rightarrow> if list_all ended (tasks s) then Some (s\<lparr>phase := Returned r\<rparr>) else None
   | _ \<Rightarrow> None)"
| "serve_step lc Drain_over s = (case phase s of
     Draining r t \<Rightarrow> if t + drain_timeout lc \<le> now s \<and> \<not> list_all ended (tasks s)
       then Some (s\<lparr>phase := Cutting r t, cut := True\<rparr>) else None
   | _ \<Rightarrow> None)"
| "serve_step lc Cut_done s = (case phase s of
     Cutting r _ \<Rightarrow> if list_all ended (tasks s) then Some (s\<lparr>phase := Returned r\<rparr>) else None
   | _ \<Rightarrow> None)"

primrec serve_run :: "lifecycle \<Rightarrow> event list \<Rightarrow> daemon \<Rightarrow> daemon option" where
  "serve_run lc [] s = Some s"
| "serve_run lc (e # es) s = (case serve_step lc e s of None \<Rightarrow> None | Some s' \<Rightarrow> serve_run lc es s')"

text \<open>The result of \<open>serve_listener\<close>: an error only when accepting failed.\<close>

fun result_of :: "phase \<Rightarrow> (reason, unit) sum option" where
  "result_of (Returned Accept_failed) = Some (Inl Accept_failed)"
| "result_of (Returned _) = Some (Inr ())"
| "result_of _ = None"

section \<open>The invariant\<close>

definition counted :: "task \<Rightarrow> bool" where
  "counted t \<longleftrightarrow> t = Serving \<or> t = Over \<or> t = Lost"

lemma length_filter_list_update:
  "i < length xs \<Longrightarrow> length (filter P (xs[i := x])) + (if P (xs ! i) then 1 else 0)
     = length (filter P xs) + (if P x then 1 else 0)"
proof (induction xs arbitrary: i)
  case (Cons a xs)
  then show ?case
  proof (cases i)
    case (Suc j)
    with Cons.IH [of j] Cons.prems show ?thesis by simp
  qed simp
qed simp

definition idle_ok :: "lifecycle \<Rightarrow> daemon \<Rightarrow> bool" where
  "idle_ok lc s \<longleftrightarrow> (case idle s of
     Unpolled \<Rightarrow> True
   | Armed d \<Rightarrow> open_count s = 0 \<and> idle_timeout lc \<noteq> 0 \<and> busy_until s + idle_timeout lc \<le> d
   | Off \<Rightarrow> open_count s \<noteq> 0 \<or> idle_timeout lc = 0 \<or> permit s \<or> Uncounted \<in> set (tasks s))"

definition phase_ok :: "lifecycle \<Rightarrow> daemon \<Rightarrow> bool" where
  "phase_ok lc s \<longleftrightarrow> (case phase s of
     Accepting \<Rightarrow> \<not> cut s \<and> idle_ok lc s
   | Draining r t \<Rightarrow> \<not> cut s \<and> t \<le> now s \<and> (r = Idle \<longrightarrow> idle_timeout lc \<noteq> 0)
   | Cutting r t \<Rightarrow> cut s \<and> t + drain_timeout lc \<le> now s \<and> (r = Idle \<longrightarrow> idle_timeout lc \<noteq> 0)
   | Returned r \<Rightarrow> list_all ended (tasks s) \<and> (r = Idle \<longrightarrow> idle_timeout lc \<noteq> 0))"

definition daemon_ok :: "lifecycle \<Rightarrow> daemon \<Rightarrow> bool" where
  "daemon_ok lc s \<longleftrightarrow> open_count s = length (filter counted (tasks s)) \<and> busy_until s \<le> now s \<and> phase_ok lc s"

lemma open_no_counted: "open_count s = length (filter counted (tasks s)) \<Longrightarrow> open_count s = 0 \<Longrightarrow>
    t \<in> set (tasks s) \<Longrightarrow> \<not> counted t"
  by (simp add: filter_empty_conv)

lemma set_task_simps [simp]:
  "phase (set_task i t s) = phase s" "idle (set_task i t s) = idle s"
  "open_count (set_task i t s) = open_count s" "permit (set_task i t s) = permit s"
  "tasks (set_task i t s) = (tasks s)[i := t]" "cut (set_task i t s) = cut s"
  "now (set_task i t s) = now s" "busy_until (set_task i t s) = busy_until s"
  by (simp_all add: set_task_def)

lemma task_is_D: "task_is t i s \<Longrightarrow> i < length (tasks s)" "task_is t i s \<Longrightarrow> tasks s ! i = t"
    "task_is t i s \<Longrightarrow> t \<in> set (tasks s)"
  by (auto simp: task_is_def)

lemma Uncounted_stays: "Uncounted \<in> set xs \<Longrightarrow> i < length xs \<Longrightarrow> xs ! i \<noteq> Uncounted \<Longrightarrow> Uncounted \<in> set (xs[i := t])"
  by (metis in_set_conv_nth length_list_update nth_list_update_neq)

lemma not_all_ended: "task_is t i s \<Longrightarrow> \<not> ended t \<Longrightarrow> \<not> list_all ended (tasks s)"
  by (auto simp: task_is_def list_all_length)


lemma open_positive:
  assumes "task_is t i s" and "open_count s = length (filter counted (tasks s))" and "counted t"
  shows "0 < open_count s"
  using open_no_counted [OF assms(2) _ task_is_D(3) [OF assms(1)]] assms(3) by blast

lemma set_task_open:
  assumes "task_is t i s" and "open_count s = length (filter counted (tasks s))"
  shows "length (filter counted ((tasks s)[i := t'])) =
    (if counted t then open_count s - 1 else open_count s) + (if counted t' then 1 else 0)"
  using length_filter_list_update [of i "tasks s" counted t'] task_is_D [OF assms(1)] assms(2)
    open_positive [OF assms]
  by (cases "counted t"; cases "counted t'") simp_all

text \<open>A task step leaves the loop's state alone; it keeps the invariant when it keeps the count
  and, where the count falls, leaves a notification on its way.\<close>

lemma task_step_ok:
  assumes ok: "daemon_ok lc s" and t: "task_is t i s" "counted t" "\<not> ended t" "counted t'"
  shows "daemon_ok lc (set_task i t' s)"
proof -
  from ok have open_eq: "open_count s = length (filter counted (tasks s))" by (simp add: daemon_ok_def)
  have pos: "0 < open_count s" using t(1) open_eq t(2) by (rule open_positive)
  have "length (filter counted ((tasks s)[i := t'])) = open_count s - 1 + 1"
    using set_task_open [OF t(1) open_eq, of t'] t by simp
  with pos have same: "length (filter counted ((tasks s)[i := t'])) = open_count s" by simp
  have "Uncounted \<in> set ((tasks s)[i := t'])" if "Uncounted \<in> set (tasks s)"
    using that t by (intro Uncounted_stays) (auto simp: task_is_def counted_def)
  moreover have "\<not> list_all ended (tasks s)" using t(1) t(3) by (rule not_all_ended)
  ultimately show ?thesis
    using ok same pos by (auto simp: daemon_ok_def phase_ok_def idle_ok_def split: phase.splits idle_future.splits)
qed

lemma fetch_sub_ok:
  assumes ok: "daemon_ok lc s" and t: "task_is Over i s"
  shows "daemon_ok lc ((set_task i Uncounted s)\<lparr>open_count := open_count s - 1, busy_until := now s\<rparr>)"
proof -
  from ok have open_eq: "open_count s = length (filter counted (tasks s))" by (simp add: daemon_ok_def)
  have pos: "0 < open_count s" using t open_eq by (rule open_positive) (simp add: counted_def)
  have "length (filter counted ((tasks s)[i := Uncounted])) = open_count s - 1"
    using set_task_open [OF t open_eq, of Uncounted] by (simp add: counted_def)
  moreover have "Uncounted \<in> set ((tasks s)[i := Uncounted])" using t by (auto simp: task_is_def intro: set_update_memI)
  moreover have "\<not> list_all ended (tasks s)" using t by (rule not_all_ended) (simp add: ended_def)
  ultimately show ?thesis
    using ok pos by (auto simp: daemon_ok_def phase_ok_def idle_ok_def split: phase.splits idle_future.splits)
qed

lemma notify_one_ok:
  assumes ok: "daemon_ok lc s" and t: "task_is Uncounted i s"
  shows "daemon_ok lc ((set_task i Gone s)\<lparr>permit := True\<rparr>)"
proof -
  from ok have open_eq: "open_count s = length (filter counted (tasks s))" by (simp add: daemon_ok_def)
  have "length (filter counted ((tasks s)[i := Gone])) = open_count s"
    using set_task_open [OF t open_eq, of Gone] by (simp add: counted_def)
  moreover have "\<not> list_all ended (tasks s)" using t by (rule not_all_ended) (simp add: ended_def)
  ultimately show ?thesis
    using ok by (auto simp: daemon_ok_def phase_ok_def idle_ok_def split: phase.splits idle_future.splits)
qed

lemma break_with_ok:
  assumes "daemon_ok lc s" and "phase s = Accepting" and "r = Idle \<longrightarrow> idle_timeout lc \<noteq> 0"
  shows "daemon_ok lc (break_with r s)"
  using assms by (simp add: daemon_ok_def phase_ok_def break_with_def)

lemma loop_step_ok:
  assumes "daemon_ok lc s"
  shows "daemon_ok lc (s\<lparr>now := Suc (now s)\<rparr>)"
    and "phase s = Accepting \<Longrightarrow> daemon_ok lc (s\<lparr>idle := Unpolled\<rparr>)"
    and "phase s = Accepting \<Longrightarrow> daemon_ok lc (s\<lparr>idle := Unpolled, permit := False\<rparr>)"
    and "phase s = Accepting \<Longrightarrow> daemon_ok lc (s\<lparr>idle := Unpolled, open_count := open_count s + 1,
      tasks := tasks s @ [Serving], busy_until := now s\<rparr>)"
    and "phase s = Accepting \<Longrightarrow> daemon_ok lc (s\<lparr>idle :=
      (if open_count s = 0 \<and> idle_timeout lc \<noteq> 0 then Armed (now s + idle_timeout lc) else Off)\<rparr>)"
  using assms by (auto simp: daemon_ok_def phase_ok_def idle_ok_def counted_def split: phase.splits idle_future.splits)

lemmas serve_step_ok_rules = task_step_ok fetch_sub_ok notify_one_ok break_with_ok loop_step_ok

lemma serve_step_ok: "serve_step lc e s = Some s' \<Longrightarrow> daemon_ok lc s \<Longrightarrow> daemon_ok lc s'"
proof (induction lc e s rule: serve_step.induct)
  case (2 lc s)
  then have "phase s = Accepting" and s': "s' = s\<lparr>idle :=
    (if open_count s = 0 \<and> idle_timeout lc \<noteq> 0 then Armed (now s + idle_timeout lc) else Off)\<rparr>"
    by (auto simp: when_accepting_def split: if_split_asm)
  then show ?case unfolding s' using 2(2) by (intro loop_step_ok(5))
next
  case (7 lc s)
  then have "idle_timeout lc \<noteq> 0"
    by (auto simp: when_accepting_def daemon_ok_def phase_ok_def idle_ok_def split: if_splits idle_future.splits)
  with 7 show ?case by (auto simp: when_accepting_def split: if_splits intro: break_with_ok)
next
  case (14 lc s)
  then show ?case by (cases "phase s") (auto simp: daemon_ok_def phase_ok_def split: if_split_asm)
next
  case (15 lc s)
  then show ?case by (cases "phase s") (auto simp: daemon_ok_def phase_ok_def split: if_split_asm)
next
  case (16 lc s)
  then show ?case by (cases "phase s") (auto simp: daemon_ok_def phase_ok_def split: if_split_asm)
next
  case (8 lc r s)
  then show ?case by (auto simp: when_accepting_def split: if_splits intro!: break_with_ok)
qed (auto simp: when_accepting_def counted_def ended_def split: if_splits simp del: One_nat_def
       intro: serve_step_ok_rules)

lemma listening_ok: "daemon_ok lc (listening t)"
  by (simp add: listening_def daemon_ok_def phase_ok_def idle_ok_def)

interpretation accept_loop: guarded "\<lambda>s. \<exists>t. s = listening t" "\<lambda>s s'. \<exists>e. serve_step lc e s = Some s'"
    "daemon_ok lc" for lc
  by unfold_locales (auto intro: listening_ok serve_step_ok)

lemma serve_run_reachable:
  "serve_run lc es s = Some s' \<Longrightarrow> reachable (\<lambda>s s'. \<exists>e. serve_step lc e s = Some s') s s'"
proof (induction es arbitrary: s)
  case (Cons e es)
  from Cons.prems obtain s1 where s1: "serve_step lc e s = Some s1" "serve_run lc es s1 = Some s'"
    by (auto split: option.splits)
  have "reachable (\<lambda>s s'. \<exists>e. serve_step lc e s = Some s') s s1"
    by (rule further [OF start]) (use s1(1) in blast)
  with Cons.IH [OF s1(2)] show ?case by (rule reachable_trans)
qed (simp add: start)

lemma serve_run_ok: "serve_run lc es s = Some s' \<Longrightarrow> daemon_ok lc s \<Longrightarrow> daemon_ok lc s'"
  by (rule accept_loop.stays_good [OF serve_run_reachable])

lemma serve_run_append: "serve_run lc (es @ fs) s =
    (case serve_run lc es s of None \<Rightarrow> None | Some s' \<Rightarrow> serve_run lc fs s')"
  by (induction es arbitrary: s) (auto split: option.splits)

section \<open>Reaching a state\<close>

definition reaches :: "lifecycle \<Rightarrow> event set \<Rightarrow> daemon \<Rightarrow> daemon \<Rightarrow> bool" where
  "reaches lc E s s' \<longleftrightarrow> (\<exists>es. set es \<subseteq> E \<and> serve_run lc es s = Some s')"

lemma reaches_refl: "reaches lc E s s"
  unfolding reaches_def by (rule exI [of _ "[]"]) simp

lemma reaches_trans: "reaches lc E s s' \<Longrightarrow> reaches lc E s' s'' \<Longrightarrow> reaches lc E s s''"
  unfolding reaches_def
proof (elim exE conjE)
  fix es fs
  assume "set es \<subseteq> E" "serve_run lc es s = Some s'" "set fs \<subseteq> E" "serve_run lc fs s' = Some s''"
  then show "\<exists>es. set es \<subseteq> E \<and> serve_run lc es s = Some s''"
    by (intro exI [of _ "es @ fs"]) (simp add: serve_run_append)
qed

lemma reaches_step: "serve_step lc e s = Some s' \<Longrightarrow> e \<in> E \<Longrightarrow> reaches lc E s' s'' \<Longrightarrow> reaches lc E s s''"
  unfolding reaches_def
proof (elim exE conjE)
  fix es
  assume "serve_step lc e s = Some s'" "e \<in> E" "set es \<subseteq> E" "serve_run lc es s' = Some s''"
  then show "\<exists>es. set es \<subseteq> E \<and> serve_run lc es s = Some s''"
    by (intro exI [of _ "e # es"]) simp
qed

lemma reaches_ok: "reaches lc E s s' \<Longrightarrow> daemon_ok lc s \<Longrightarrow> daemon_ok lc s'"
  by (auto simp: reaches_def intro: serve_run_ok)

lemma ticks: "Tick \<in> E \<Longrightarrow> reaches lc E s (s\<lparr>now := now s + n\<rparr>)"
proof (induction n arbitrary: s)
  case 0
  then show ?case by (simp add: reaches_refl)
next
  case (Suc n)
  have "serve_step lc Tick s = Some (s\<lparr>now := Suc (now s)\<rparr>)" by simp
  moreover note Suc.prems
  moreover have "reaches lc E (s\<lparr>now := Suc (now s)\<rparr>) (s\<lparr>now := now s + Suc n\<rparr>)"
    using Suc.IH [OF Suc.prems, of "s\<lparr>now := Suc (now s)\<rparr>"] by simp
  ultimately show ?case by (rule reaches_step)
qed

lemma notify_all:
  assumes "range Notify_one \<subseteq> E" and "\<forall>t \<in> set (tasks s). t = Gone \<or> t = Uncounted"
  shows "\<exists>s'. reaches lc E s s' \<and> phase s' = phase s \<and> (\<forall>t \<in> set (tasks s'). t = Gone)"
  using assms(2)
proof (induction "length (filter (\<lambda>t. t = Uncounted) (tasks s))" arbitrary: s)
  case 0
  then have "\<forall>t \<in> set (tasks s). t = Gone" by (auto simp: filter_empty_conv)
  then show ?case using reaches_refl by blast
next
  case (Suc n)
  then have "filter (\<lambda>t. t = Uncounted) (tasks s) \<noteq> []" by force
  then obtain i where i: "task_is Uncounted i s"
    by (auto simp: filter_empty_conv in_set_conv_nth task_is_def)
  let ?s = "(set_task i Gone s)\<lparr>permit := True\<rparr>"
  have step: "serve_step lc (Notify_one i) s = Some ?s" using i by simp
  have "n = length (filter (\<lambda>t. t = Uncounted) (tasks ?s))"
    using length_filter_list_update [of i "tasks s" "\<lambda>t. t = Uncounted" Gone] i Suc(2) by (simp add: task_is_def)
  moreover have "\<forall>t \<in> set (tasks ?s). t = Gone \<or> t = Uncounted"
    using Suc.prems by (auto dest!: set_update_subset_insert [THEN subsetD])
  ultimately obtain s' where "reaches lc E ?s s'" "phase s' = phase ?s" "\<forall>t \<in> set (tasks s'). t = Gone"
    using Suc(1) by blast
  moreover have "Notify_one i \<in> E" using assms(1) by auto
  ultimately show ?case using reaches_step [OF step] by auto
qed

lemma arm:
  assumes "daemon_ok lc s" and "phase s = Accepting" and "idle_timeout lc \<noteq> 0"
    and gone: "\<forall>t \<in> set (tasks s). t = Gone" and E: "{Poll_idle, Closed} \<subseteq> E"
  shows "\<exists>s' d. reaches lc E s s' \<and> phase s' = Accepting \<and> idle s' = Armed d \<and> tasks s' = tasks s"
proof -
  from gone have "filter counted (tasks s) = []" by (auto simp: filter_empty_conv counted_def)
  with assms(1) have open0: "open_count s = 0" by (simp add: daemon_ok_def)
  have unpolled: "\<exists>s' d. reaches lc E s1 s' \<and> phase s' = Accepting \<and> idle s' = Armed d \<and> tasks s' = tasks s"
    if "phase s1 = Accepting" "idle s1 = Unpolled" "open_count s1 = 0" "tasks s1 = tasks s" for s1
  proof -
    let ?s = "s1\<lparr>idle := Armed (now s1 + idle_timeout lc)\<rparr>"
    have "serve_step lc Poll_idle s1 = Some ?s"
      using that assms(3) by (simp add: when_accepting_def)
    then have "reaches lc E s1 ?s" by (rule reaches_step) (use E reaches_refl in auto)
    moreover have "phase ?s = Accepting" "idle ?s = Armed (now s1 + idle_timeout lc)" "tasks ?s = tasks s"
      using that by simp_all
    ultimately show ?thesis by blast
  qed
  show ?thesis
  proof (cases "idle s")
    case Unpolled
    with assms(2) open0 show ?thesis by (intro unpolled) simp_all
  next
    case (Armed d)
    with assms(2) reaches_refl show ?thesis by blast
  next
    case Off
    from gone have "Uncounted \<notin> set (tasks s)" by auto
    with assms(1-3) open0 Off have "permit s" by (simp add: daemon_ok_def phase_ok_def idle_ok_def)
    let ?s = "s\<lparr>idle := Unpolled, permit := False\<rparr>"
    have step: "serve_step lc Closed s = Some ?s"
      using \<open>permit s\<close> assms(2) by (simp add: when_accepting_def)
    obtain s' d where "reaches lc E ?s s'" "phase s' = Accepting" "idle s' = Armed d" "tasks s' = tasks s"
      using unpolled [of ?s] assms(2) open0 by auto
    with reaches_step [OF step] E show ?thesis by blast
  qed
qed

section \<open>The drain's measure\<close>

fun task_weight :: "task \<Rightarrow> nat" where
  "task_weight Serving = 3"
| "task_weight Over = 2"
| "task_weight Uncounted = 1"
| "task_weight Gone = 0"
| "task_weight Lost = 0"

fun phase_weight :: "phase \<Rightarrow> nat" where
  "phase_weight Accepting = 3"
| "phase_weight (Draining _ _) = 2"
| "phase_weight (Cutting _ _) = 1"
| "phase_weight (Returned _) = 0"

definition drain_left :: "daemon \<Rightarrow> nat" where
  "drain_left s = phase_weight (phase s) + sum_list (map task_weight (tasks s))"

lemma sum_weight_update: "task_is t i s \<Longrightarrow> task_weight t' < task_weight t \<Longrightarrow>
    sum_list (map task_weight ((tasks s)[i := t'])) < sum_list (map task_weight (tasks s))"
proof -
  assume t: "task_is t i s" "task_weight t' < task_weight t"
  have "task_weight t \<le> sum_list (map task_weight (tasks s))"
    using t(1) by (auto simp: task_is_def intro!: member_le_sum_list)
  with t show ?thesis
    by (simp add: map_update sum_list_update task_is_def)
qed

lemmas sum_weight_steps =
  sum_weight_update [of Serving _ _ Over, simplified] sum_weight_update [of Serving _ _ Lost, simplified]
  sum_weight_update [of Over _ _ Uncounted, simplified] sum_weight_update [of Uncounted _ _ Gone, simplified]

lemma drain_step_decreases:
  assumes "serve_step lc e s = Some s'" and "phase s \<noteq> Accepting" and "e \<noteq> Tick"
  shows "drain_left s' < drain_left s \<and> phase s' \<noteq> Accepting"
  using assms
proof (induction lc e s rule: serve_step.induct)
  case (14 lc s)
  then show ?case by (cases "phase s") (auto simp: drain_left_def split: if_split_asm)
next
  case (15 lc s)
  then show ?case by (cases "phase s") (auto simp: drain_left_def split: if_split_asm)
next
  case (16 lc s)
  then show ?case by (cases "phase s") (auto simp: drain_left_def split: if_split_asm)
qed (auto simp: when_accepting_def drain_left_def split: if_splits intro: sum_weight_steps)

interpretation drain: winding "\<lambda>s. phase s \<noteq> Accepting"
    "\<lambda>s s'. \<exists>e. e \<noteq> Tick \<and> serve_step lc e s = Some s'" "\<lambda>s. phase s \<noteq> Accepting" drain_left for lc
  by unfold_locales (auto dest: drain_step_decreases)

lemma drain_run:
  "serve_run lc es s = Some s' \<Longrightarrow> Tick \<notin> set es \<Longrightarrow>
    reachable_in (\<lambda>s s'. \<exists>e. e \<noteq> Tick \<and> serve_step lc e s = Some s') (length es) s s'"
proof (induction es arbitrary: s)
  case (Cons e es)
  from Cons.prems obtain s1 where s1: "serve_step lc e s = Some s1" "serve_run lc es s1 = Some s'"
    by (auto split: option.splits)
  have "e \<noteq> Tick" and "Tick \<notin> set es" using Cons.prems(2) by auto
  with Cons.IH [OF s1(2)] s1(1) show ?case by (auto intro: reachable_in.one_more)
qed (simp add: reachable_in.none)

lemma unended_step:
  assumes "\<not> list_all ended (tasks s)" and "cut s"
  shows "\<exists>i e. e \<in> {Cut_off i, Fetch_sub i, Notify_one i} \<and> serve_step lc e s \<noteq> None"
proof -
  from assms(1) obtain i where i: "i < length (tasks s)" "\<not> ended (tasks s ! i)"
    by (auto simp: list_all_length)
  with assms(2) show ?thesis
    by (cases "tasks s ! i") (fastforce simp: task_is_def ended_def)+
qed

section \<open>Properties\<close>

text \<open>C24: The daemon exits on idle only when it is idle: whenever the idle timer may end the
  accept loop, the idle timeout is enabled, no connection is open, and none has begun or ended
  for at least the idle timeout.\<close>

theorem idle_exit_is_idle:
  assumes "serve_run lc es (listening t) = Some s" and "serve_step lc Idle_over s = Some s'"
  shows "idle_timeout lc \<noteq> 0 \<and> (\<forall>x \<in> set (tasks s). x = Uncounted \<or> x = Gone)
    \<and> busy_until s + idle_timeout lc \<le> now s"
proof -
  have ok: "daemon_ok lc s" using assms(1) listening_ok by (rule serve_run_ok)
  from assms(2) obtain d where p: "phase s = Accepting" and d: "idle s = Armed d" "d \<le> now s"
    by (auto simp: when_accepting_def split: if_splits idle_future.splits)
  with ok have "idle_ok lc s" by (simp add: daemon_ok_def phase_ok_def)
  with d have i: "open_count s = 0" "idle_timeout lc \<noteq> 0" "busy_until s + idle_timeout lc \<le> d"
    by (simp_all add: idle_ok_def)
  from ok have "open_count s = length (filter counted (tasks s))" by (simp add: daemon_ok_def)
  with i(1) have "\<forall>x \<in> set (tasks s). \<not> counted x" using open_no_counted by blast
  then have "\<forall>x \<in> set (tasks s). x = Uncounted \<or> x = Gone"
    using task.exhaust by (auto simp: counted_def)
  with i d show ?thesis by simp
qed

lemma idle_exit_is_idle_witness:
  "\<exists>s s'. serve_step \<lparr>idle_timeout = 2, drain_timeout = 1\<rparr> Idle_over s = Some s' \<and> tasks s = [Gone]
    \<and> busy_until s + 2 \<le> now s"
proof -
  let ?lc = "\<lparr>idle_timeout = 2, drain_timeout = 1\<rparr>"
  let ?es = "[Poll_idle, Accept, Poll_idle, Served 0, Fetch_sub 0, Notify_one 0, Closed, Poll_idle, Tick, Tick]"
  let ?s = "\<lparr>phase = Accepting, idle = Armed 2, open_count = 0, permit = False, tasks = [Gone],
    cut = False, now = 2, busy_until = 0\<rparr>"
  have run: "serve_run ?lc ?es (listening 0) = Some ?s"
    by (simp add: listening_def when_accepting_def task_is_def set_task_def)
  have step: "serve_step ?lc Idle_over ?s = Some (break_with Idle ?s)" by (simp add: when_accepting_def)
  from idle_exit_is_idle [OF run step] have "busy_until ?s + 2 \<le> now ?s" by simp
  with step show ?thesis by (intro exI [of _ ?s] exI [of _ "break_with Idle ?s"]) simp
qed

text \<open>C23: No wakeup is lost: from every state the accept loop can be in once its connections
  are over (each has left the count, though its notification may still be on its way), with the
  idle timeout enabled, the passing of time and the steps the code takes on its own bring
  \<open>serve_listener\<close> to return, without a further connection or signal.\<close>

theorem idle_daemon_returns:
  assumes "serve_run lc es (listening t) = Some s" and "phase s = Accepting"
    and "idle_timeout lc \<noteq> 0" and "\<forall>x \<in> set (tasks s). x = Gone \<or> x = Uncounted"
  shows "\<exists>s'. reaches lc ({Tick, Poll_idle, Closed, Idle_over, Drained} \<union> range Notify_one) s s'
    \<and> phase s' = Returned Idle"
proof -
  let ?E = "{Tick, Poll_idle, Closed, Idle_over, Drained} \<union> range Notify_one"
  have ok: "daemon_ok lc s" using assms(1) listening_ok by (rule serve_run_ok)
  obtain s1 where s1: "reaches lc ?E s s1" "phase s1 = Accepting" "\<forall>x \<in> set (tasks s1). x = Gone"
    using notify_all [of ?E s lc] assms(2,4) by auto
  have ok1: "daemon_ok lc s1" using s1(1) ok by (rule reaches_ok)
  obtain s2 d where s2: "reaches lc ?E s1 s2" "phase s2 = Accepting" "idle s2 = Armed d" "tasks s2 = tasks s1"
    using arm [OF ok1 s1(2) assms(3) s1(3), of ?E] by auto
  let ?s3 = "s2\<lparr>now := now s2 + d\<rparr>"
  have s3: "reaches lc ?E s2 ?s3" by (rule ticks) simp
  let ?s4 = "break_with Idle ?s3"
  have step4: "serve_step lc Idle_over ?s3 = Some ?s4" using s2 by (simp add: when_accepting_def)
  let ?s5 = "?s4\<lparr>phase := Returned Idle\<rparr>"
  have step5: "serve_step lc Drained ?s4 = Some ?s5"
    using s1(3) s2(4) by (simp add: break_with_def list_all_iff ended_def)
  have "reaches lc ?E ?s4 ?s5" by (rule reaches_step [OF step5]) (simp_all add: reaches_refl)
  then have "reaches lc ?E ?s3 ?s5" by (intro reaches_step [OF step4]) simp_all
  with s1(1) s2(1) s3 have "reaches lc ?E s ?s5" by (blast intro: reaches_trans)
  then show ?thesis by (intro exI [of _ ?s5]) simp
qed

lemma idle_daemon_returns_witness:
  "\<exists>s s'. tasks s = [Uncounted] \<and> phase s' = Returned Idle
    \<and> reaches default_lifecycle ({Tick, Poll_idle, Closed, Idle_over, Drained} \<union> range Notify_one) s s'"
proof -
  let ?es = "[Accept, Served 0, Fetch_sub 0, Poll_idle]"
  let ?s = "\<lparr>phase = Accepting, idle = Armed 600, open_count = 0, permit = False, tasks = [Uncounted],
    cut = False, now = 0, busy_until = 0\<rparr>"
  have "serve_run default_lifecycle ?es (listening 0) = Some ?s"
    by (simp add: listening_def when_accepting_def task_is_def set_task_def default_lifecycle_def)
  from idle_daemon_returns [OF this] have "\<exists>s'. phase s' = Returned Idle
    \<and> reaches default_lifecycle ({Tick, Poll_idle, Closed, Idle_over, Drained} \<union> range Notify_one) ?s s'"
    by (auto simp: default_lifecycle_def)
  then obtain s' where "phase s' = Returned Idle"
    "reaches default_lifecycle ({Tick, Poll_idle, Closed, Idle_over, Drained} \<union> range Notify_one) ?s s'"
    by blast
  moreover have "tasks ?s = [Uncounted]" by simp
  ultimately show ?thesis by blast
qed

text \<open>C26: A handler that panics disables the idle exit for good: its task is unwound past
  \<open>fetch_sub\<close>, so its connection stays counted in \<open>open\<close> after it is closed, and from then on
  no sequence of events lets the idle timer end the accept loop, even when every connection is
  over.\<close>

theorem panic_disables_idle_exit:
  assumes "serve_run lc es (listening t) = Some s" and "Lost \<in> set (tasks s)"
  shows "\<forall>fs s'. serve_run lc fs s = Some s' \<longrightarrow> serve_step lc Idle_over s' = None"
proof (intro allI impI)
  fix fs s'
  assume run: "serve_run lc fs s = Some s'"
  have lost: "Lost \<in> set (tasks b)" if "serve_step lc e a = Some b" "Lost \<in> set (tasks a)" for e a b
  proof -
    have "Lost \<in> set ((tasks a)[i := x])" if "task_is y i a" "y \<noteq> Lost" for i x y
      using that \<open>Lost \<in> set (tasks a)\<close>
      by (auto simp: task_is_def in_set_conv_nth) (metis nth_list_update_neq)
    with that show ?thesis
      by (cases e) (auto simp: when_accepting_def break_with_def split: if_split_asm phase.split_asm)
  qed
  have "Lost \<in> set (tasks s')"
    using run assms(2) by (induction fs arbitrary: s) (auto split: option.splits dest: lost)
  moreover have "daemon_ok lc s'"
    using run serve_run_ok [OF assms(1) listening_ok] by (rule serve_run_ok)
  ultimately have "open_count s' \<noteq> 0" "daemon_ok lc s'"
    using open_no_counted [of s' Lost] by (auto simp: daemon_ok_def counted_def)
  then show "serve_step lc Idle_over s' = None"
    by (auto simp: when_accepting_def daemon_ok_def phase_ok_def idle_ok_def split: idle_future.splits)
qed

lemma panic_disables_idle_exit_witness:
  "\<exists>s. serve_run default_lifecycle [Accept, Panic 0] (listening 0) = Some s \<and> tasks s = [Lost]
    \<and> serve_step default_lifecycle Idle_over s = None"
proof -
  let ?s = "\<lparr>phase = Accepting, idle = Unpolled, open_count = 1, permit = False, tasks = [Lost],
    cut = False, now = 0, busy_until = 0\<rparr>"
  have run: "serve_run default_lifecycle [Accept, Panic 0] (listening 0) = Some ?s"
    by (simp add: listening_def when_accepting_def task_is_def set_task_def)
  have "serve_step default_lifecycle Idle_over ?s = None"
    by (rule panic_disables_idle_exit [OF run, rule_format, of "[]" ?s]) simp_all
  with run show ?thesis by (intro exI [of _ ?s]) simp
qed

text \<open>C25: A drain ends. After the accept loop, every step but the passing of time lowers a
  measure, nothing leads back to accepting, and while \<open>serve_listener\<close> has not returned one of
  these steps, none of which is a handler's, can be taken as soon as the drain timeout has
  passed. So it returns, no later than \<open>drain_left\<close> such steps after that, and when it has
  returned no connection's task is left.\<close>

theorem drain_returns:
  assumes "serve_run lc es (listening t) = Some s" and "phase s \<noteq> Accepting"
  shows "(\<forall>e s'. serve_step lc e s = Some s' \<longrightarrow> e \<noteq> Tick \<longrightarrow> drain_left s' < drain_left s \<and> phase s' \<noteq> Accepting)
    \<and> (\<forall>fs s'. serve_run lc fs s = Some s' \<longrightarrow> Tick \<notin> set fs \<longrightarrow> length fs \<le> drain_left s)
    \<and> (case phase s of
        Returned r \<Rightarrow> list_all ended (tasks s)
      | Draining r began \<Rightarrow> began + drain_timeout lc \<le> now s \<longrightarrow>
          (\<exists>e \<in> {Drain_over, Drained}. serve_step lc e s \<noteq> None)
      | Cutting r began \<Rightarrow>
          (\<exists>e \<in> {Cut_done} \<union> range Cut_off \<union> range Fetch_sub \<union> range Notify_one. serve_step lc e s \<noteq> None)
      | Accepting \<Rightarrow> False)"
proof -
  have short: "length fs \<le> drain_left s" if "serve_run lc fs s = Some s'" "Tick \<notin> set fs" for fs s'
    using drain.run_bounded [OF drain_run [OF that] assms(2)] by simp
  have ok: "daemon_ok lc s" using assms(1) listening_ok by (rule serve_run_ok)
  have "\<exists>e \<in> {Cut_done} \<union> range Cut_off \<union> range Fetch_sub \<union> range Notify_one. serve_step lc e s \<noteq> None"
    if p: "phase s = Cutting r b" for r b
  proof (cases "list_all ended (tasks s)")
    case True
    with p have "serve_step lc Cut_done s \<noteq> None" by simp
    then show ?thesis by blast
  next
    case False
    from p ok have "cut s" by (simp add: daemon_ok_def phase_ok_def)
    with unended_step [OF False] show ?thesis by blast
  qed
  with drain_step_decreases [of lc _ s] assms(2) ok short show ?thesis
    by (cases "phase s") (auto simp: daemon_ok_def phase_ok_def)
qed

lemma drain_returns_witness:
  "\<exists>e \<in> {Drain_over, Drained}. serve_step default_lifecycle e \<lparr>phase = Draining Asked 0, idle = Unpolled,
     open_count = 1, permit = False, tasks = [Serving], cut = False, now = 5, busy_until = 0\<rparr> \<noteq> None"
proof -
  let ?s = "\<lparr>phase = Draining Asked 0, idle = Unpolled, open_count = 1, permit = False,
    tasks = [Serving], cut = False, now = 5, busy_until = 0\<rparr>"
  have "serve_run default_lifecycle [Accept, Stop Asked, Tick, Tick, Tick, Tick, Tick] (listening 0) = Some ?s"
    by (simp add: listening_def when_accepting_def break_with_def)
  from drain_returns [OF this] show ?thesis by (simp add: default_lifecycle_def)
qed

text \<open>Connections are cut only by a drain that has waited its whole timeout; before that
  an open connection, such as the one a shutdown request came on, is served to its end. And
  \<open>serve_listener\<close> returns an error only when accepting failed.\<close>

theorem cut_after_timeout:
  assumes "serve_run lc es (listening t) = Some s"
  shows "(serve_step lc (Cut_off i) s \<noteq> None \<longrightarrow>
      (\<exists>r began. phase s = Cutting r began \<and> began + drain_timeout lc \<le> now s))
    \<and> (result_of (phase s) = Some (Inl r) \<longrightarrow> phase s = Returned Accept_failed)
    \<and> (phase s = Returned Idle \<longrightarrow> idle_timeout lc \<noteq> 0)"
proof -
  have ok: "daemon_ok lc s" using assms listening_ok by (rule serve_run_ok)
  have "\<exists>r began. phase s = Cutting r began \<and> began + drain_timeout lc \<le> now s"
    if "serve_step lc (Cut_off i) s \<noteq> None"
  proof -
    from that have t: "task_is Serving i s" "cut s" by (auto split: if_splits)
    have "\<not> ended Serving" by (simp add: ended_def)
    with t(1) have "\<not> list_all ended (tasks s)" by (rule not_all_ended)
    with ok t(2) show ?thesis by (cases "phase s") (auto simp: daemon_ok_def phase_ok_def)
  qed
  moreover have "phase s = Returned Accept_failed" if "result_of (phase s) = Some (Inl r)"
    using that by (cases "phase s" rule: result_of.cases) auto
  moreover have "phase s = Returned Idle \<longrightarrow> idle_timeout lc \<noteq> 0"
    using ok by (auto simp: daemon_ok_def phase_ok_def)
  ultimately show ?thesis by blast
qed

lemma cut_after_timeout_witness:
  "\<exists>r began. Cutting Asked 0 = Cutting r began \<and> began + drain_timeout default_lifecycle \<le> 5"
proof -
  let ?s = "\<lparr>phase = Cutting Asked 0, idle = Unpolled, open_count = 1, permit = False,
    tasks = [Serving], cut = True, now = 5, busy_until = 0\<rparr>"
  have "serve_run default_lifecycle [Accept, Stop Asked, Tick, Tick, Tick, Tick, Tick, Drain_over] (listening 0) = Some ?s"
    by (simp add: listening_def when_accepting_def break_with_def ended_def default_lifecycle_def)
  from cut_after_timeout [OF this, of 0] show ?thesis by (simp add: task_is_def)
qed

end
