(* ===== verification/Secrets.thy ===== *)
theory Secrets
  imports Prelude
begin

text \<open>
  \<open>SecretStore\<close> (\<open>crates/unixd/src/secrets.rs\<close>): secrets in memory with an idle and a
  maximal lifetime. An \<open>Instant\<close> is a number of nanoseconds, and a difference of two is zero
  when the second is later, as \<open>Instant\<close> subtracts. Each operation reads the clock once and
  has the map to itself, so a run of the store is a list of operations with the times they
  read. Zeroing the memory of a dropped secret is the work of \<open>secrecy\<close> and not modelled.
\<close>

section \<open>The store\<close>

record secret_limits =
  sl_idle :: duration
  sl_max_age :: duration
  sl_sweep_every :: duration

definition default_secret_limits :: secret_limits where
  "default_secret_limits = \<lparr>sl_idle = from_mins 10, sl_max_age = from_hours 2,
     sl_sweep_every = from_mins 1\<rparr>"

record 's held_secret =
  hs_secret :: 's
  hs_stored :: nat
  hs_read :: nat
  hs_idle :: duration
  hs_max_age :: duration

record 's secret_store =
  ss_limits :: secret_limits
  secrets :: "str \<rightharpoonup> 's held_secret"

definition past :: "nat \<Rightarrow> nat \<Rightarrow> duration \<Rightarrow> bool" where
  "past now since bound \<longleftrightarrow> \<not> is_zero bound \<and> now - since \<ge> as_nanos bound"

definition expired :: "'s held_secret \<Rightarrow> nat \<Rightarrow> bool" where
  "expired h now \<longleftrightarrow> past now (hs_read h) (hs_idle h) \<or> past now (hs_stored h) (hs_max_age h)"

definition new_store :: "secret_limits \<Rightarrow> 's secret_store" where
  "new_store lims = \<lparr>ss_limits = lims, secrets = Map.empty\<rparr>"

definition put_with :: "nat \<Rightarrow> str \<Rightarrow> 's \<Rightarrow> duration \<Rightarrow> duration \<Rightarrow> 's secret_store \<Rightarrow> 's secret_store" where
  "put_with now key secret idle max_age st = st\<lparr>secrets := (secrets st)(key \<mapsto>
     \<lparr>hs_secret = secret, hs_stored = now, hs_read = now, hs_idle = idle, hs_max_age = max_age\<rparr>)\<rparr>"

definition put :: "nat \<Rightarrow> str \<Rightarrow> 's \<Rightarrow> 's secret_store \<Rightarrow> 's secret_store" where
  "put now key secret st =
     put_with now key secret (sl_idle (ss_limits st)) (sl_max_age (ss_limits st)) st"

definition get_secret :: "nat \<Rightarrow> str \<Rightarrow> ('s \<Rightarrow> 'r) \<Rightarrow> 's secret_store \<Rightarrow> 'r option \<times> 's secret_store" where
  "get_secret now key read st = (case secrets st key of
     None \<Rightarrow> (None, st)
   | Some h \<Rightarrow>
       if expired h now then (None, st\<lparr>secrets := (secrets st)(key := None)\<rparr>)
       else (Some (read (hs_secret h)),
             st\<lparr>secrets := (secrets st)(key \<mapsto> h\<lparr>hs_read := now\<rparr>)\<rparr>))"

definition remove_secret :: "str \<Rightarrow> 's secret_store \<Rightarrow> 's secret_store" where
  "remove_secret key st = st\<lparr>secrets := (secrets st)(key := None)\<rparr>"

definition clear_secrets :: "'s secret_store \<Rightarrow> 's secret_store" where
  "clear_secrets st = st\<lparr>secrets := Map.empty\<rparr>"

definition sweep_secrets :: "nat \<Rightarrow> 's secret_store \<Rightarrow> 's secret_store" where
  "sweep_secrets now st = st\<lparr>secrets := (\<lambda>key. case secrets st key of
     None \<Rightarrow> None | Some h \<Rightarrow> if expired h now then None else Some h)\<rparr>"

text \<open>
  The task \<open>SecretStore::new\<close> spawns, unless \<open>sweep_every\<close> is zero: each tick of the
  interval with its time and whether the store is still alive, since the task holds only a
  weak reference.
\<close>

fun sweep_task :: "(nat \<times> bool) list \<Rightarrow> 's secret_store \<Rightarrow> 's secret_store" where
  "sweep_task [] st = st"
| "sweep_task ((now, alive) # ticks) st =
     (if \<not> alive then st else sweep_task ticks (sweep_secrets now st))"

section \<open>Runs\<close>

datatype 's secret_op =
    Put str 's duration duration
  | Get str
  | Remove str
  | Clear_all
  | Sweep

text \<open>One operation at a time: what a \<open>Get\<close> gives, and the new store.\<close>

fun secret_step :: "nat \<Rightarrow> 's secret_op \<Rightarrow> 's secret_store \<Rightarrow> 's option \<times> 's secret_store" where
  "secret_step now (Put key s idle max_age) st = (None, put_with now key s idle max_age st)"
| "secret_step now (Get key) st = get_secret now key (\<lambda>s. s) st"
| "secret_step now (Remove key) st = (None, remove_secret key st)"
| "secret_step now Clear_all st = (None, clear_secrets st)"
| "secret_step now Sweep st = (None, sweep_secrets now st)"

fun secret_run :: "(nat \<times> 's secret_op) list \<Rightarrow> 's secret_store \<Rightarrow> 's option list \<times> 's secret_store" where
  "secret_run [] st = ([], st)"
| "secret_run ((now, op) # ops) st = (case secret_step now op st of
     (r, st') \<Rightarrow> (case secret_run ops st' of (rs, st'') \<Rightarrow> (r # rs, st'')))"

section \<open>The specification\<close>

text \<open>
  A key's life in a history, the latest operation first: the secret last put, since nothing
  removed it and every bound held at each operation that looked. \<open>life\<close> gives the secret, the
  time it was put, the time of the last successful read, and the bounds.
\<close>

fun life :: "str \<Rightarrow> (nat \<times> 's secret_op) list \<Rightarrow> 's held_secret option" where
  "life key [] = None"
| "life key ((now, op) # past_ops) = (let h = life key past_ops;
     alive = (case h of None \<Rightarrow> None | Some x \<Rightarrow> if expired x now then None else Some x) in
     (case op of
       Put k s idle max_age \<Rightarrow> if k = key
         then Some \<lparr>hs_secret = s, hs_stored = now, hs_read = now, hs_idle = idle, hs_max_age = max_age\<rparr>
         else h
     | Get k \<Rightarrow> if k = key then map_option (\<lambda>x. x\<lparr>hs_read := now\<rparr>) alive else h
     | Remove k \<Rightarrow> if k = key then None else h
     | Clear_all \<Rightarrow> None
     | Sweep \<Rightarrow> alive))"

lemma secret_run_append:
  "secret_run (xs @ ys) st = (case secret_run xs st of (r1, st1) \<Rightarrow>
     (case secret_run ys st1 of (r2, st2) \<Rightarrow> (r1 @ r2, st2)))"
  by (induction xs arbitrary: st) (auto split: prod.splits)

lemma run_life: "secrets (snd (secret_run ops (new_store lims))) key = life key (rev ops)"
proof (induction ops rule: rev_induct)
  case Nil
  then show ?case by (simp add: new_store_def)
next
  case (snoc x ops)
  obtain now op where x: "x = (now, op)" by (cases x)
  obtain rs st where st: "secret_run ops (new_store lims) = (rs, st)"
    by (cases "secret_run ops (new_store lims :: 'a secret_store)")
  with snoc have h: "secrets st key = life key (rev ops)" by simp
  show ?case
    using h by (cases op)
      (auto simp: x secret_run_append st put_with_def get_secret_def remove_secret_def
        clear_secrets_def sweep_secrets_def Let_def split: prod.splits option.splits)
qed

lemma life_put:
  assumes "life key ops = Some h"
  shows "\<exists>s idle max_age. (hs_stored h, Put key s idle max_age) \<in> set ops
    \<and> hs_secret h = s \<and> hs_idle h = idle \<and> hs_max_age h = max_age"
  using assms
proof (induction key ops arbitrary: h rule: life.induct)
  case (2 key now op ops)
  then show ?case
    by (cases op) (fastforce simp: Let_def split: option.splits if_splits)+
qed simp

section \<open>Properties\<close>


text \<open>C39: A secret is never read once a bound has passed: a read that succeeds gives a secret
  that some operation put under this key, less than its maximal lifetime ago (when that is
  on), however often it was read since, and less than its idle lifetime after the last read.\<close>

theorem read_respects_bounds:
  assumes "get_secret now key (\<lambda>s. s) (snd (secret_run ops (new_store lims))) = (Some s, st)"
  shows "\<exists>t last idle max_age. (t, Put key s idle max_age) \<in> set ops
    \<and> (is_zero max_age \<or> now - t < as_nanos max_age)
    \<and> (is_zero idle \<or> now - last < as_nanos idle)
    \<and> life key (rev ops) = Some \<lparr>hs_secret = s, hs_stored = t, hs_read = last,
        hs_idle = idle, hs_max_age = max_age\<rparr>"
proof -
  from assms obtain h where h: "life key (rev ops) = Some h" "\<not> expired h now" "s = hs_secret h"
    by (auto simp: get_secret_def run_life split: option.splits if_splits)
  from life_put [OF h(1)] h(2,3) show ?thesis
    by (intro exI [of _ "hs_stored h"] exI [of _ "hs_read h"] exI [of _ "hs_idle h"]
        exI [of _ "hs_max_age h"]) (auto simp: expired_def past_def not_le h(1))
qed

text \<open>Two stores that differ by swept secrets\<close>

definition swept :: "nat \<Rightarrow> 's secret_store \<Rightarrow> 's secret_store \<Rightarrow> bool" where
  "swept now st st' \<longleftrightarrow> ss_limits st = ss_limits st' \<and> (\<forall>key. secrets st key = secrets st' key
     \<or> (secrets st key = None \<and> (\<exists>h. secrets st' key = Some h \<and> expired h now)))"

lemma expired_later: "expired h now \<Longrightarrow> now \<le> later \<Longrightarrow> expired h later"
  by (auto simp: expired_def past_def)

lemma swept_later: "swept now st st' \<Longrightarrow> now \<le> later \<Longrightarrow> swept later st st'"
  unfolding swept_def by (blast intro: expired_later)

lemma swept_sweep: "swept now st st' \<Longrightarrow> swept now (sweep_secrets now st) st'"
  unfolding swept_def sweep_secrets_def by (auto split: option.split) (metis option.distinct(1) option.inject)+

lemma swept_update:
  "swept now st st' \<Longrightarrow> swept now (st\<lparr>secrets := (secrets st)(k := v)\<rparr>) (st'\<lparr>secrets := (secrets st')(k := v)\<rparr>)"
  by (simp add: swept_def)

lemma swept_remove:
  "swept now st st' \<Longrightarrow> secrets st k = None \<Longrightarrow> swept now st (st'\<lparr>secrets := (secrets st')(k := None)\<rparr>)"
  by (simp add: swept_def)

lemma swept_get:
  assumes "swept now st st'"
  shows "fst (get_secret now key (\<lambda>s. s) st) = fst (get_secret now key (\<lambda>s. s) st')
    \<and> swept now (snd (get_secret now key (\<lambda>s. s) st)) (snd (get_secret now key (\<lambda>s. s) st'))"
proof (cases "secrets st key = secrets st' key")
  case True
  then show ?thesis using assms swept_update [OF assms]
    by (cases "secrets st' key") (simp_all add: get_secret_def)
next
  case False
  with assms obtain h where "secrets st key = None" "secrets st' key = Some h" "expired h now"
    unfolding swept_def by blast
  then show ?thesis using swept_remove [OF assms] by (simp add: get_secret_def)
qed

lemma swept_step:
  assumes "swept now st st'" and "op \<noteq> Sweep"
  shows "fst (secret_step now op st) = fst (secret_step now op st')
    \<and> swept now (snd (secret_step now op st)) (snd (secret_step now op st'))"
proof (cases op)
  case (Get key)
  then show ?thesis using swept_get [OF assms(1)] by simp
next
  case Clear_all
  then show ?thesis using assms(1) by (simp add: swept_def clear_secrets_def)
qed (use assms swept_update [OF assms(1)] in \<open>simp_all add: put_with_def remove_secret_def\<close>)

text \<open>The results of the operations that are not sweeps\<close>

definition seen :: "(nat \<times> 's secret_op) list \<Rightarrow> 's secret_store \<Rightarrow> 's option list" where
  "seen ops st = map fst (filter (\<lambda>(r, t, op). op \<noteq> Sweep) (zip (fst (secret_run ops st)) ops))"

lemma seen_Cons:
  "seen ((now, op) # ops) st = (if op = Sweep then [] else [fst (secret_step now op st)]) @
     seen ops (snd (secret_step now op st))"
  by (simp add: seen_def split: prod.split)

lemma seen_swept:
  "sorted (map fst ops) \<Longrightarrow> (\<forall>x \<in> set ops. now \<le> fst x) \<Longrightarrow> swept now st st' \<Longrightarrow>
     seen ops st = fst (secret_run (filter (\<lambda>(t, op). op \<noteq> Sweep) ops) st')"
proof (induction ops arbitrary: now st st')
  case (Cons x ops)
  obtain t op where x: "x = (t, op)" by (cases x)
  have sw: "swept t st st'" using Cons.prems x by (auto intro: swept_later)
  have rest: "sorted (map fst ops)" "\<forall>y \<in> set ops. t \<le> fst y" using Cons.prems(1) x by auto
  show ?case
  proof (cases "op = Sweep")
    case True
    with Cons.IH [OF rest swept_sweep [OF sw]] show ?thesis by (simp add: x seen_Cons)
  next
    case False
    with swept_step [OF sw False] Cons.IH [OF rest] show ?thesis
      by (auto simp: x seen_Cons split: prod.split)
  qed
qed (simp add: seen_def)

lemma sweep_task_run:
  "sweep_task ticks st = snd (secret_run (map (\<lambda>(t, alive). (t, Sweep)) (takeWhile snd ticks)) st)"
  by (induction ticks st rule: sweep_task.induct) (auto split: prod.split)

text \<open>C40: Sweeping cannot be seen: in any run of operations whose clock does not go back, with
  any number of sweeps in it, every \<open>put\<close>, \<open>get\<close>, \<open>remove\<close> and \<open>clear\<close> has the result it has in
  the run without the sweeps; and the sweeping task does nothing but sweep, once per tick,
  until the store is gone. A sweep drops exactly the expired secrets.\<close>

theorem sweep_unseen:
  fixes st :: "'s secret_store"
  assumes "sorted (map fst ops)"
  shows "seen ops st = fst (secret_run (filter (\<lambda>(t, op). op \<noteq> Sweep) ops) st)
    \<and> sweep_task ticks st = snd (secret_run (map (\<lambda>(t, alive). (t, Sweep)) (takeWhile snd ticks)) st)
    \<and> (secrets (sweep_secrets now st) key = None \<longleftrightarrow>
        (case secrets st key of None \<Rightarrow> True | Some h \<Rightarrow> expired h now))"
proof (intro conjI)
  have "swept 0 st st" by (simp add: swept_def)
  then show "seen ops st = fst (secret_run (filter (\<lambda>(t, op). op \<noteq> Sweep) ops) st)"
    using assms by (intro seen_swept) simp_all
  show "sweep_task ticks st = snd (secret_run (map (\<lambda>(t, alive). (t, Sweep)) (takeWhile snd ticks)) st)"
    by (rule sweep_task_run)
  show "secrets (sweep_secrets now st) key = None \<longleftrightarrow>
      (case secrets st key of None \<Rightarrow> True | Some h \<Rightarrow> expired h now)"
    by (simp add: sweep_secrets_def split: option.split)
qed

lemma read_respects_bounds_witness:
  "\<exists>t idle max_age. (t, Put ''k'' (5::nat) idle max_age) \<in> {(0, Put ''k'' 5 (from_secs 1) (from_secs 2))}"
  using read_respects_bounds [of 3 "''k''" "[(0, Put ''k'' (5::nat) (from_secs 1) (from_secs 2))]" default_secret_limits 5]
  by (simp add: new_store_def put_with_def get_secret_def expired_def past_def is_zero_def as_nanos_def from_secs_def)

lemma sweep_unseen_witness:
  "seen [(0, Put ''k'' (5::nat) (from_secs 1) (from_secs 2)), (3, Sweep), (4, Get ''k'')] (new_store default_secret_limits)
     = [None, Some 5]"
proof -
  let ?ops = "[(0, Put ''k'' (5::nat) (from_secs 1) (from_secs 2)), (3, Sweep), (4 :: nat, Get ''k'')]"
  have "sorted (map fst ?ops)" by simp
  from sweep_unseen [OF this, of "new_store default_secret_limits", THEN conjunct1] show ?thesis
    by (simp add: new_store_def put_with_def get_secret_def expired_def past_def is_zero_def as_nanos_def from_secs_def)
qed

end
