(* ===== verification/Paths.thy ===== *)
theory Paths
  imports Os
begin

text \<open>
  Paths as the environment gives them, byte strings, for the two places that build paths
  from environment variables: \<open>default_root\<close> of \<open>crates/unixd-cache/src/cache.rs\<close>, here, and
  \<open>crates/unixd/src/install.rs\<close>, in \<open>Install\<close>. The platform is \<open>cfg(target_os)\<close>.
\<close>

section \<open>Joining\<close>

datatype platform = Macos | Linux

definition is_absolute :: "str \<Rightarrow> bool" where
  "is_absolute p \<longleftrightarrow> p \<noteq> [] \<and> hd p = CHR ''/''"

text \<open>\<open>Path::join\<close>: an absolute second path replaces the first.\<close>

definition path_join :: "str \<Rightarrow> str \<Rightarrow> str" where
  "path_join p q = (if is_absolute q then q
     else if p = [] \<or> last p = CHR ''/'' then p @ q else p @ ''/'' @ q)"

lemma join_absolute: "is_absolute d \<Longrightarrow> is_absolute (path_join d q)"
  by (auto simp: path_join_def is_absolute_def hd_append)

section \<open>The cache's usual place, and its clock\<close>

text \<open>\<open>env::var_os(v).map(PathBuf::from).filter(|path| path.is_absolute())\<close>\<close>

definition absolute_var :: "(str \<Rightarrow> str option) \<Rightarrow> str \<Rightarrow> str option" where
  "absolute_var env v = (case env v of Some p \<Rightarrow> if is_absolute p then Some p else None | None \<Rightarrow> None)"

definition default_root :: "platform \<Rightarrow> (str \<Rightarrow> str option) \<Rightarrow> str \<Rightarrow> str option" where
  "default_root pl env name = (let home = absolute_var env ''HOME'' in
     case (case pl of
         Macos \<Rightarrow> map_option (\<lambda>h. path_join (path_join h ''Library'') ''Caches'') home
       | Linux \<Rightarrow> (case absolute_var env ''XDG_CACHE_HOME'' of
           Some p \<Rightarrow> Some p
         | None \<Rightarrow> map_option (\<lambda>h. path_join h ''.cache'') home)) of
       None \<Rightarrow> None
     | Some base \<Rightarrow> Some (path_join base name))"

text \<open>
  \<open>SystemClock::now_ms\<close> at a time in nanoseconds since the epoch: zero before the epoch.
\<close>

definition system_now_ms :: "int \<Rightarrow> u64" where
  "system_now_ms t = (if t < 0 then 0 else u64_or_max (nat t div 1000000))"

lemma absolute_var_absolute: "absolute_var env v = Some p \<Longrightarrow> is_absolute p"
  by (auto simp: absolute_var_def split: option.splits if_splits)

text \<open>The usual place is an absolute path whatever the environment holds.\<close>

lemma default_root_absolute: "default_root pl env name = Some r \<Longrightarrow> is_absolute r"
  by (cases pl) (auto simp: default_root_def Let_def intro!: join_absolute
      dest: absolute_var_absolute split: option.splits)

text \<open>A relative variable counts for nothing: it is as good as unset.\<close>

lemma default_root_ignores_relative:
  assumes "\<not> is_absolute p"
  shows "default_root pl (env(v \<mapsto> p)) name = default_root pl (env(v := None)) name"
proof -
  have "absolute_var (env(v \<mapsto> p)) x = absolute_var (env(v := None)) x" for x
    using assms by (simp add: absolute_var_def)
  then show ?thesis by (simp only: default_root_def)
qed

end
