(* ===== verification/Startup.thy ===== *)
theory Startup
  imports Serve Secrets Paths
begin

text \<open>
  What runs before anything is served, and the socket calls of the client: \<open>connect\<close>,
  \<open>stream_socket\<close> and \<open>peer_uid\<close> (\<open>crates/unixd/src/sys.rs\<close>), \<open>serve\<close> up to the accept
  loop (\<open>serve.rs\<close>), and \<open>SecretStore::new\<close> with \<open>harden\<close> (\<open>secrets.rs\<close>).

  The kernel is one function \<open>replies\<close> from the calls made so far, with their results, and the
  next call, so a theorem for every \<open>process\<close> holds for every kernel. A result is an error or a
  number: a descriptor, a user id, or zero for a call that returns nothing. Dropping an
  \<open>OwnedFd\<close> is a \<open>Close\<close>, whose own result the standard library ignores. \<open>address\<close> stands for
  \<open>SocketAddrUnix::new\<close> of \<open>rustix\<close>, which may refuse a path.
\<close>

section \<open>The kernel\<close>

datatype stop_signal = Sigterm | Sigint

datatype sys_call =
    Socket bool                  \<comment> \<open>whether \<open>SOCK_CLOEXEC\<close> is in the call\<close>
  | Set_cloexec nat
  | Set_send_timeout nat duration
  | Connect nat str
  | Peer_credentials nat
  | Close nat
  | Chdir str
  | Dup_stdin
  | Set_nonblocking nat
  | Register nat                 \<comment> \<open>\<open>UnixListener::from_std\<close>\<close>
  | Watch stop_signal            \<comment> \<open>\<open>tokio::signal::unix::signal\<close>\<close>
  | Set_core_limit "nat option" "nat option"
  | Set_not_dumpable

type_synonym call_log = "(sys_call \<times> (error_kind + nat)) list"

record process =
  replies :: "call_log \<Rightarrow> sys_call \<Rightarrow> error_kind + nat"
  made :: call_log

type_synonym 'a sys_io = "(process, error_kind, 'a) io"

definition sys_ask :: "sys_call \<Rightarrow> nat sys_io" where
  "sys_ask c p = (let r = replies p (made p) c; p' = p\<lparr>made := made p @ [(c, r)]\<rparr> in
     (case r of Inl e \<Rightarrow> (Inl (Err e), p') | Inr n \<Rightarrow> (Inr n, p')))"

definition close_fd :: "nat \<Rightarrow> process \<Rightarrow> process" where
  "close_fd d p = p\<lparr>made := made p @ [(Close d, replies p (made p) (Close d))]\<rparr>"

section \<open>Sockets\<close>

definition stream_socket_linux :: "nat sys_io" where
  "stream_socket_linux = sys_ask (Socket True)"

definition stream_socket_macos :: "nat sys_io" where
  "stream_socket_macos =
     andThen (sys_ask (Socket False)) (\<lambda>d.
     andThen (on_error (sys_ask (Set_cloexec d)) (close_fd d)) (\<lambda>_. ok d))"

definition stream_socket :: "platform \<Rightarrow> nat sys_io" where
  "stream_socket plat = (case plat of Linux \<Rightarrow> stream_socket_linux | Macos \<Rightarrow> stream_socket_macos)"

definition sys_connect :: "platform \<Rightarrow> (str \<Rightarrow> error_kind option) \<Rightarrow> str \<Rightarrow> duration \<Rightarrow> nat sys_io" where
  "sys_connect plat address path timeout =
     andThen (stream_socket plat) (\<lambda>d. on_error
       (andThen (sys_ask (Set_send_timeout d timeout)) (\<lambda>_.
        case address path of
          Some e \<Rightarrow> fail e
        | None \<Rightarrow> andThen (sys_ask (Connect d path)) (\<lambda>_. ok d)))
       (close_fd d))"

definition peer_uid :: "nat \<Rightarrow> u32 sys_io" where
  "peer_uid d = andThen (sys_ask (Peer_credentials d)) (\<lambda>u. ok (of_nat u))"

section \<open>The daemon's start\<close>

text \<open>
  \<open>serve\<close> and then \<open>serve_listener\<close> up to the first turn of the accept loop, which starts at
  \<open>t\<close>: the listener is a duplicate of standard input, owned by the value that is passed on, so
  every early return drops it.
\<close>

definition serve_listener_start :: "nat \<Rightarrow> nat \<Rightarrow> (nat \<times> daemon) sys_io" where
  "serve_listener_start d t = on_error
     (andThen (sys_ask (Watch Sigterm)) (\<lambda>_.
      andThen (sys_ask (Watch Sigint)) (\<lambda>_.
      ok (d, listening t))))
     (close_fd d)"

definition serve_start :: "nat \<Rightarrow> (nat \<times> daemon) sys_io" where
  "serve_start t =
     andThen (sys_ask (Chdir ''/'')) (\<lambda>_.
     andThen (sys_ask Dup_stdin) (\<lambda>d.
     andThen (on_error
       (andThen (sys_ask (Set_nonblocking d)) (\<lambda>_.
        sys_ask (Register d)))
       (close_fd d)) (\<lambda>_.
     serve_listener_start d t)))"

section \<open>A new secret store\<close>

definition harden :: "platform \<Rightarrow> unit sys_io" where
  "harden plat =
     andThen (sys_ask (Set_core_limit (Some 0) (Some 0))) (\<lambda>_.
       case plat of
         Linux \<Rightarrow> andThen (sys_ask Set_not_dumpable) (\<lambda>_. ok ())
       | Macos \<Rightarrow> ok ())"

text \<open>
  The store, and when the sweeping task it spawns ticks first and how often; \<open>t\<close> is the
  \<open>Instant::now()\<close> after hardening.
\<close>

definition secret_store_new :: "platform \<Rightarrow> secret_limits \<Rightarrow> nat \<Rightarrow> ('s secret_store \<times> (nat \<times> nat) option) sys_io" where
  "secret_store_new plat lims t =
     andThen (harden plat) (\<lambda>_. ok (new_store lims,
       if is_zero (sl_sweep_every lims) then None
       else Some (t + as_nanos (sl_sweep_every lims), as_nanos (sl_sweep_every lims))))"

section \<open>What the calls leave behind\<close>

text \<open>The descriptors a log opened and did not close\<close>

definition track :: "sys_call \<times> (error_kind + nat) \<Rightarrow> nat list \<Rightarrow> nat list" where
  "track e ds = (case e of
     (Socket _, Inr d) \<Rightarrow> d # ds
   | (Dup_stdin, Inr d) \<Rightarrow> d # ds
   | (Close d, _) \<Rightarrow> remove1 d ds
   | _ \<Rightarrow> ds)"

definition left_open :: "call_log \<Rightarrow> nat list" where
  "left_open log = fold track log []"

definition logged :: "process \<Rightarrow> process \<Rightarrow> call_log" where
  "logged p p' = drop (length (made p)) (made p')"

definition succeeded :: "sys_call \<times> (error_kind + nat) \<Rightarrow> bool" where
  "succeeded e \<longleftrightarrow> \<not> isl (snd e)"

text \<open>Every connect follows at once on a send timeout set on the same socket.\<close>

definition timed_after :: "duration \<Rightarrow> (sys_call \<times> (error_kind + nat)) \<times> (sys_call \<times> (error_kind + nat)) \<Rightarrow> bool" where
  "timed_after t es = (case es of (before, (c, _)) \<Rightarrow> (case c of
     Connect d _ \<Rightarrow> fst before = Set_send_timeout d t \<and> succeeded before
   | _ \<Rightarrow> True))"

definition timed_connects :: "duration \<Rightarrow> call_log \<Rightarrow> bool" where
  "timed_connects t log \<longleftrightarrow> list_all (timed_after t) (zip ((Close 0, Inr 0) # log) log)"

lemmas startup_run = sys_ask_def Let_def andThen_def on_error_def fail_def ok_def close_fd_def

lemmas startup_log = logged_def left_open_def track_def succeeded_def timed_connects_def timed_after_def

text \<open>C34: The client's connect is prepared and leaks nothing, whatever the kernel answers: a socket is
  connected only right after the deadline's rest was set as its send timeout, a connected socket
  is returned only close-on-exec, and a failure at any call closes the socket it had opened.\<close>

theorem connect_prepared:
  assumes "sys_connect plat address path timeout p = (r, p')"
  shows "made p' = made p @ logged p p' \<and> timed_connects timeout (logged p p') \<and> (case r of
      Inl e \<Rightarrow> e \<noteq> Pending \<and> left_open (logged p p') = []
    | Inr d \<Rightarrow> left_open (logged p p') = [d] \<and> list_all succeeded (logged p p') \<and> address path = None
        \<and> map fst (logged p p') = (if plat = Linux then [Socket True] else [Socket False, Set_cloexec d])
            @ [Set_send_timeout d timeout, Connect d path])"
  using assms
  by (cases plat)
    (auto simp: sys_connect_def stream_socket_def stream_socket_linux_def stream_socket_macos_def
      startup_run startup_log split: sum.splits option.splits prod.splits)

text \<open>C27: The daemon starts in order or not at all. \<open>serve\<close> reaches its accept loop exactly when all of
  its calls succeeded, in this order: the working directory is \<open>/\<close>, standard input is duplicated,
  the duplicate is made non-blocking and registered, and both stop signals are watched; else it
  has stopped at the first failure and closed the duplicate. A secret store exists only in a
  process whose core dumps are off and which, on Linux, is not dumpable, and sweeps exactly
  when it has an interval, first after one interval.\<close>

theorem starts_in_order:
  assumes "serve_start t p = (r, p')" and "secret_store_new plat lims u q = (store, q')"
  shows "(case r of
      Inl e \<Rightarrow> e \<noteq> Pending \<and> left_open (logged p p') = []
        \<and> length (filter (\<lambda>e. \<not> succeeded e) (filter (\<lambda>e. \<forall>d. fst e \<noteq> Close d) (logged p p'))) = 1
    | Inr (d, s) \<Rightarrow> s = listening t \<and> left_open (logged p p') = [d] \<and> list_all succeeded (logged p p')
        \<and> map fst (logged p p') = [Chdir ''/'', Dup_stdin, Set_nonblocking d, Register d, Watch Sigterm, Watch Sigint])
    \<and> (case store of
      Inl e \<Rightarrow> e \<noteq> Pending \<and> \<not> list_all succeeded (logged q q')
    | Inr (st, sweeping) \<Rightarrow> secrets st = Map.empty \<and> list_all succeeded (logged q q')
        \<and> map fst (logged q q') = Set_core_limit (Some 0) (Some 0) # (if plat = Linux then [Set_not_dumpable] else [])
        \<and> sweeping = (if as_nanos (sl_sweep_every lims) = 0 then None
            else Some (u + as_nanos (sl_sweep_every lims), as_nanos (sl_sweep_every lims))))"
proof
  show "case r of
      Inl e \<Rightarrow> e \<noteq> Pending \<and> left_open (logged p p') = []
        \<and> length (filter (\<lambda>e. \<not> succeeded e) (filter (\<lambda>e. \<forall>d. fst e \<noteq> Close d) (logged p p'))) = 1
    | Inr (d, s) \<Rightarrow> s = listening t \<and> left_open (logged p p') = [d] \<and> list_all succeeded (logged p p')
        \<and> map fst (logged p p') = [Chdir ''/'', Dup_stdin, Set_nonblocking d, Register d, Watch Sigterm, Watch Sigint]"
    using assms(1)
    by (auto simp: serve_start_def serve_listener_start_def startup_run startup_log split: sum.splits prod.splits)
  have zero: "is_zero d \<longleftrightarrow> as_nanos d = 0" for d by (auto simp: is_zero_def as_nanos_def unat_eq_0)
  show "case store of
      Inl e \<Rightarrow> e \<noteq> Pending \<and> \<not> list_all succeeded (logged q q')
    | Inr (st, sweeping) \<Rightarrow> secrets st = Map.empty \<and> list_all succeeded (logged q q')
        \<and> map fst (logged q q') = Set_core_limit (Some 0) (Some 0) # (if plat = Linux then [Set_not_dumpable] else [])
        \<and> sweeping = (if as_nanos (sl_sweep_every lims) = 0 then None
            else Some (u + as_nanos (sl_sweep_every lims), as_nanos (sl_sweep_every lims)))"
    using assms(2)
    by (cases plat)
      (auto simp: secret_store_new_def harden_def new_store_def startup_run startup_log zero split: sum.splits prod.splits)
qed

section \<open>Witnesses\<close>

text \<open>A kernel that hands out descriptor 5 and refuses to connect, or agrees to everything.\<close>

definition sample_process :: "bool \<Rightarrow> process" where
  "sample_process good = \<lparr>replies = (\<lambda>_ c. case c of
     Socket _ \<Rightarrow> Inr 5 | Dup_stdin \<Rightarrow> Inr 5
   | Connect _ _ \<Rightarrow> if good then Inr 0 else Inl NotFound | _ \<Rightarrow> Inr 0), made = []\<rparr>"

lemma connect_prepared_witness:
  "left_open (logged (sample_process False) (snd (sys_connect Macos (\<lambda>_. None) ''/s'' (from_secs 5) (sample_process False)))) = []
    \<and> fst (sys_connect Macos (\<lambda>_. None) ''/s'' (from_secs 5) (sample_process False)) = Inl (Err NotFound)"
proof -
  obtain r p where run: "sys_connect Macos (\<lambda>_. None) ''/s'' (from_secs 5) (sample_process False) = (r, p)" by fastforce
  moreover from run have "r = Inl (Err NotFound)"
    by (auto simp: sys_connect_def stream_socket_def stream_socket_macos_def startup_run sample_process_def)
  ultimately show ?thesis using connect_prepared [OF run] by simp
qed

lemma starts_in_order_witness:
  "\<exists>d s p. serve_start 0 (sample_process True) = (Inr (d, s), p) \<and> s = listening 0 \<and> left_open (logged (sample_process True) p) = [d]"
proof -
  obtain r p where run: "serve_start 0 (sample_process True) = (r, p)" by fastforce
  obtain st :: "(error_kind stop + nat secret_store \<times> (nat \<times> nat) option)" and q where
    store: "secret_store_new Linux default_secret_limits 0 (sample_process True) = (st, q)" by fastforce
  from run have "r = Inr (5, listening 0)"
    by (auto simp: serve_start_def serve_listener_start_def startup_run sample_process_def)
  with run starts_in_order [OF run store] show ?thesis by auto
qed

end
