(* ===== verification/Echo.thy ===== *)
theory Echo
  imports Server Startup
begin

text \<open>
  The example daemon (\<open>crates/unixd/examples/echo.rs\<close>), which the install tests run: a handler
  that answers with the process id and the text, the idle timeout from the command line, and
  the start of the daemon; and the \<open>Shutdown\<close> handle (\<open>serve.rs\<close>) the handler asks. The
  handler's error type has no value, so its parts are an argument that is never used.
\<close>

section \<open>The shutdown handle\<close>

text \<open>A \<open>CancellationToken\<close>: whether the drain has been asked for.\<close>

type_synonym shutdown = bool

definition shutdown_new :: shutdown where
  "shutdown_new = False"

definition shutdown_request :: "shutdown \<Rightarrow> shutdown" where
  "shutdown_request asked = True"

section \<open>The handler\<close>

record echoed =
  ec_pid :: u32
  ec_text :: str

definition echo_version :: version where
  "echo_version = \<lparr>major = 1, minor = 0\<rparr>"

definition echo_handle :: "u32 \<Rightarrow> str \<Rightarrow> shutdown \<Rightarrow> ('e + echoed) \<times> shutdown" where
  "echo_handle pid text asked = (Inr \<lparr>ec_pid = pid, ec_text = text\<rparr>,
     if text = ''shutdown'' then shutdown_request asked else asked)"

definition echo_handler :: "u32 \<Rightarrow> ('e, 'j) failure_parts \<Rightarrow> ('j \<Rightarrow> str option) \<Rightarrow> ((str \<times> nat) list \<Rightarrow> 'j) \<Rightarrow>
    (shutdown, str, echoed, 'e, 'j) handler" where
  "echo_handler pid never decode numbers =
     \<lparr>handle = echo_handle pid, failure_of = never, decode_body = decode, json_numbers = numbers\<rparr>"

section \<open>The command line\<close>

text \<open>\<open>str::parse::<u64>\<close>: one optional plus sign, then digits, below \<open>2 ^ 64\<close>\<close>

definition read_decimal :: "str \<Rightarrow> nat" where
  "read_decimal ds = foldl (\<lambda>n c. 10 * n + (of_char c - 48)) 0 ds"

definition parse_u64 :: "str \<Rightarrow> nat option" where
  "parse_u64 s = (let ds = (if s \<noteq> [] \<and> hd s = CHR ''+'' \<and> tl s \<noteq> [] then tl s else s) in
     if ds \<noteq> [] \<and> list_all (\<lambda>c. c \<in> set ''0123456789'') ds \<and> read_decimal ds < 2 ^ 64
     then Some (read_decimal ds) else None)"

definition echo_idle :: "str list \<Rightarrow> nat" where
  "echo_idle args = (case args of
     program # seconds # _ \<Rightarrow> (case parse_u64 seconds of Some n \<Rightarrow> n | None \<Rightarrow> 5)
   | _ \<Rightarrow> 5)"

definition echo_lifecycle :: "str list \<Rightarrow> lifecycle" where
  "echo_lifecycle args = default_lifecycle\<lparr>idle_timeout := echo_idle args\<rparr>"

text \<open>\<open>main\<close>: the lifecycle and the shutdown handle the accept loop runs with, once it does\<close>

definition echo_main :: "str list \<Rightarrow> nat \<Rightarrow> (lifecycle \<times> shutdown \<times> nat \<times> daemon) sys_io" where
  "echo_main args t =
     andThen (serve_start t) (\<lambda>(d, s). ok (echo_lifecycle args, shutdown_new, d, s))"

section \<open>What it does\<close>

lemma read_decimal_snoc: "read_decimal (ds @ [c]) = 10 * read_decimal ds + (of_char c - 48)"
  by (simp add: read_decimal_def)

lemma decimal_digit: "d < 10 \<Longrightarrow> digit_char d \<in> set ''0123456789'' \<and> of_char (digit_char d) = 48 + d"
proof -
  assume "d < 10"
  then have "d \<in> {0, 1, 2, 3, 4, 5, 6, 7, 8, 9}" by auto
  then show ?thesis by (auto simp: digit_char_def)
qed

lemma read_decimal: "read_decimal (decimal n) = n \<and> list_all (\<lambda>c. c \<in> set ''0123456789'') (decimal n)"
proof (induction n rule: less_induct)
  case (less n)
  show ?case
  proof (cases "n < 10")
    case True
    then have "decimal n = [digit_char n]" by (simp add: decimal_def digits_in.simps [of 10 n])
    then show ?thesis using decimal_digit [OF True] by (simp add: read_decimal_def)
  next
    case False
    then have d: "decimal n = decimal (n div 10) @ [digit_char (n mod 10)]"
      by (simp add: decimal_def digits_in.simps [of 10 n])
    have "n mod 10 < 10" "n div 10 < n" using False by simp_all
    with less.IH [of "n div 10"] decimal_digit [of "n mod 10"] show ?thesis
      unfolding d read_decimal_snoc list_all_append by simp
  qed
qed

text \<open>An idle timeout given in digits is the one the daemon runs with, and anything else is 5.\<close>

lemma echo_idle_given: "n < 2 ^ 64 \<Longrightarrow> echo_idle (program # decimal n # others) = n"
proof -
  assume n: "n < 2 ^ 64"
  have ne: "decimal n \<noteq> []" by (simp add: decimal_def digits_in_not_Nil)
  then have "hd (decimal n) \<in> set ''0123456789''" using read_decimal [of n] by (cases "decimal n") simp_all
  then have "hd (decimal n) \<noteq> CHR ''+''" by auto
  with n ne read_decimal [of n] show ?thesis by (simp add: echo_idle_def parse_u64_def)
qed

lemma echo_idle_default:
  "echo_idle [] = 5" "echo_idle [program] = 5" "echo_idle [program, ''''] = 5" "echo_idle [program, ''+''] = 5"
  "echo_idle [program, ''-1''] = 5"
  by (simp_all add: echo_idle_def parse_u64_def)

text \<open>
  A request of this major is answered with the process id and its text, and exactly the text
  \<open>shutdown\<close> asks for the drain.
\<close>

lemma echo_answers:
  assumes "serve_connection j (echo_handler pid never decode numbers) echo_version lims own cn asked = (Some bytes, asked')"
    and "server_read_frame j (max_frame_bytes lims) (cn_in cn) = Some line"
    and "decode_request j line = Some request" and "major (rq_v request) = 1"
    and "decode (rq_body request) = Some text"
  shows "asked' = (asked \<or> text = ''shutdown'')
    \<and> (\<exists>frame. encode_response j \<lparr>rs_v = echo_version, rs_id = rq_id request,
          rs_outcome = Outcome_Ok \<lparr>ec_pid = pid, ec_text = text\<rparr>\<rparr> = Some frame \<and> bytes = frame @ [newline])"
  using assms
  by (auto simp: serve_connection_def serve_as_def respond_def echo_handler_def echo_handle_def echo_version_def
      shutdown_request_def split: if_splits option.splits)

end
