(* ===== verification/Install.thy ===== *)
theory Install
  imports Envelope Paths
begin

text \<open>
  Installing the daemon with the service manager (\<open>crates/unixd/src/install.rs\<close>): the name
  and protocol major of a service, its label and socket path, the launchd agent and the
  systemd units, and the order of the files written and the commands run.

  What the rest of the machine answers is one function \<open>answers\<close> from everything asked and
  answered so far and the next action, so a theorem for every \<open>machine\<close> holds for every
  behaviour of the file system, \<open>launchctl\<close> and \<open>systemctl\<close>. The history \<open>asks\<close> is what
  the properties speak about. An \<open>OsString\<close> and a path are their bytes. Both platforms are
  modelled; \<open>cfg(target_os)\<close> picks one at compile time, here the argument \<open>platform\<close>.
  Not modelled: the XML the \<open>plist\<close> crate writes for an \<open>agent\<close> (the action carries the
  agent itself), and \<open>Command\<close>'s \<open>Debug\<close> text, which is the field \<open>shows\<close>.
\<close>

section \<open>UTF-8 as the standard library reads it\<close>

text \<open>
  \<open>String::from_utf8_lossy\<close>: each maximal ill-formed piece becomes U+FFFD.
  \<open>utf8_matched\<close> counts the continuation bytes accepted after a first byte.
\<close>

definition utf8_width :: "nat \<Rightarrow> nat" where
  "utf8_width b = (if b < 128 then 1 else if 194 \<le> b \<and> b \<le> 223 then 2
     else if 224 \<le> b \<and> b \<le> 239 then 3 else if 240 \<le> b \<and> b \<le> 244 then 4 else 0)"

definition utf8_second :: "nat \<Rightarrow> nat \<Rightarrow> bool" where
  "utf8_second b c \<longleftrightarrow>
     (if b = 224 then 160 \<le> c \<and> c \<le> 191 else if b = 237 then 128 \<le> c \<and> c \<le> 159
      else if b = 240 then 144 \<le> c \<and> c \<le> 191 else if b = 244 then 128 \<le> c \<and> c \<le> 143
      else 128 \<le> c \<and> c \<le> 191)"

definition utf8_continues :: "char \<Rightarrow> bool" where
  "utf8_continues c \<longleftrightarrow> 128 \<le> (of_char c :: nat) \<and> (of_char c :: nat) \<le> 191"

definition utf8_matched :: "char \<Rightarrow> str \<Rightarrow> nat" where
  "utf8_matched b rest = (let w = utf8_width (of_char b) in
     if w \<le> 1 then 0
     else case rest of
       [] \<Rightarrow> 0
     | c # cs \<Rightarrow> if utf8_second (of_char b) (of_char c)
         then Suc (length (takeWhile utf8_continues (take (w - 2) cs))) else 0)"

definition utf8_whole :: "char \<Rightarrow> str \<Rightarrow> bool" where
  "utf8_whole b rest \<longleftrightarrow> Suc (utf8_matched b rest) = utf8_width (of_char b)"

function valid_utf8 :: "str \<Rightarrow> bool" where
  "valid_utf8 [] \<longleftrightarrow> True"
| "valid_utf8 (b # rest) \<longleftrightarrow> utf8_whole b rest \<and> valid_utf8 (drop (utf8_matched b rest) rest)"
  by pat_completeness auto
termination
  by (relation "measure length") auto

definition replacement :: str where
  "replacement = [CHR 0xEF, CHR 0xBF, CHR 0xBD]"

function lossy :: "str \<Rightarrow> str" where
  "lossy [] = []"
| "lossy (b # rest) =
     (if utf8_whole b rest then b # take (utf8_matched b rest) rest else replacement) @
     lossy (drop (utf8_matched b rest) rest)"
  by pat_completeness auto
termination
  by (relation "measure length") auto

text \<open>\<open>str::trim\<close>: the UTF-8 texts of the characters with the property \<open>White_Space\<close>.\<close>

definition white_space :: "str list" where
  "white_space = [[CHR 0x09], [CHR 0x0A], [CHR 0x0B], [CHR 0x0C], [CHR 0x0D], [CHR 0x20],
     [CHR 0xC2, CHR 0x85], [CHR 0xC2, CHR 0xA0], [CHR 0xE1, CHR 0x9A, CHR 0x80],
     [CHR 0xE2, CHR 0x80, CHR 0x80], [CHR 0xE2, CHR 0x80, CHR 0x81], [CHR 0xE2, CHR 0x80, CHR 0x82],
     [CHR 0xE2, CHR 0x80, CHR 0x83], [CHR 0xE2, CHR 0x80, CHR 0x84], [CHR 0xE2, CHR 0x80, CHR 0x85],
     [CHR 0xE2, CHR 0x80, CHR 0x86], [CHR 0xE2, CHR 0x80, CHR 0x87], [CHR 0xE2, CHR 0x80, CHR 0x88],
     [CHR 0xE2, CHR 0x80, CHR 0x89], [CHR 0xE2, CHR 0x80, CHR 0x8A], [CHR 0xE2, CHR 0x80, CHR 0xA8],
     [CHR 0xE2, CHR 0x80, CHR 0xA9], [CHR 0xE2, CHR 0x80, CHR 0xAF], [CHR 0xE2, CHR 0x81, CHR 0x9F],
     [CHR 0xE3, CHR 0x80, CHR 0x80]]"

function strip_front :: "str list \<Rightarrow> str \<Rightarrow> str" where
  "strip_front ws s = (case find (\<lambda>w. w \<noteq> [] \<and> s \<noteq> [] \<and> take (length w) s = w) ws of
     None \<Rightarrow> s
   | Some w \<Rightarrow> strip_front ws (drop (length w) s))"
  by pat_completeness auto
termination
  by (relation "measure (length \<circ> snd)") (auto simp: find_Some_iff intro!: diff_less)

declare strip_front.simps [simp del]

definition trim :: "str \<Rightarrow> str" where
  "trim s = rev (strip_front (map rev white_space) (rev (strip_front white_space s)))"

section \<open>Parent directories\<close>

text \<open>
  \<open>Path::parent\<close> of an absolute path. \<open>last_component\<close> splits the text after the root at
  its last slash; empty components and dots count for nothing.
\<close>

definition last_component :: "str \<Rightarrow> str" where
  "last_component b = rev (takeWhile (\<lambda>c. c \<noteq> CHR ''/'') (rev b))"

definition before_last :: "str \<Rightarrow> str" where
  "before_last b = rev (drop 1 (dropWhile (\<lambda>c. c \<noteq> CHR ''/'') (rev b)))"

lemma before_last_shorter: "b \<noteq> [] \<Longrightarrow> length (before_last b) < length b"
proof -
  assume "b \<noteq> []"
  moreover have "length (dropWhile (\<lambda>c. c \<noteq> CHR ''/'') (rev b)) \<le> length b"
    using length_dropWhile_le [of "\<lambda>c. c \<noteq> CHR ''/''" "rev b"] by (simp only: length_rev)
  ultimately show ?thesis
    unfolding before_last_def length_rev length_drop by (cases b) simp_all
qed

function trim_right :: "str \<Rightarrow> str" where
  "trim_right b = (if b = [] then []
     else if last_component b \<in> {'''', ''.''} then trim_right (before_last b) else b)"
  by pat_completeness auto
termination
  by (relation "measure length") (simp_all add: before_last_shorter)

declare trim_right.simps [simp del]

definition parent :: "str \<Rightarrow> str option" where
  "parent p = (if is_absolute p then
     let b = trim_right (tl p) in
       if b = [] then None else Some (''/'' @ trim_right (before_last b))
     else None)"

section \<open>Services and errors\<close>

record service =
  s_name :: str
  s_major :: u16

definition service_new :: "str \<Rightarrow> version \<Rightarrow> service" where
  "service_new name v = \<lparr>s_name = name, s_major = major v\<rparr>"

definition label :: "service \<Rightarrow> str" where
  "label s = s_name s @ ''-v'' @ decimal (unat (s_major s))"

datatype std_error = Kind error_kind | Other str

datatype install_error =
    No_Base_Directory str
  | Not_Unicode str
  | Socket_Path_Too_Long str nat
  | Socket_Not_Ready str
  | Command_Failed str str
  | Install_Io std_error

definition install_error_display :: "(std_error \<Rightarrow> str) \<Rightarrow> install_error \<Rightarrow> str" where
  "install_error_display text e = (case e of
     No_Base_Directory variable \<Rightarrow> variable @ '' is unset or not an absolute path''
   | Not_Unicode word \<Rightarrow> lossy word @ '' is not UTF-8''
   | Socket_Path_Too_Long p limit \<Rightarrow>
       ''the socket path '' @ lossy p @ '' is longer than '' @ decimal limit @ '' bytes''
   | Socket_Not_Ready p \<Rightarrow> ''launchd did not create '' @ lossy p
   | Command_Failed command err \<Rightarrow> command @ '' failed: '' @ err
   | Install_Io err \<Rightarrow> ''unit file error: '' @ text err)"

definition install_error_source :: "install_error \<Rightarrow> std_error option" where
  "install_error_source e = (case e of Install_Io err \<Rightarrow> Some err | _ \<Rightarrow> None)"

section \<open>The machine\<close>

text \<open>The launchd agent, nested as its plist is\<close>

record listener =
  sock_path_name :: str
  sock_path_mode :: u32

record sockets =
  sk_listener :: listener

record inetd =
  inetd_wait :: bool

record agent =
  a_label :: str
  a_program_arguments :: "str list"
  a_sockets :: sockets
  a_inetd_compatibility :: inetd
  a_throttle_interval :: u32

datatype action =
    Make_Dirs str u32
  | Write_File str str
  | Write_Plist str agent
  | Remove_File str
  | Remove_Dir str
  | Exists str
  | Stat str
  | Run "str list"
  | Sleep nat  \<comment> \<open>milliseconds\<close>

datatype answer =
    Done
  | Failed std_error
  | Exited bool str  \<comment> \<open>whether the status is success, and standard error\<close>
  | Is ftype u32  \<comment> \<open>the type and owner \<open>symlink_metadata\<close> found\<close>

record machine =
  vars :: "str \<Rightarrow> str option"
  own_uid :: u32
  debug_text :: "str list \<Rightarrow> str"  \<comment> \<open>\<open>{:?}\<close> of a \<open>Command\<close>\<close>
  error_text :: "std_error \<Rightarrow> str"
  answers :: "(action \<times> answer) list \<Rightarrow> action \<Rightarrow> answer"
  asks :: "(action \<times> answer) list"

type_synonym 'a install_io = "(machine, install_error, 'a) io"

definition ask :: "action \<Rightarrow> (answer \<Rightarrow> 'a install_io) \<Rightarrow> 'a install_io" where
  "ask act k m =
     k (answers m (asks m) act) (m\<lparr>asks := asks m @ [(act, answers m (asks m) act)]\<rparr>)"

text \<open>A call of \<open>std::fs\<close> with \<open>?\<close>, which turns an \<open>io::Error\<close> into \<open>InstallError::Io\<close>.\<close>

definition file_call :: "action \<Rightarrow> unit install_io" where
  "file_call act = ask act (\<lambda>a. case a of Failed e \<Rightarrow> fail (Install_Io e) | _ \<Rightarrow> ok ())"

definition absolute_env :: "str \<Rightarrow> str install_io" where
  "absolute_env variable m = (case vars m variable of
     Some p \<Rightarrow> if is_absolute p then ok p m else fail (No_Base_Directory variable) m
   | None \<Rightarrow> fail (No_Base_Directory variable) m)"

definition run :: "str list \<Rightarrow> unit install_io" where
  "run command = ask (Run command) (\<lambda>a. case a of
     Failed e \<Rightarrow> fail (Install_Io e)
   | Exited good err \<Rightarrow> if good then ok ()
       else (\<lambda>m. fail (Command_Failed (debug_text m command) (trim (lossy err))) m)
   | _ \<Rightarrow> ok ())"

definition io_kind :: "std_error \<Rightarrow> error_kind" where
  "io_kind e = (case e of Kind k \<Rightarrow> k | Other _ \<Rightarrow> OtherKind)"

definition remove_if_present :: "str \<Rightarrow> unit install_io" where
  "remove_if_present p = ask (Remove_File p) (\<lambda>a. case a of
     Failed e \<Rightarrow> if io_kind e \<noteq> NotFound then fail (Install_Io e) else ok ()
   | _ \<Rightarrow> ok ())"

section \<open>Both platforms: where things are\<close>

definition max_socket_path_macos :: nat where
  "max_socket_path_macos = 103"

definition max_socket_path_linux :: nat where
  "max_socket_path_linux = 107"

definition max_socket_path :: "platform \<Rightarrow> nat" where
  "max_socket_path pl = (case pl of Macos \<Rightarrow> max_socket_path_macos | Linux \<Rightarrow> max_socket_path_linux)"

definition socket_dir_macos :: "str \<Rightarrow> str install_io" where
  "socket_dir_macos name = andThen (absolute_env ''HOME'')
     (\<lambda>home. ok (path_join (path_join (path_join home ''Library'') ''Application Support'') name))"

definition socket_dir_linux :: "str \<Rightarrow> str install_io" where
  "socket_dir_linux name = andThen (absolute_env ''XDG_RUNTIME_DIR'') (\<lambda>dir. ok (path_join dir name))"

definition socket_dir :: "platform \<Rightarrow> str \<Rightarrow> str install_io" where
  "socket_dir pl name = (case pl of Macos \<Rightarrow> socket_dir_macos name | Linux \<Rightarrow> socket_dir_linux name)"

definition socket_path :: "platform \<Rightarrow> service \<Rightarrow> str install_io" where
  "socket_path pl s = andThen (socket_dir pl (s_name s)) (\<lambda>dir. ok (path_join dir (label s @ ''.sock'')))"

section \<open>macOS\<close>

definition plist_path :: "service \<Rightarrow> str install_io" where
  "plist_path s = andThen (absolute_env ''HOME'')
     (\<lambda>home. ok (path_join (path_join (path_join home ''Library'') ''LaunchAgents'') (label s @ ''.plist'')))"

definition domain :: "machine \<Rightarrow> str" where
  "domain m = ''gui/'' @ decimal (unat (own_uid m))"

definition job :: "service \<Rightarrow> machine \<Rightarrow> str" where
  "job s m = domain m @ ''/'' @ label s"

definition loaded :: "service \<Rightarrow> bool install_io" where
  "loaded s m = ask (Run [''launchctl'', ''print'', job s m])
     (\<lambda>a. ok (case a of Failed e \<Rightarrow> False | Exited good err \<Rightarrow> good | _ \<Rightarrow> True)) m"

text \<open>The bounded polling loop of \<open>bootout\<close>, with the turns it has left.\<close>

fun await_unloaded :: "service \<Rightarrow> nat \<Rightarrow> unit install_io" where
  "await_unloaded s 0 m = fail (Command_Failed (''launchctl bootout '' @ job s m)
     ''the job was still loaded after 5 seconds'') m"
| "await_unloaded s (Suc n) m = andThen (loaded s) (\<lambda>l. if \<not> l then ok ()
     else ask (Sleep 100) (\<lambda>a. await_unloaded s n)) m"

definition bootout :: "service \<Rightarrow> unit install_io" where
  "bootout s = andThen (loaded s) (\<lambda>l. if \<not> l then ok ()
     else andThen (\<lambda>m. run [''launchctl'', ''bootout'', job s m] m) (\<lambda>_. await_unloaded s 50))"

fun await_socket :: "str \<Rightarrow> nat \<Rightarrow> unit install_io" where
  "await_socket sock 0 m = fail (Socket_Not_Ready sock) m"
| "await_socket sock (Suc n) m = ask (Stat sock) (\<lambda>a.
     if a = Is Socket (own_uid m) then ok ()
     else ask (Sleep 100) (\<lambda>b. await_socket sock n)) m"

text \<open>\<open>collect::<Result<Vec<_>, _>>\<close> of the words as \<open>str\<close>: the first bad word is the error.\<close>

fun unicode_words :: "str list \<Rightarrow> str list install_io" where
  "unicode_words [] = ok []"
| "unicode_words (w # ws) = (if valid_utf8 w
     then andThen (unicode_words ws) (\<lambda>vs. ok (w # vs)) else fail (Not_Unicode w))"

definition agent_of :: "service \<Rightarrow> str \<Rightarrow> str list \<Rightarrow> agent" where
  "agent_of s sock words = \<lparr>a_label = label s, a_program_arguments = words,
     a_sockets = \<lparr>sk_listener = \<lparr>sock_path_name = sock, sock_path_mode = 384\<rparr>\<rparr>,
     a_inetd_compatibility = \<lparr>inetd_wait = True\<rparr>, a_throttle_interval = 1\<rparr>"

definition make_private_dir :: "str \<Rightarrow> unit install_io" where
  "make_private_dir p = file_call (Make_Dirs p 448)"

definition write_plist :: "str \<Rightarrow> agent \<Rightarrow> unit install_io" where
  "write_plist p a = ask (Write_Plist p a) (\<lambda>r. case r of
     Failed e \<Rightarrow> (\<lambda>m. fail (Install_Io (Other (error_text m e))) m) | _ \<Rightarrow> ok ())"

text \<open>\<open>if let Some(dir) = path.parent() { mk(dir)?; }\<close>\<close>

definition in_parent :: "str \<Rightarrow> (str \<Rightarrow> unit install_io) \<Rightarrow> unit install_io" where
  "in_parent p mk = (case parent p of Some dir \<Rightarrow> mk dir | None \<Rightarrow> ok ())"

definition macos_install :: "service \<Rightarrow> str \<Rightarrow> str \<Rightarrow> str list \<Rightarrow> unit install_io" where
  "macos_install s sock program args =
     andThen (unicode_words (program # args)) (\<lambda>words.
     andThen (in_parent sock make_private_dir) (\<lambda>_.
     andThen (plist_path s) (\<lambda>plist.
     andThen (in_parent plist (\<lambda>dir. file_call (Make_Dirs dir 511))) (\<lambda>_.
     andThen (write_plist plist (agent_of s sock words)) (\<lambda>_.
     andThen (bootout s) (\<lambda>_.
     andThen (\<lambda>m. run [''launchctl'', ''bootstrap'', domain m, plist] m) (\<lambda>_.
     await_socket sock 50)))))))"

definition macos_uninstall :: "service \<Rightarrow> unit install_io" where
  "macos_uninstall s =
     andThen (bootout s) (\<lambda>_.
     andThen (plist_path s) (\<lambda>plist.
     andThen (remove_if_present plist) (\<lambda>_.
     andThen (socket_path Macos s) (\<lambda>sock.
     remove_if_present sock))))"

section \<open>Linux\<close>

definition unit_dir :: "str install_io" where
  "unit_dir = andThen (\<lambda>m. case absolute_env ''XDG_CONFIG_HOME'' m of
       (Inl e, m') \<Rightarrow> andThen (absolute_env ''HOME'') (\<lambda>home. ok (path_join home ''.config'')) m'
     | (Inr config, m') \<Rightarrow> (Inr config, m'))
     (\<lambda>config. ok (path_join (path_join config ''systemd'') ''user''))"

definition systemctl :: "str list \<Rightarrow> str list" where
  "systemctl args = ''systemctl'' # ''--user'' # args"

definition quote_char :: "char \<Rightarrow> str" where
  "quote_char c = (if c = CHR 0x5C \<or> c = CHR 0x22 then [CHR 0x5C, c]
     else if c = CHR ''%'' then ''%%'' else if c = CHR ''$'' then ''$$'' else [c])"

text \<open>
  \<open>quote\<close> goes over the characters of the text; the four it escapes are single bytes, and
  no byte of a longer character is one of them, so going over the bytes is the same.
\<close>

definition quote :: "str \<Rightarrow> str" where
  "quote word = [CHR 0x22] @ concat (map quote_char (lossy word)) @ [CHR 0x22]"

fun exec_line :: "str \<Rightarrow> str list \<Rightarrow> str" where
  "exec_line exec [] = exec"
| "exec_line exec (a # as) = exec_line (exec @ '' '' @ quote a) as"

definition text_lines :: "str list \<Rightarrow> str" where
  "text_lines ls = concat (map (\<lambda>l. l @ [CHR 0x0A]) ls)"

definition socket_unit :: "service \<Rightarrow> str \<Rightarrow> str" where
  "socket_unit s sock = text_lines
    [''[Unit]'',
     ''Description='' @ label s @ '' socket'',
     [],
     ''[Socket]'',
     ''ListenStream='' @ lossy sock,
     ''SocketMode=0600'',
     ''DirectoryMode=0700'',
     ''Accept=no'',
     ''TriggerLimitIntervalSec=2'',
     ''TriggerLimitBurst=200'',
     [],
     ''[Install]'',
     ''WantedBy=sockets.target'']"

definition service_unit :: "service \<Rightarrow> str \<Rightarrow> str" where
  "service_unit s exec = text_lines
    [''[Unit]'',
     ''Description='' @ label s,
     ''Requires='' @ label s @ ''.socket'',
     ''StartLimitIntervalSec=10'',
     ''StartLimitBurst=100'',
     [],
     ''[Service]'',
     ''ExecStart='' @ exec,
     ''StandardInput=socket'',
     ''StandardOutput=journal'',
     ''StandardError=journal'']"

definition linux_install :: "service \<Rightarrow> str \<Rightarrow> str \<Rightarrow> str list \<Rightarrow> unit install_io" where
  "linux_install s sock program args =
     andThen unit_dir (\<lambda>units.
     andThen (file_call (Make_Dirs units 511)) (\<lambda>_.
     andThen (file_call (Write_File (path_join units (label s @ ''.socket'')) (socket_unit s sock))) (\<lambda>_.
     andThen (file_call (Write_File (path_join units (label s @ ''.service''))
       (service_unit s (exec_line (quote program) args)))) (\<lambda>_.
     andThen (run (systemctl [''daemon-reload''])) (\<lambda>_.
     run (systemctl [''enable'', ''--now'', label s @ ''.socket'']))))))"

definition exists :: "str \<Rightarrow> bool install_io" where
  "exists p = ask (Exists p) (\<lambda>a. ok (case a of Failed e \<Rightarrow> False | _ \<Rightarrow> True))"

definition linux_uninstall :: "service \<Rightarrow> unit install_io" where
  "linux_uninstall s =
     andThen unit_dir (\<lambda>units.
     andThen (exists (path_join units (label s @ ''.socket''))) (\<lambda>there.
     andThen (if there then run (systemctl [''disable'', ''--now'', label s @ ''.socket'',
         label s @ ''.service'']) else ok ()) (\<lambda>_.
     andThen (remove_if_present (path_join units (label s @ ''.socket''))) (\<lambda>_.
     andThen (remove_if_present (path_join units (label s @ ''.service''))) (\<lambda>_.
     andThen (socket_path Linux s) (\<lambda>sock.
     andThen (remove_if_present sock) (\<lambda>_.
     run (systemctl [''daemon-reload'']))))))))"

section \<open>Install and uninstall\<close>

definition install :: "platform \<Rightarrow> service \<Rightarrow> str \<Rightarrow> str list \<Rightarrow> unit install_io" where
  "install pl s program args =
     andThen (socket_path pl s) (\<lambda>sock.
       if length sock > max_socket_path pl
       then fail (Socket_Path_Too_Long sock (max_socket_path pl))
       else (case pl of Macos \<Rightarrow> macos_install s sock program args
         | Linux \<Rightarrow> linux_install s sock program args))"

definition remove_socket_dir :: "str \<Rightarrow> unit install_io" where
  "remove_socket_dir dir = ask (Remove_Dir dir) (\<lambda>a. case a of
     Failed e \<Rightarrow> if io_kind e \<notin> {NotFound, DirectoryNotEmpty} then fail (Install_Io e) else ok ()
   | _ \<Rightarrow> ok ())"

definition uninstall :: "platform \<Rightarrow> service \<Rightarrow> unit install_io" where
  "uninstall pl s =
     andThen (case pl of Macos \<Rightarrow> macos_uninstall s | Linux \<Rightarrow> linux_uninstall s) (\<lambda>_.
     andThen (socket_path pl s) (\<lambda>sock.
     in_parent sock remove_socket_dir))"

end
