(* ===== verification/Install_Properties.thy ===== *)
theory Install_Properties
  imports Install
begin

text \<open>
  What installing and uninstalling promise: labels and socket paths that no two services
  share, \<open>ExecStart\<close> lines that give back their words, the order in which files and the
  service manager are touched, bounded waiting, and an uninstall that undoes an install.
\<close>

lemmas socket_dir_defs = socket_dir_def socket_dir_macos_def socket_dir_linux_def

lemmas max_socket_path_defs = max_socket_path_def max_socket_path_macos_def max_socket_path_linux_def

section \<open>UTF-8\<close>

lemma lossy_of_valid: "valid_utf8 s \<Longrightarrow> lossy s = s"
  by (induction s rule: valid_utf8.induct) simp_all

lemma continuation_not_ascii:
  "c \<in> set (take (utf8_matched b rest) rest) \<Longrightarrow> 128 \<le> (of_char c :: nat)"
proof -
  assume "c \<in> set (take (utf8_matched b rest) rest)"
  then obtain d cs where rest: "rest = d # cs" and w: "1 < utf8_width (of_char b)"
    and second: "utf8_second (of_char b) (of_char d)"
    and c: "c = d \<or> c \<in> set (take (length (takeWhile utf8_continues (take (utf8_width (of_char b) - 2) cs))) cs)"
    by (auto simp: utf8_matched_def Let_def split: if_splits list.splits)
  have "set (take (length (takeWhile utf8_continues (take n cs))) cs) \<subseteq> {x. utf8_continues x}" for n
  proof -
    have "length (takeWhile utf8_continues (take n cs)) \<le> n"
      using length_takeWhile_le [of utf8_continues "take n cs"] by simp
    then have "take (length (takeWhile utf8_continues (take n cs))) cs = takeWhile utf8_continues (take n cs)"
      using takeWhile_eq_take [of utf8_continues "take n cs"] by (simp add: min_def)
    then show ?thesis using set_takeWhileD by fastforce
  qed
  with c second show ?thesis
    by (auto simp: utf8_second_def utf8_continues_def split: if_splits)
qed

lemma ascii_in_lossy: "of_char c < (128 :: nat) \<Longrightarrow> c \<in> set (lossy s) \<longleftrightarrow> c \<in> set s"
proof (induction s rule: lossy.induct)
  case (2 b rest)
  let ?n = "utf8_matched b rest"
  have cont: "c \<notin> set (take ?n rest)" using continuation_not_ascii [of c b rest] 2(2) by auto
  have rest: "c \<in> set rest \<longleftrightarrow> c \<in> set (drop ?n rest)"
    using cont by (metis append_take_drop_id set_append Un_iff)
  have bad: "\<not> utf8_whole b rest \<Longrightarrow> c \<noteq> b"
    using 2(2) by (auto simp: utf8_whole_def utf8_matched_def utf8_width_def)
  have "c \<notin> set replacement" using 2(2) by (auto simp: replacement_def)
  with 2 cont rest bad show ?case by auto
qed simp

section \<open>The \<open>ExecStart\<close> line\<close>

text \<open>
  A reader of quoted words, from the documentation of \<open>quote\<close>: after a backslash the next
  character stands for itself, \<open>%%\<close> and \<open>$$\<close> for \<open>%\<close> and \<open>$\<close>; words are separated by a
  space. It is the specification the line is checked against.
\<close>

fun read_word :: "str \<Rightarrow> (str \<times> str) option" where
  "read_word [] = None"
| "read_word (c # s) =
     (if c = CHR 0x22 then Some ([], s)
      else if c = CHR 0x5C \<or> c = CHR ''%'' \<or> c = CHR ''$'' then
        (case s of
           [] \<Rightarrow> None
         | d # s' \<Rightarrow> if c = CHR 0x5C \<or> d = c
             then map_option (\<lambda>(w, r). (d # w, r)) (read_word s') else None)
      else map_option (\<lambda>(w, r). (c # w, r)) (read_word s))"

fun read_words :: "nat \<Rightarrow> str \<Rightarrow> str list option" where
  "read_words 0 s = None"
| "read_words (Suc n) s = (case s of
     c # s' \<Rightarrow> if c = CHR 0x22 then (case read_word s' of
         Some (w, []) \<Rightarrow> Some [w]
       | Some (w, b # r) \<Rightarrow> if b = CHR '' '' then map_option ((#) w) (read_words n r) else None
       | None \<Rightarrow> None) else None
   | [] \<Rightarrow> None)"

definition read_exec :: "str \<Rightarrow> str list option" where
  "read_exec s = read_words (length s) s"

lemma read_word_quoted: "read_word (concat (map quote_char w) @ CHR 0x22 # r) = Some (w, r)"
  by (induction w) (simp_all add: quote_char_def)

lemma read_words_more: "read_words n s = Some ws \<Longrightarrow> n \<le> k \<Longrightarrow> read_words k s = Some ws"
proof (induction n arbitrary: k s ws)
  case (Suc n)
  from Suc.prems(2) obtain k' where k: "k = Suc k'" and "n \<le> k'" by (cases k) auto
  then have more: "read_words n r = Some vs \<Longrightarrow> read_words k' r = Some vs" for r vs
    using Suc.IH by blast
  from Suc.prems(1) show ?case
    by (simp add: k more split: list.splits option.splits if_splits prod.splits) (auto simp: more)
qed simp

lemma exec_line_append: "exec_line e as = e @ concat (map (\<lambda>a. '' '' @ quote a) as)"
  by (induction e as rule: exec_line.induct) simp_all

lemma read_words_quoted:
  "read_words (Suc (length as)) (quote p @ concat (map (\<lambda>a. '' '' @ quote a) as)) =
     Some (map lossy (p # as))"
proof (induction as arbitrary: p)
  case Nil
  then show ?case using read_word_quoted [of "lossy p" "[]"] by (simp add: quote_def)
next
  case (Cons a as)
  have "read_word (concat (map quote_char (lossy p)) @ CHR 0x22 # '' '' @ quote a @
      concat (map (\<lambda>a. '' '' @ quote a) as)) =
    Some (lossy p, '' '' @ quote a @ concat (map (\<lambda>a. '' '' @ quote a) as))"
    by (rule read_word_quoted)
  with Cons [of a] show ?case by (simp add: quote_def)
qed

lemma exec_line_long: "Suc (length as) \<le> length (exec_line (quote p) as)"
  by (induction as rule: rev_induct) (simp_all add: exec_line_append quote_def)

lemma newline_quoted: "CHR 0x0A \<in> set (quote w) \<longleftrightarrow> CHR 0x0A \<in> set w"
proof -
  have "CHR 0x0A \<in> set (quote_char c) \<longleftrightarrow> c = CHR 0x0A" for c by (auto simp: quote_char_def)
  then have "CHR 0x0A \<in> set (quote w) \<longleftrightarrow> CHR 0x0A \<in> set (lossy w)" by (auto simp: quote_def)
  then show ?thesis by (simp add: ascii_in_lossy)
qed


section \<open>Labels and socket paths\<close>

lemma no_dash_in_decimal: "CHR ''-'' \<notin> set (decimal n)"
  using digits_in_chars [of 10 n] by (auto simp: decimal_def)

lemma up_to_first:
  "c \<notin> set xs \<Longrightarrow> takeWhile (\<lambda>x. x \<noteq> c) (xs @ c # ys) = xs"
  "c \<notin> set xs \<Longrightarrow> dropWhile (\<lambda>x. x \<noteq> c) (xs @ c # ys) = c # ys"
  by (induction xs) auto

lemma label_inj: "label s = label t \<longleftrightarrow> s = t"
proof
  assume eq: "label s = label t"
  have rev: "rev (label u) = (rev (decimal (unat (s_major u))) @ ''v'') @ CHR ''-'' # rev (s_name u)"
    for u :: service by (simp add: label_def)
  have dash: "CHR ''-'' \<notin> set (rev (decimal (unat (s_major u))) @ ''v'')" for u :: service
    using no_dash_in_decimal by simp
  have "takeWhile (\<lambda>x. x \<noteq> CHR ''-'') (rev (label u)) = rev (decimal (unat (s_major u))) @ ''v''"
    and "dropWhile (\<lambda>x. x \<noteq> CHR ''-'') (rev (label u)) = CHR ''-'' # rev (s_name u)" for u :: service
    unfolding rev by (rule up_to_first [OF dash])+
  from this [of s] this [of t] eq
  have "decimal (unat (s_major s)) = decimal (unat (s_major t))" and "s_name s = s_name t" by simp_all
  then show "s = t" by (cases s; cases t) (auto dest!: decimal_inj simp: word_unat_eq_iff)
qed simp

lemma absolute_env_cases:
  "absolute_env v m = (case vars m v of
     Some p \<Rightarrow> if is_absolute p then (Inr p, m) else (Inl (Err (No_Base_Directory v)), m)
   | None \<Rightarrow> (Inl (Err (No_Base_Directory v)), m))"
  by (simp add: absolute_env_def split: option.split)

lemma last_component_join: "CHR ''/'' \<notin> set q \<Longrightarrow> d \<noteq> [] \<Longrightarrow> last_component (path_join d q) = q"
proof -
  assume q: "CHR ''/'' \<notin> set q" and "d \<noteq> []"
  then have "\<not> is_absolute q" by (cases q) (auto simp: is_absolute_def)
  moreover obtain e c where d: "d = e @ [c]" using \<open>d \<noteq> []\<close> by (cases d rule: rev_cases) auto
  moreover have "takeWhile (\<lambda>x. x \<noteq> CHR ''/'') (rev q @ CHR ''/'' # ys) = rev q" for ys
    using q by (simp add: up_to_first)
  ultimately show ?thesis
    by (auto simp: path_join_def last_component_def)
qed

lemma absolute_env_Inr:
  "absolute_env v m = (Inr p, m') \<longleftrightarrow> m' = m \<and> vars m v = Some p \<and> is_absolute p"
  by (auto simp: absolute_env_cases split: option.splits if_splits)

lemma ok_Inr: "ok x m = (Inr y, m') \<longleftrightarrow> y = x \<and> m' = m"
  by (auto simp: ok_def)

lemma socket_dir_ok: "socket_dir pl n m = (Inr d, m') \<Longrightarrow> m' = m \<and> is_absolute d"
  unfolding socket_dir_defs
  by (cases pl) (auto simp only: platform.case andThen_eq_Inr_iff absolute_env_Inr ok_Inr intro: join_absolute)

lemma socket_path_ok:
  assumes "socket_path pl s m = (Inr p, m')"
  shows "m' = m \<and> is_absolute p \<and> (\<exists>d. is_absolute d \<and> p = path_join d (label s @ ''.sock''))"
proof -
  obtain d m1 where d: "socket_dir pl (s_name s) m = (Inr d, m1)" "p = path_join d (label s @ ''.sock'')" "m' = m1"
    using assms unfolding socket_path_def andThen_eq_Inr_iff ok_Inr by blast
  then show ?thesis using socket_dir_ok [OF d(1)] join_absolute by blast
qed

text \<open>A label names one service: two labels are equal only for the same name and the same
  major, even when a name itself ends like a version. So are two socket paths, which are
  absolute, as long as the names are file names: two majors never share a socket.\<close>

theorem labels_identify_services:
  assumes "CHR ''/'' \<notin> set (s_name s)" and "CHR ''/'' \<notin> set (s_name t)"
    and "socket_path pl s m = (Inr p, m1)" and "socket_path pl t m = (Inr q, m2)"
  shows "(label s = label t \<longleftrightarrow> s = t) \<and> (p = q \<longleftrightarrow> s = t) \<and> is_absolute p \<and> is_absolute q"
proof (intro conjI)
  have digits: "CHR ''/'' \<notin> set (decimal n)" for n
    using digits_in_chars [of 10 n] by (auto simp: decimal_def)
  have named: "last_component r = label u @ ''.sock''"
    if plain: "CHR ''/'' \<notin> set (s_name u)" and path: "socket_path pl u m = (Inr r, m')" for u r m'
  proof -
    obtain d where "is_absolute d" and "r = path_join d (label u @ ''.sock'')"
      using socket_path_ok [OF path] by blast
    moreover have "CHR ''/'' \<notin> set (label u @ ''.sock'')" using plain digits by (simp add: label_def)
    ultimately show ?thesis by (auto simp: is_absolute_def last_component_join)
  qed
  show "label s = label t \<longleftrightarrow> s = t" by (rule label_inj)
  show "p = q \<longleftrightarrow> s = t"
  proof
    assume "p = q"
    with named [OF assms(1,3)] named [OF assms(2,4)] have "label s = label t" by simp
    then show "s = t" by (simp add: label_inj)
  next
    assume "s = t"
    with assms(3,4) show "p = q" by simp
  qed
  show "is_absolute p" "is_absolute q" using socket_path_ok assms(3,4) by blast+
qed

section \<open>Histories\<close>

text \<open>
  \<open>does n P m f\<close>: started on the machine \<open>m\<close> with any history, \<open>f\<close> returns, only adds to
  the history, at most \<open>n\<close> actions and each with \<open>P\<close>.
\<close>

definition does :: "nat \<Rightarrow> (action \<Rightarrow> bool) \<Rightarrow> machine \<Rightarrow> 'a install_io \<Rightarrow> bool" where
  "does n P m f \<longleftrightarrow> (\<forall>h. \<exists>r new. f (m\<lparr>asks := h\<rparr>) = (r, m\<lparr>asks := h @ new\<rparr>) \<and> r \<noteq> Inl Pending \<and>
     length new \<le> n \<and> (\<forall>x \<in> set new. P (fst x)))"

lemma does_ok: "does n P m (ok x)"
  by (auto simp: does_def intro!: exI [of _ "[]"])

lemma does_fail: "does n P m (fail e)"
  by (auto simp: does_def intro!: exI [of _ "[]"])

lemma does_mono: "does k P m f \<Longrightarrow> k \<le> n \<Longrightarrow> does n P m f"
  unfolding does_def by (meson order_trans)

lemma does_ask:
  assumes "P act" and "\<And>a. does n P m (k a)" and "0 < n'" and "n = n' - 1"
  shows "does n' P m (ask act k)"
  unfolding does_def
proof
  fix h
  let ?a = "answers m h act"
  obtain r new where "k ?a (m\<lparr>asks := h @ [(act, ?a)]\<rparr>) = (r, m\<lparr>asks := (h @ [(act, ?a)]) @ new\<rparr>)"
    and "r \<noteq> Inl Pending" and "length new \<le> n" and "\<forall>x \<in> set new. P (fst x)"
    using assms(2) [of ?a] unfolding does_def by blast
  with assms show "\<exists>r new. ask act k (m\<lparr>asks := h\<rparr>) = (r, m\<lparr>asks := h @ new\<rparr>) \<and> r \<noteq> Inl Pending \<and>
      length new \<le> n' \<and> (\<forall>x \<in> set new. P (fst x))"
    by (intro exI [of _ r] exI [of _ "(act, ?a) # new"]) (auto simp: ask_def)
qed

lemma does_andThen:
  assumes "does a P m f" and "\<And>x h h'. f (m\<lparr>asks := h\<rparr>) = (Inr x, m\<lparr>asks := h'\<rparr>) \<Longrightarrow> does b P m (g x)"
  shows "does (a + b) P m (andThen f g)"
  unfolding does_def
proof
  fix h
  obtain r new where f: "f (m\<lparr>asks := h\<rparr>) = (r, m\<lparr>asks := h @ new\<rparr>)" "r \<noteq> Inl Pending"
    "length new \<le> a" "\<forall>x \<in> set new. P (fst x)"
    using assms(1) unfolding does_def by blast
  show "\<exists>r new. andThen f g (m\<lparr>asks := h\<rparr>) = (r, m\<lparr>asks := h @ new\<rparr>) \<and> r \<noteq> Inl Pending \<and>
      length new \<le> a + b \<and> (\<forall>x \<in> set new. P (fst x))"
  proof (cases r)
    case (Inl e)
    with f show ?thesis by (intro exI [of _ "Inl e"] exI [of _ new]) auto
  next
    case (Inr x)
    obtain r' new' where "g x (m\<lparr>asks := h @ new\<rparr>) = (r', m\<lparr>asks := (h @ new) @ new'\<rparr>)"
      "r' \<noteq> Inl Pending" "length new' \<le> b" "\<forall>x \<in> set new'. P (fst x)"
      using assms(2) [of h x "h @ new"] f(1) Inr unfolding does_def by blast
    with f Inr show ?thesis by (intro exI [of _ r'] exI [of _ "new @ new'"]) auto
  qed
qed

text \<open>A computation may look at the machine: only its history changes underway.\<close>

lemma does_here:
  assumes "\<And>h. does n P m (f (m\<lparr>asks := h\<rparr>))"
  shows "does n P m (\<lambda>m. f m m)"
  using assms unfolding does_def by blast

lemma does_silent: "(\<And>h. \<exists>r. f (m\<lparr>asks := h\<rparr>) = (r, m\<lparr>asks := h\<rparr>) \<and> r \<noteq> Inl Pending) \<Longrightarrow> does 0 P m f"
  unfolding does_def by (metis append_Nil2 list.size(3) le_refl empty_iff list.set(1))

lemma does_value: "does n P m (Pair (Inr x))"
  by (auto simp: does_def intro!: exI [of _ "[]"])

lemma does_error: "does n P m (\<lambda>m. (Inl (Err (F m)), m))"
  by (auto simp: does_def intro!: exI [of _ "[]"])

lemmas does_basic = does_ok does_fail does_value does_error

lemma does_file_call: "P act \<Longrightarrow> does 1 P m (file_call act)"
  unfolding file_call_def
  by (rule does_ask) (auto intro: does_basic split: answer.split)

lemma does_run: "P (Run c) \<Longrightarrow> does 1 P m (run c)"
  unfolding run_def
  by (rule does_ask) (auto intro!: does_basic split: answer.split)

lemma does_remove: "P (Remove_File p) \<Longrightarrow> does 1 P m (remove_if_present p)"
  unfolding remove_if_present_def
  by (rule does_ask) (auto intro: does_basic split: answer.split)

lemma does_remove_dir: "P (Remove_Dir p) \<Longrightarrow> does 1 P m (remove_socket_dir p)"
  unfolding remove_socket_dir_def
  by (rule does_ask) (auto intro: does_basic split: answer.split)

lemma does_absolute_env: "does 0 P m (absolute_env v)"
  by (rule does_silent) (auto simp: absolute_env_cases split: option.split)

lemma does_then: "does a P m f \<Longrightarrow> (\<And>x. does b P m (g x)) \<Longrightarrow> a + b \<le> n \<Longrightarrow> does n P m (andThen f g)"
  by (blast intro: does_mono does_andThen)

lemma does_socket_dir: "does 0 P m (socket_dir pl n)"
  unfolding socket_dir_defs
  by (cases pl) (auto intro!: does_then [OF does_absolute_env] does_ok)

lemma does_socket_path: "does 0 P m (socket_path pl s)"
  unfolding socket_path_def by (rule does_then [OF does_socket_dir]) (auto intro: does_basic)

lemma does_plist_path: "does 0 P m (plist_path s)"
  unfolding plist_path_def by (rule does_then [OF does_absolute_env]) (auto intro: does_basic)

lemma does_unicode_words: "does 0 P m (unicode_words ws)"
  by (induction ws) (auto intro: does_basic does_then)

lemma does_unit_dir: "does 0 P m unit_dir"
  unfolding unit_dir_def
  by (rule does_then [of 0 _ _ _ 0])
    (auto intro!: does_silent does_basic simp: absolute_env_cases andThen_def split: option.splits)

lemma job_asks [simp]: "job s (m\<lparr>asks := h\<rparr>) = job s m" "domain (m\<lparr>asks := h\<rparr>) = domain m"
  by (simp_all add: job_def domain_def)

lemma does_loaded: "(\<And>c. P (Run c)) \<Longrightarrow> does 1 P m (loaded s)"
proof -
  assume P: "\<And>c. P (Run c)"
  have "loaded s = (\<lambda>m. ask (Run [''launchctl'', ''print'', job s m])
      (\<lambda>a. ok (case a of Failed e \<Rightarrow> False | Exited good err \<Rightarrow> good | _ \<Rightarrow> True)) m)"
    by (rule ext) (simp add: loaded_def)
  then show ?thesis
    by (simp only:) (rule does_here, rule does_ask, auto intro: P does_basic)
qed

lemma does_await_unloaded:
  assumes "\<And>c. P (Run c)" and "P (Sleep 100)"
  shows "does (2 * n) P m (await_unloaded s n)"
proof (induction n)
  case 0
  have "await_unloaded s 0 = (\<lambda>m. fail (Command_Failed (''launchctl bootout '' @ job s m)
      ''the job was still loaded after 5 seconds'') m)" by (rule ext) simp
  then show ?case by (simp only:) (rule does_here, rule does_fail)
next
  case (Suc n)
  have "await_unloaded s (Suc n) = andThen (loaded s) (\<lambda>l. if \<not> l then ok ()
      else ask (Sleep 100) (\<lambda>a. await_unloaded s n))" by (rule ext) simp
  then show ?case
    by (simp only:) (rule does_then [OF does_loaded [where P = P, OF assms(1)], of "2 * n + 1"],
      auto intro: does_basic does_ask [where P = P, OF assms(2)] Suc)
qed

lemma does_await_socket:
  assumes "P (Stat p)" and "P (Sleep 100)"
  shows "does (2 * n) P m (await_socket p n)"
proof (induction n)
  case 0
  have "await_socket p 0 = fail (Socket_Not_Ready p)" by (rule ext) simp
  then show ?case by (simp only:) (rule does_fail)
next
  case (Suc n)
  have "await_socket p (Suc n) = (\<lambda>m. ask (Stat p) (\<lambda>a. if a = Is Socket (own_uid m) then ok ()
      else ask (Sleep 100) (\<lambda>b. await_socket p n)) m)" by (rule ext) simp
  then show ?case
    by (simp only:) (rule does_here, rule does_ask [where P = P, OF assms(1), of "2 * n + 1"],
      auto intro: does_basic does_ask [where P = P, OF assms(2)] Suc)
qed

lemma does_bootout:
  assumes "\<And>c. P (Run c)" and "P (Sleep 100)"
  shows "does 102 P m (bootout s)"
proof -
  have run: "does 1 P m (\<lambda>m. run [''launchctl'', ''bootout'', job s m] m)"
    by (rule does_here, rule does_run, rule assms(1))
  have wait: "does 100 P m (await_unloaded s 50)"
    using does_await_unloaded [where P = P and n = 50, OF assms] by simp
  have stop: "does 101 P m (andThen (\<lambda>m. run [''launchctl'', ''bootout'', job s m] m) (\<lambda>_. await_unloaded s 50))"
    by (rule does_then [OF run]) (rule wait, simp)
  show ?thesis
    unfolding bootout_def
    by (rule does_then [OF does_loaded [where P = P, OF assms(1)], of 101]) (simp_all add: stop does_basic)
qed

lemma does_in_parent: "(\<And>d. does n P m (mk d)) \<Longrightarrow> does n P m (in_parent p mk)"
  unfolding in_parent_def by (auto intro: does_basic split: option.split)

lemma does_write_plist: "P (Write_Plist p a) \<Longrightarrow> does 1 P m (write_plist p a)"
  unfolding write_plist_def
  by (rule does_ask) (auto intro!: does_basic split: answer.split)

fun removes :: "action \<Rightarrow> bool" where
  "removes (Remove_File p) \<longleftrightarrow> True"
| "removes (Remove_Dir p) \<longleftrightarrow> True"
| "removes _ \<longleftrightarrow> False"

fun writes :: "action \<Rightarrow> bool" where
  "writes (Make_Dirs p k) \<longleftrightarrow> True"
| "writes (Write_File p c) \<longleftrightarrow> True"
| "writes (Write_Plist p a) \<longleftrightarrow> True"
| "writes _ \<longleftrightarrow> False"

lemma does_from:
  "does a P m f \<Longrightarrow> (\<And>x h h'. f (m\<lparr>asks := h\<rparr>) = (Inr x, m\<lparr>asks := h'\<rparr>) \<Longrightarrow> does b P m (g x)) \<Longrightarrow>
     a + b \<le> n \<Longrightarrow> does n P m (andThen f g)"
  by (blast intro: does_mono does_andThen)

lemma does_linux_install:
  assumes run: "\<And>c. P (Run c)" and dirs: "\<And>d k. P (Make_Dirs d k)"
    and units: "\<And>u h h' e c. unit_dir (m\<lparr>asks := h\<rparr>) = (Inr u, m\<lparr>asks := h'\<rparr>) \<Longrightarrow>
      e \<in> {''.socket'', ''.service''} \<Longrightarrow> P (Write_File (path_join u (label s @ e)) c)"
  shows "does 5 P m (linux_install s sock program args)"
  unfolding linux_install_def
proof (rule does_from [where b = 5, OF does_unit_dir])
  fix u h h' assume u: "unit_dir (m\<lparr>asks := h\<rparr>) = (Inr u, m\<lparr>asks := h'\<rparr>)"
  have one_file: "does 1 P m (file_call (Write_File (path_join u (label s @ e)) c))"
    if "e \<in> {''.socket'', ''.service''}" for e c
    by (rule does_file_call, rule units [OF u that])
  show "does 5 P m (andThen (file_call (Make_Dirs u 511)) (\<lambda>_.
     andThen (file_call (Write_File (path_join u (label s @ ''.socket'')) (socket_unit s sock))) (\<lambda>_.
     andThen (file_call (Write_File (path_join u (label s @ ''.service''))
       (service_unit s (exec_line (quote program) args)))) (\<lambda>_.
     andThen (run (systemctl [''daemon-reload''])) (\<lambda>_.
     run (systemctl [''enable'', ''--now'', label s @ ''.socket'']))))))"
    by (rule does_then [where b = 4, OF does_file_call], rule dirs, rule does_then [where b = 3, OF one_file], simp,
      rule does_then [where b = 2, OF one_file], simp, rule does_then [where b = 1, OF does_run], rule run,
      rule does_run, rule run) simp_all
qed simp

lemma does_macos_install:
  assumes run: "\<And>c. P (Run c)" and dirs: "\<And>d k. P (Make_Dirs d k)" and sleep: "P (Sleep 100)"
    and stat: "P (Stat sock)"
    and plists: "\<And>p h h' a. plist_path s (m\<lparr>asks := h\<rparr>) = (Inr p, m\<lparr>asks := h'\<rparr>) \<Longrightarrow> P (Write_Plist p a)"
  shows "does 206 P m (macos_install s sock program args)"
proof -
  have await: "does 100 P m (await_socket sock 50)"
    using does_await_socket [where P = P and n = 50, OF stat sleep] by simp
  have boot: "does 1 P m (\<lambda>m. run [''launchctl'', ''bootstrap'', domain m, p] m)" for p
    by (rule does_here, rule does_run, rule run)
  have dir: "does 1 P m (in_parent p (\<lambda>d. file_call (Make_Dirs d k)))" for p k
    by (rule does_in_parent, rule does_file_call, rule dirs)
  have out: "does 102 P m (bootout s)" by (rule does_bootout [where P = P, OF run sleep])
  have rest: "does 205 P m (andThen (in_parent p (\<lambda>d. file_call (Make_Dirs d 511))) (\<lambda>_.
     andThen (write_plist p (agent_of s sock words)) (\<lambda>_.
     andThen (bootout s) (\<lambda>_.
     andThen (\<lambda>m. run [''launchctl'', ''bootstrap'', domain m, p] m) (\<lambda>_.
     await_socket sock 50)))))"
    if "plist_path s (m\<lparr>asks := h\<rparr>) = (Inr p, m\<lparr>asks := h'\<rparr>)" for p h h' words
    by (rule does_then [where b = 204, OF dir], rule does_then [where b = 203, OF does_write_plist],
      rule plists [OF that], rule does_then [where b = 101, OF out], rule does_then [where b = 100, OF boot],
      rule await) simp_all
  show ?thesis
    unfolding macos_install_def make_private_dir_def
    by (rule does_then [where b = 206, OF does_unicode_words], rule does_then [where b = 205, OF dir],
      rule does_from [where b = 205, OF does_plist_path], rule rest) simp_all
qed

lemma does_linux_uninstall: "does 6 (\<lambda>x. \<not> writes x) m (linux_uninstall s)"
proof -
  let ?P = "\<lambda>x. \<not> writes x"
  have there: "does 1 ?P m (exists p)" for p
    unfolding exists_def by (rule does_ask) (auto intro: does_basic)
  have off: "does 1 ?P m (if b then run c else ok ())" for b c
    by (cases b) (simp_all only: if_True if_False, rule does_run, simp, rule does_ok)
  have gone: "does 1 ?P m (remove_if_present p)" for p by (rule does_remove) simp
  show ?thesis
    unfolding linux_uninstall_def
    by (rule does_then [where b = 6, OF does_unit_dir], rule does_then [where b = 5, OF there],
        rule does_then [where b = 4, OF off], rule does_then [where b = 3, OF gone], rule does_then [where b = 2, OF gone],
        rule does_then [where b = 2, OF does_socket_path], rule does_then [where b = 1, OF gone],
        rule does_run) simp_all
qed

lemma does_macos_uninstall: "does 104 (\<lambda>x. \<not> writes x) m (macos_uninstall s)"
proof -
  let ?P = "\<lambda>x. \<not> writes x"
  have gone: "does 1 ?P m (remove_if_present p)" for p by (rule does_remove) simp
  have out: "does 102 ?P m (bootout s)" by (rule does_bootout) simp_all
  show ?thesis
    unfolding macos_uninstall_def
    by (rule does_then [where b = 2, OF out], rule does_then [where b = 2, OF does_plist_path],
        rule does_then [where b = 1, OF gone], rule does_then [where b = 1, OF does_socket_path], rule gone) simp_all
qed

lemma does_uninstall: "does 105 (\<lambda>x. \<not> writes x) m (uninstall pl s)"
proof -
  have remove: "does 1 (\<lambda>x. \<not> writes x) m (in_parent p remove_socket_dir)" for p
    by (rule does_in_parent, rule does_remove_dir) simp
  have "does 104 (\<lambda>x. \<not> writes x) m (case pl of Macos \<Rightarrow> macos_uninstall s | Linux \<Rightarrow> linux_uninstall s)"
    using does_macos_uninstall does_linux_uninstall [THEN does_mono] by (cases pl) auto
  then show ?thesis
    unfolding uninstall_def
    by (rule does_then [where b = 1]) (rule does_then [where b = 1, OF does_socket_path], rule remove, simp_all)
qed

lemma does_platform_install:
  assumes "\<And>c. P (Run c)" and "\<And>d k. P (Make_Dirs d k)" and "P (Sleep 100)" and "P (Stat sock)"
    and "\<And>p h h' a. pl = Macos \<Longrightarrow> plist_path s (m\<lparr>asks := h\<rparr>) = (Inr p, m\<lparr>asks := h'\<rparr>) \<Longrightarrow> P (Write_Plist p a)"
    and "\<And>u h h' e c. pl = Linux \<Longrightarrow> unit_dir (m\<lparr>asks := h\<rparr>) = (Inr u, m\<lparr>asks := h'\<rparr>) \<Longrightarrow>
      e \<in> {''.socket'', ''.service''} \<Longrightarrow> P (Write_File (path_join u (label s @ e)) c)"
  shows "does 206 P m
     (case pl of Macos \<Rightarrow> macos_install s sock program args | Linux \<Rightarrow> linux_install s sock program args)"
proof (cases pl)
  case Macos
  with does_macos_install [where P = P and m = m and s = s and sock = sock] assms show ?thesis by simp
next
  case Linux
  with does_linux_install [where P = P and m = m and s = s, THEN does_mono, of 206] assms show ?thesis by simp
qed

lemma does_apply:
  assumes "does n P m f"
  shows "\<exists>r new. f m = (r, m\<lparr>asks := asks m @ new\<rparr>) \<and> r \<noteq> Inl Pending \<and> length new \<le> n \<and>
    list_all (\<lambda>x. P (fst x)) new"
proof -
  have "m\<lparr>asks := asks m\<rparr> = m" by simp
  then show ?thesis using assms unfolding does_def list_all_iff by metis
qed

lemma socket_path_cases:
  obtains sock where "socket_path pl s m = (Inr sock, m)" | e where "socket_path pl s m = (Inl (Err e), m)"
proof -
  obtain r where "socket_path pl s m = (r, m)" and "r \<noteq> Inl Pending"
    using does_apply [OF does_socket_path [of "\<lambda>_. True" m pl s]] by auto
  with that show ?thesis by (cases r) (auto, metis stop.exhaust)
qed

text \<open>Installing always returns, whatever the file system and the service manager answer,
  after at most 206 calls, none of which removes anything; and it calls nothing at all
  unless the socket path is known and short enough for the platform. Uninstalling returns
  after at most 105 calls, none of which writes.\<close>

theorem install_always_returns:
  "(\<exists>r new. install pl s program args m = (r, m\<lparr>asks := asks m @ new\<rparr>) \<and> r \<noteq> Inl Pending \<and>
      length new \<le> 206 \<and> list_all (\<lambda>x. \<not> removes (fst x)) new \<and>
      (new = [] \<and> r \<noteq> Inr () \<or>
       (\<exists>sock. socket_path pl s m = (Inr sock, m) \<and> length sock \<le> max_socket_path pl))) \<and>
   (\<exists>r new. uninstall pl s m = (r, m\<lparr>asks := asks m @ new\<rparr>) \<and> r \<noteq> Inl Pending \<and>
      length new \<le> 105 \<and> list_all (\<lambda>x. \<not> writes (fst x)) new)"
proof (rule conjI [OF _ does_apply [OF does_uninstall]])
  show "\<exists>r new. install pl s program args m = (r, m\<lparr>asks := asks m @ new\<rparr>) \<and> r \<noteq> Inl Pending \<and>
      length new \<le> 206 \<and> list_all (\<lambda>x. \<not> removes (fst x)) new \<and>
      (new = [] \<and> r \<noteq> Inr () \<or>
       (\<exists>sock. socket_path pl s m = (Inr sock, m) \<and> length sock \<le> max_socket_path pl))"
  proof (rule socket_path_cases [of pl s m])
    fix e assume "socket_path pl s m = (Inl (Err e), m)"
    then show ?thesis by (intro exI [of _ "Inl (Err e)"] exI [of _ "[]"]) (simp add: install_def)
  next
    fix sock assume path: "socket_path pl s m = (Inr sock, m)"
    show ?thesis
    proof (cases "length sock \<le> max_socket_path pl")
      case True
      with path show ?thesis
        using does_apply [OF does_platform_install [where P = "\<lambda>x. \<not> removes x" and m = m and pl = pl
            and s = s and sock = sock and program = program and args = args]]
        by (auto simp: install_def)
    next
      case False
      with path show ?thesis
        by (intro exI [of _ "Inl (Err (Socket_Path_Too_Long sock (max_socket_path pl)))"] exI [of _ "[]"])
          (simp add: install_def)
    qed
  qed
qed

section \<open>What comes before what\<close>

definition went_well :: "action \<times> answer \<Rightarrow> bool" where
  "went_well x = (case snd x of Failed e \<Rightarrow> False
     | Exited good err \<Rightarrow> good \<or> (\<nexists>c. fst x = Run c) | _ \<Rightarrow> True)"

text \<open>
  \<open>follows acts f\<close>: \<open>f\<close> carries out the actions in this order, goes on exactly while they
  go well, and succeeds exactly when all did.
\<close>

definition follows :: "action list \<Rightarrow> unit install_io \<Rightarrow> bool" where
  "follows acts f \<longleftrightarrow> (\<forall>m. \<exists>r new. f m = (r, m\<lparr>asks := asks m @ new\<rparr>) \<and>
     map fst new = take (length new) acts \<and>
     (if r = Inr () then length new = length acts \<and> list_all went_well new
      else new \<noteq> [] \<and> list_all went_well (butlast new) \<and> \<not> went_well (last new)))"

lemma follows_one:
  assumes "\<And>(m :: machine) a. a = answers m (asks m) act \<Longrightarrow>
    \<exists>r. f m = (r, m\<lparr>asks := asks m @ [(act, a)]\<rparr>) \<and> (r = Inr () \<longleftrightarrow> went_well (act, a))"
  shows "follows [act] f"
  unfolding follows_def
proof
  fix m :: machine
  let ?a = "answers m (asks m) act"
  obtain r where "f m = (r, m\<lparr>asks := asks m @ [(act, ?a)]\<rparr>)" "r = Inr () \<longleftrightarrow> went_well (act, ?a)"
    using assms by blast
  then show "\<exists>r new. f m = (r, m\<lparr>asks := asks m @ new\<rparr>) \<and> map fst new = take (length new) [act] \<and>
     (if r = Inr () then length new = length [act] \<and> list_all went_well new
      else new \<noteq> [] \<and> list_all went_well (butlast new) \<and> \<not> went_well (last new))"
    by (intro exI [of _ r] exI [of _ "[(act, ?a)]"]) auto
qed

lemma follows_file_call: "(\<And>c. act \<noteq> Run c) \<Longrightarrow> follows [act] (file_call act)"
  by (rule follows_one) (auto simp: file_call_def ask_def went_well_def split: answer.split)

lemma follows_run: "follows [Run c] (run c)"
  by (rule follows_one) (auto simp: run_def ask_def went_well_def split: answer.split)

lemma follows_then:
  assumes "follows as f" and "follows bs g"
  shows "follows (as @ bs) (andThen f (\<lambda>_. g))"
  unfolding follows_def
proof
  fix m :: machine
  obtain r new where f: "f m = (r, m\<lparr>asks := asks m @ new\<rparr>)" "map fst new = take (length new) as"
    and ended: "if r = Inr () then length new = length as \<and> list_all went_well new
      else new \<noteq> [] \<and> list_all went_well (butlast new) \<and> \<not> went_well (last new)"
    using assms(1) unfolding follows_def by blast
  have short: "length new \<le> length as" using f(2) by (metis length_map length_take min.cobounded1 min_def)
  let ?Q = "\<lambda>r new. andThen f (\<lambda>_. g) m = (r, m\<lparr>asks := asks m @ new\<rparr>) \<and>
     map fst new = take (length new) (as @ bs) \<and>
     (if r = Inr () then length new = length (as @ bs) \<and> list_all went_well new
      else new \<noteq> [] \<and> list_all went_well (butlast new) \<and> \<not> went_well (last new))"
  show "\<exists>r new. ?Q r new"
  proof (cases r)
    case (Inl e)
    with f ended short have "?Q (Inl e) new" by simp
    then show ?thesis by blast
  next
    case (Inr u)
    then have good: "length new = length as" "list_all went_well new" using ended by auto
    obtain r' new' where g: "g (m\<lparr>asks := asks m @ new\<rparr>) = (r', m\<lparr>asks := (asks m @ new) @ new'\<rparr>)"
      "map fst new' = take (length new') bs"
      "if r' = Inr () then length new' = length bs \<and> list_all went_well new'
       else new' \<noteq> [] \<and> list_all went_well (butlast new') \<and> \<not> went_well (last new')"
      using assms(2) [unfolded follows_def, rule_format, of "m\<lparr>asks := asks m @ new\<rparr>"] by auto
    with f Inr good have "?Q r' (new @ new')" by (auto simp: butlast_append)
    then show ?thesis by blast
  qed
qed

definition linux_actions :: "service \<Rightarrow> str \<Rightarrow> str \<Rightarrow> str \<Rightarrow> str list \<Rightarrow> action list" where
  "linux_actions s units sock program args =
    [Make_Dirs units 511,
     Write_File (path_join units (label s @ ''.socket'')) (socket_unit s sock),
     Write_File (path_join units (label s @ ''.service'')) (service_unit s (exec_line (quote program) args)),
     Run [''systemctl'', ''--user'', ''daemon-reload''],
     Run [''systemctl'', ''--user'', ''enable'', ''--now'', label s @ ''.socket'']]"

lemma linux_install_follows:
  assumes "unit_dir m = (Inr units, m)"
  shows "\<exists>f. linux_install s sock program args m = f m \<and> follows (linux_actions s units sock program args) f"
proof -
  let ?w = "\<lambda>n c. file_call (Write_File (path_join units (label s @ n)) c)"
  let ?f = "andThen (file_call (Make_Dirs units 511)) (\<lambda>_. andThen (?w ''.socket'' (socket_unit s sock)) (\<lambda>_.
     andThen (?w ''.service'' (service_unit s (exec_line (quote program) args))) (\<lambda>_.
     andThen (run (systemctl [''daemon-reload''])) (\<lambda>_.
       run (systemctl [''enable'', ''--now'', label s @ ''.socket''])))))"
  have "follows ([Make_Dirs units 511] @ [Write_File (path_join units (label s @ ''.socket'')) (socket_unit s sock)] @
     [Write_File (path_join units (label s @ ''.service'')) (service_unit s (exec_line (quote program) args))] @
     [Run (systemctl [''daemon-reload''])] @
     [Run (systemctl [''enable'', ''--now'', label s @ ''.socket''])]) ?f"
    by (intro follows_then follows_file_call follows_run) simp_all
  then have "follows (linux_actions s units sock program args) ?f"
    by (simp add: linux_actions_def systemctl_def)
  moreover have "linux_install s sock program args m = ?f m"
    using assms by (simp add: linux_install_def)
  ultimately show ?thesis by blast
qed

lemma unit_dir_cases:
  obtains units where "unit_dir m = (Inr units, m)" | e where "unit_dir m = (Inl (Err e), m)"
proof -
  obtain r where "unit_dir m = (r, m)" and "r \<noteq> Inl Pending"
    using does_apply [OF does_unit_dir [of "\<lambda>_. True" m]] by auto
  with that show ?thesis by (cases r) (auto, metis stop.exhaust)
qed


definition says_loaded :: "answer \<Rightarrow> bool" where
  "says_loaded a = (case a of Failed e \<Rightarrow> False | Exited good err \<Rightarrow> good | _ \<Rightarrow> True)"

lemma loaded_apply:
  "loaded s m = (let act = Run [''launchctl'', ''print'', job s m]; a = answers m (asks m) act in
     (Inr (says_loaded a), m\<lparr>asks := asks m @ [(act, a)]\<rparr>))"
  by (simp add: loaded_def ask_def says_loaded_def Let_def)

lemma await_unloaded_ok:
  "await_unloaded s n m = (Inr (), m') \<Longrightarrow>
     \<exists>new a. m' = m\<lparr>asks := asks m @ new @ [(Run [''launchctl'', ''print'', job s m], a)]\<rparr> \<and> \<not> says_loaded a"
proof (induction n arbitrary: m)
  case (Suc n)
  let ?act = "Run [''launchctl'', ''print'', job s m]"
  let ?a = "answers m (asks m) ?act"
  let ?m1 = "m\<lparr>asks := asks m @ [(?act, ?a)]\<rparr>"
  let ?m2 = "m\<lparr>asks := asks m @ [(?act, ?a), (Sleep 100, answers m (asks ?m1) (Sleep 100))]\<rparr>"
  show ?case
  proof (cases "says_loaded ?a")
    case True
    with Suc.prems have "await_unloaded s n ?m2 = (Inr (), m')"
      by (simp add: andThen_def loaded_apply Let_def ask_def)
    from Suc.IH [OF this] obtain new a where
      "m' = ?m2\<lparr>asks := asks ?m2 @ new @ [(Run [''launchctl'', ''print'', job s ?m2], a)]\<rparr>" "\<not> says_loaded a"
      by blast
    then show ?thesis
      by (intro exI [of _ "[(?act, ?a), (Sleep 100, answers m (asks ?m1) (Sleep 100))] @ new"] exI [of _ a]) simp
  next
    case False
    with Suc.prems have "m' = ?m1" by (simp add: andThen_def loaded_apply Let_def)
    with False show ?thesis by (intro exI [of _ "[]"] exI [of _ ?a]) simp
  qed
qed simp

lemma does_Inr: "does n P m f \<Longrightarrow> f m = (Inr x, m') \<Longrightarrow> \<exists>new. m' = m\<lparr>asks := asks m @ new\<rparr>"
  using does_apply [of n P m f] by auto

lemma bootout_ok:
  assumes "bootout s m = (Inr (), m')"
  shows "\<exists>new a. m' = m\<lparr>asks := asks m @ new @ [(Run [''launchctl'', ''print'', job s m], a)]\<rparr> \<and> \<not> says_loaded a"
proof -
  let ?act = "Run [''launchctl'', ''print'', job s m]"
  let ?a = "answers m (asks m) ?act"
  let ?m1 = "m\<lparr>asks := asks m @ [(?act, ?a)]\<rparr>"
  show ?thesis
  proof (cases "says_loaded ?a")
    case True
    with assms obtain m2 where run: "run [''launchctl'', ''bootout'', job s m] ?m1 = (Inr (), m2)"
      and wait: "await_unloaded s 50 m2 = (Inr (), m')"
      by (auto simp: bootout_def andThen_eq_Inr_iff loaded_apply Let_def)
    obtain n1 where m2: "m2 = ?m1\<lparr>asks := asks ?m1 @ n1\<rparr>"
      using does_Inr [OF does_run [of "\<lambda>_. True"] run] by auto
    from await_unloaded_ok [OF wait] obtain new a where
      "m' = m2\<lparr>asks := asks m2 @ new @ [(Run [''launchctl'', ''print'', job s m2], a)]\<rparr>" "\<not> says_loaded a"
      by blast
    with m2 show ?thesis by (intro exI [of _ "(?act, ?a) # n1 @ new"] exI [of _ a]) simp
  next
    case False
    with assms have "m' = ?m1" by (simp add: bootout_def loaded_apply Let_def)
    with False show ?thesis by (intro exI [of _ "[]"] exI [of _ ?a]) simp
  qed
qed

lemma await_socket_ok:
  "await_socket p n m = (Inr (), m') \<Longrightarrow>
     \<exists>new. m' = m\<lparr>asks := asks m @ new @ [(Stat p, Is Socket (own_uid m))]\<rparr>"
proof (induction n arbitrary: m)
  case (Suc n)
  let ?a = "answers m (asks m) (Stat p)"
  let ?h = "asks m @ [(Stat p, ?a)]"
  let ?m2 = "m\<lparr>asks := ?h @ [(Sleep 100, answers m ?h (Sleep 100))]\<rparr>"
  show ?case
  proof (cases "?a = Is Socket (own_uid m)")
    case True
    with Suc.prems have "m' = m\<lparr>asks := ?h\<rparr>" by (simp add: ask_def)
    with True show ?thesis by (intro exI [of _ "[]"]) simp
  next
    case False
    with Suc.prems have "await_socket p n ?m2 = (Inr (), m')" by (simp add: ask_def)
    from Suc.IH [OF this] obtain new where "m' = ?m2\<lparr>asks := asks ?m2 @ new @ [(Stat p, Is Socket (own_uid ?m2))]\<rparr>"
      by blast
    then show ?thesis
      by (intro exI [of _ "[(Stat p, ?a), (Sleep 100, answers m ?h (Sleep 100))] @ new"]) simp
  qed
qed simp

lemma unicode_words_ok:
  "unicode_words ws m = (Inr vs, m') \<Longrightarrow> vs = ws \<and> m' = m \<and> list_all valid_utf8 ws"
proof (induction ws arbitrary: vs m')
  case (Cons w ws)
  then show ?case by (auto simp: andThen_eq_Inr_iff split: if_splits)
qed simp

lemma write_plist_ok:
  "write_plist p a m = (Inr (), m') \<Longrightarrow>
     \<exists>r. m' = m\<lparr>asks := asks m @ [(Write_Plist p a, r)]\<rparr> \<and> went_well (Write_Plist p a, r)"
  by (auto simp: write_plist_def ask_def went_well_def split: answer.splits)

lemma run_ok:
  "run c m = (Inr (), m') \<Longrightarrow> \<exists>r. m' = m\<lparr>asks := asks m @ [(Run c, r)]\<rparr> \<and> went_well (Run c, r)"
  by (auto simp: run_def ask_def went_well_def split: answer.splits if_splits)

lemma file_call_ok:
  "file_call act m = (Inr (), m') \<Longrightarrow> \<exists>r. m' = m\<lparr>asks := asks m @ [(act, r)]\<rparr>"
  by (auto simp: file_call_def ask_def split: answer.splits)

lemma plist_path_ok: "plist_path s m = (Inr p, m') \<Longrightarrow> m' = m"
  by (auto simp: plist_path_def andThen_eq_Inr_iff absolute_env_Inr)

lemma in_parent_Inr:
  "in_parent p (\<lambda>d. file_call (Make_Dirs d k)) m = (Inr (), m') \<Longrightarrow> \<exists>new. m' = m\<lparr>asks := asks m @ new\<rparr>"
  by (rule does_Inr [OF does_in_parent [OF does_file_call [of "\<lambda>_. True"]]]) simp_all

lemma plist_path_asks:
  "plist_path s (m\<lparr>asks := h\<rparr>) = (Inr p, m') \<Longrightarrow> plist_path s m = (Inr p, m)"
  unfolding plist_path_def absolute_env_def andThen_def by (auto split: option.splits if_splits)

text \<open>A successful \<open>platform::install\<close>, stage by stage\<close>

lemma macos_install_ok:
  assumes "macos_install s sock program args m = (Inr (), m')"
  obtains plist before r m5 m6 m7 where
    "list_all valid_utf8 (program # args)" "plist_path s m = (Inr plist, m)"
    "went_well (Write_Plist plist (agent_of s sock (program # args)), r)"
    "m5 = m\<lparr>asks := asks m @ before @ [(Write_Plist plist (agent_of s sock (program # args)), r)]\<rparr>"
    "bootout s m5 = (Inr (), m6)"
    "run [''launchctl'', ''bootstrap'', domain m6, plist] m6 = (Inr (), m7)"
    "await_socket sock 50 m7 = (Inr (), m')"
proof -
  obtain words m1 m2 plist m3 m4 m5 m6 m7 where
    words: "unicode_words (program # args) m = (Inr words, m1)" and
    priv: "in_parent sock make_private_dir m1 = (Inr (), m2)" and
    plist: "plist_path s m2 = (Inr plist, m3)" and
    dir: "in_parent plist (\<lambda>dir. file_call (Make_Dirs dir 511)) m3 = (Inr (), m4)" and
    put: "write_plist plist (agent_of s sock words) m4 = (Inr (), m5)" and
    rest: "bootout s m5 = (Inr (), m6)"
    "run [''launchctl'', ''bootstrap'', domain m6, plist] m6 = (Inr (), m7)"
    "await_socket sock 50 m7 = (Inr (), m')"
    using assms unfolding macos_install_def andThen_eq_Inr_iff by (elim exE conjE) (simp del: unicode_words.simps)
  have w: "words = program # args" "m1 = m" "list_all valid_utf8 (program # args)"
    using unicode_words_ok [OF words] by auto
  obtain n1 where n1: "m2 = m\<lparr>asks := asks m @ n1\<rparr>"
    using priv in_parent_Inr unfolding make_private_dir_def w(2) by blast
  have p: "m3 = m2" "plist_path s m = (Inr plist, m)"
    using plist_path_ok [OF plist] plist_path_asks [OF plist [unfolded n1]] by simp_all
  obtain n2 where n2: "m4 = m2\<lparr>asks := asks m2 @ n2\<rparr>" using dir in_parent_Inr unfolding p(1) by blast
  obtain r where r: "m5 = m4\<lparr>asks := asks m4 @ [(Write_Plist plist (agent_of s sock words), r)]\<rparr>"
    "went_well (Write_Plist plist (agent_of s sock words), r)"
    using write_plist_ok [OF put] by blast
  have "m5 = m\<lparr>asks := asks m @ (n1 @ n2) @ [(Write_Plist plist (agent_of s sock (program # args)), r)]\<rparr>"
    by (simp add: r(1) n2 n1 w(1))
  from that [OF w(3) p(2) r(2) [unfolded w(1)] this rest] show thesis .
qed

text \<open>C30: When an install on macOS succeeds, every word of the command line was UTF-8, the plist
  with that command line was written before the job was loaded, the old job was seen not
  loaded immediately before \<open>bootstrap\<close>, \<open>bootstrap\<close> succeeded, and the last thing seen is
  a socket at the socket path owned by the user.\<close>

theorem agent_ready:
  assumes "install Macos s program args m = (Inr (), m')"
  shows "\<exists>sock plist before gone booted after r.
     socket_path Macos s m = (Inr sock, m) \<and> length sock \<le> 103 \<and> plist_path s m = (Inr plist, m) \<and>
     list_all valid_utf8 (program # args) \<and>
     asks m' = asks m @ before @
       [(Run [''launchctl'', ''print'', job s m], gone),
        (Run [''launchctl'', ''bootstrap'', domain m, plist], booted)] @
       after @ [(Stat sock, Is Socket (own_uid m))] \<and>
     (Write_Plist plist (agent_of s sock (program # args)), r) \<in> set before \<and>
     went_well (Write_Plist plist (agent_of s sock (program # args)), r) \<and>
     \<not> says_loaded gone \<and> went_well (Run [''launchctl'', ''bootstrap'', domain m, plist], booted)"
proof -
  obtain sock m0 where sock: "socket_path Macos s m = (Inr sock, m0)"
    and short: "length sock \<le> 103" and inst: "macos_install s sock program args m0 = (Inr (), m')"
    using assms by (auto simp: install_def andThen_eq_Inr_iff max_socket_path_defs split: if_splits)
  have m0: "m0 = m" using socket_path_ok [OF sock] by simp
  obtain plist n1 r m5 m6 m7 where words: "list_all valid_utf8 (program # args)"
    and plist: "plist_path s m = (Inr plist, m)"
    and r: "went_well (Write_Plist plist (agent_of s sock (program # args)), r)"
    and m5: "m5 = m\<lparr>asks := asks m @ n1 @ [(Write_Plist plist (agent_of s sock (program # args)), r)]\<rparr>"
    and out: "bootout s m5 = (Inr (), m6)"
    and boot: "run [''launchctl'', ''bootstrap'', domain m6, plist] m6 = (Inr (), m7)"
    and await: "await_socket sock 50 m7 = (Inr (), m')"
    by (rule macos_install_ok [OF inst [unfolded m0]])
  obtain n3 gone where gone: "m6 = m5\<lparr>asks := asks m5 @ n3 @ [(Run [''launchctl'', ''print'', job s m5], gone)]\<rparr>"
    "\<not> says_loaded gone" using bootout_ok [OF out] by blast
  obtain booted where booted: "m7 = m6\<lparr>asks := asks m6 @ [(Run [''launchctl'', ''bootstrap'', domain m6, plist], booted)]\<rparr>"
    "went_well (Run [''launchctl'', ''bootstrap'', domain m6, plist], booted)" using run_ok [OF boot] by blast
  obtain after where last: "m' = m7\<lparr>asks := asks m7 @ after @ [(Stat sock, Is Socket (own_uid m7))]\<rparr>"
    using await_socket_ok [OF await] by blast
  let ?before = "n1 @ (Write_Plist plist (agent_of s sock (program # args)), r) # n3"
  have same: "job s m5 = job s m" "domain m6 = domain m" "own_uid m7 = own_uid m"
    by (simp_all add: booted(1) gone(1) m5)
  have "asks m' = asks m @ ?before @
       [(Run [''launchctl'', ''print'', job s m], gone),
        (Run [''launchctl'', ''bootstrap'', domain m, plist], booted)] @
       after @ [(Stat sock, Is Socket (own_uid m))]"
    unfolding last booted(1) gone(1) same by (simp add: m5)
  moreover have "(Write_Plist plist (agent_of s sock (program # args)), r) \<in> set ?before" by simp
  moreover note sock [unfolded m0] short plist words r gone(2) booted(2) [unfolded same]
  ultimately show ?thesis by (intro exI conjI)
qed

section \<open>Uninstalling\<close>

definition wrote :: "str \<Rightarrow> (action \<times> answer) list \<Rightarrow> bool" where
  "wrote q h \<longleftrightarrow> (\<exists>x \<in> set h. (\<exists>c. fst x = Write_File q c) \<or> (\<exists>a. fst x = Write_Plist q a))"

definition removed :: "str \<Rightarrow> (action \<times> answer) list \<Rightarrow> bool" where
  "removed q h \<longleftrightarrow> (\<exists>x \<in> set h. fst x = Remove_File q \<and>
     (case snd x of Failed e \<Rightarrow> io_kind e = NotFound | _ \<Rightarrow> True))"

lemma removed_append [simp]: "removed q (g @ h) \<longleftrightarrow> removed q g \<or> removed q h"
  by (auto simp: removed_def)

lemma remove_if_present_ok:
  "remove_if_present p m = (Inr (), m') \<Longrightarrow> \<exists>new. m' = m\<lparr>asks := asks m @ new\<rparr> \<and> removed p new"
  by (auto simp: remove_if_present_def ask_def removed_def split: answer.splits if_splits)

text \<open>Where things are depends on the environment alone, not on the history.\<close>

definition timeless :: "'a install_io \<Rightarrow> bool" where
  "timeless f \<longleftrightarrow> (\<forall>m h. f (m\<lparr>asks := h\<rparr>) = (fst (f m), m\<lparr>asks := h\<rparr>))"

lemma timeless_ok: "timeless (ok x)"
  by (simp add: timeless_def)

lemma timeless_absolute_env: "timeless (absolute_env v)"
  by (simp add: timeless_def absolute_env_cases split: option.split)

lemma timeless_then: "timeless f \<Longrightarrow> (\<And>x. timeless (g x)) \<Longrightarrow> timeless (andThen f g)"
proof -
  assume f: "timeless f" and g: "\<And>x. timeless (g x)"
  have m: "m = m\<lparr>asks := asks m\<rparr>" for m :: machine by simp
  have fm: "f m = (fst (f m), m)" for m using f m unfolding timeless_def by metis
  show ?thesis
    unfolding timeless_def
  proof (intro allI)
    fix m :: machine and h
    have fh: "f (m\<lparr>asks := h\<rparr>) = (fst (f m), m\<lparr>asks := h\<rparr>)" using f by (simp add: timeless_def)
    show "andThen f g (m\<lparr>asks := h\<rparr>) = (fst (andThen f g m), m\<lparr>asks := h\<rparr>)"
    proof (cases "fst (f m)")
      case (Inl e)
      with fh fm [of m] show ?thesis by (metis andThen_Inl fst_conv)
    next
      case (Inr x)
      with fh fm [of m] have "andThen f g m = g x m" and "andThen f g (m\<lparr>asks := h\<rparr>) = g x (m\<lparr>asks := h\<rparr>)"
        by (metis andThen_Inr)+
      then show ?thesis using g by (simp add: timeless_def)
    qed
  qed
qed

lemma timeless_socket_path: "timeless (socket_path pl s)"
  unfolding socket_path_def socket_dir_defs
  by (cases pl) (simp_all add: timeless_then timeless_absolute_env timeless_ok)

lemma timeless_plist_path: "timeless (plist_path s)"
  unfolding plist_path_def by (intro timeless_then timeless_absolute_env timeless_ok)

lemma timeless_unit_dir: "timeless unit_dir"
proof -
  have "timeless (\<lambda>m. case absolute_env ''XDG_CONFIG_HOME'' m of
       (Inl e, m') \<Rightarrow> andThen (absolute_env ''HOME'') (\<lambda>home. ok (path_join home ''.config'')) m'
     | (Inr config, m') \<Rightarrow> (Inr config, m'))"
    unfolding timeless_def absolute_env_cases andThen_def by (auto split: option.splits)
  then show ?thesis unfolding unit_dir_def by (rule timeless_then) (rule timeless_ok)
qed

lemma timeless_eq:
  "timeless f \<Longrightarrow> f (m\<lparr>asks := h\<rparr>) = (Inr x, m') \<Longrightarrow> m' = m\<lparr>asks := h\<rparr> \<and> f (m\<lparr>asks := h'\<rparr>) = (Inr x, m\<lparr>asks := h'\<rparr>)"
  unfolding timeless_def by simp

text \<open>What a successful uninstall has removed\<close>

lemma linux_uninstall_ok:
  assumes "linux_uninstall s m = (Inr (), m')"
  shows "\<exists>new units sock. m' = m\<lparr>asks := asks m @ new\<rparr> \<and> unit_dir m = (Inr units, m) \<and>
    socket_path Linux s m = (Inr sock, m) \<and> removed sock new \<and>
    removed (path_join units (label s @ ''.socket'')) new \<and> removed (path_join units (label s @ ''.service'')) new"
proof -
  obtain units m1 there m2 m3 m4 m5 sock m6 m7 where
    units: "unit_dir m = (Inr units, m1)" and
    there: "exists (path_join units (label s @ ''.socket'')) m1 = (Inr there, m2)" and
    off: "(if there then run (systemctl [''disable'', ''--now'', label s @ ''.socket'',
         label s @ ''.service'']) else ok ()) m2 = (Inr (), m3)" and
    r1: "remove_if_present (path_join units (label s @ ''.socket'')) m3 = (Inr (), m4)" and
    r2: "remove_if_present (path_join units (label s @ ''.service'')) m4 = (Inr (), m5)" and
    sock: "socket_path Linux s m5 = (Inr sock, m6)" and
    r3: "remove_if_present sock m6 = (Inr (), m7)" and
    reload: "run (systemctl [''daemon-reload'']) m7 = (Inr (), m')"
    using assms unfolding linux_uninstall_def andThen_eq_Inr_iff by (elim exE conjE) simp
  have u: "m1 = m" using timeless_eq [OF timeless_unit_dir, where m = m and h = "asks m"] units by simp
  obtain n1 where n1: "m2 = m\<lparr>asks := asks m @ n1\<rparr>"
    using there unfolding u exists_def by (auto simp: ask_def)
  obtain n2 where n2: "m3 = m2\<lparr>asks := asks m2 @ n2\<rparr>"
  proof (cases there)
    case True
    with off run_ok [of _ m2 m3] that show ?thesis by (simp only: if_True) blast
  next
    case False
    with off that [of "[]"] show ?thesis by simp
  qed
  obtain n3 where n3: "m4 = m3\<lparr>asks := asks m3 @ n3\<rparr>" "removed (path_join units (label s @ ''.socket'')) n3"
    using remove_if_present_ok [OF r1] by blast
  obtain n4 where n4: "m5 = m4\<lparr>asks := asks m4 @ n4\<rparr>" "removed (path_join units (label s @ ''.service'')) n4"
    using remove_if_present_ok [OF r2] by blast
  have m5: "m5 = m\<lparr>asks := asks m @ n1 @ n2 @ n3 @ n4\<rparr>" using n1 n2 n3(1) n4(1) by simp
  have path: "m6 = m5" "socket_path Linux s m = (Inr sock, m)"
    using timeless_eq [OF timeless_socket_path sock [unfolded m5], where h' = "asks m"] m5 by simp_all
  obtain n5 where n5: "m7 = m6\<lparr>asks := asks m6 @ n5\<rparr>" "removed sock n5"
    using remove_if_present_ok [OF r3] by blast
  obtain n6 where n6: "m' = m7\<lparr>asks := asks m7 @ n6\<rparr>" using run_ok [OF reload] by blast
  show ?thesis
    using units u path n3(2) n4(2) n5(2)
    by (intro exI [of _ "n1 @ n2 @ n3 @ n4 @ n5 @ n6"] exI [of _ units] exI [of _ sock])
      (simp add: n6 n5(1) path(1) m5)
qed

lemma macos_uninstall_ok:
  assumes "macos_uninstall s m = (Inr (), m')"
  shows "\<exists>new plist sock. m' = m\<lparr>asks := asks m @ new\<rparr> \<and> plist_path s m = (Inr plist, m) \<and>
    socket_path Macos s m = (Inr sock, m) \<and> removed sock new \<and> removed plist new"
proof -
  obtain m1 plist m2 m3 sock m4 where
    out: "bootout s m = (Inr (), m1)" and plist: "plist_path s m1 = (Inr plist, m2)" and
    r1: "remove_if_present plist m2 = (Inr (), m3)" and sock: "socket_path Macos s m3 = (Inr sock, m4)" and
    r2: "remove_if_present sock m4 = (Inr (), m')"
    using assms unfolding macos_uninstall_def andThen_eq_Inr_iff by (elim exE conjE) simp
  obtain n1 where n1: "m1 = m\<lparr>asks := asks m @ n1\<rparr>" using bootout_ok [OF out] by blast
  have p: "m2 = m1" "plist_path s m = (Inr plist, m)"
    using timeless_eq [OF timeless_plist_path plist [unfolded n1], where h' = "asks m"] n1 by simp_all
  obtain n2 where n2: "m3 = m2\<lparr>asks := asks m2 @ n2\<rparr>" "removed plist n2"
    using remove_if_present_ok [OF r1] by blast
  have m3: "m3 = m\<lparr>asks := asks m @ n1 @ n2\<rparr>" using n1 n2(1) p(1) by simp
  have path: "m4 = m3" "socket_path Macos s m = (Inr sock, m)"
    using timeless_eq [OF timeless_socket_path sock [unfolded m3], where h' = "asks m"] m3 by simp_all
  obtain n3 where n3: "m' = m4\<lparr>asks := asks m4 @ n3\<rparr>" "removed sock n3"
    using remove_if_present_ok [OF r2] by blast
  show ?thesis
    using p(2) path(2) n2(2) n3(2)
    by (intro exI [of _ "n1 @ n2 @ n3"] exI [of _ plist] exI [of _ sock]) (simp add: n3(1) path(1) m3)
qed

definition installed_file :: "platform \<Rightarrow> service \<Rightarrow> machine \<Rightarrow> str \<Rightarrow> bool" where
  "installed_file pl s m q \<longleftrightarrow> (case pl of
     Macos \<Rightarrow> plist_path s m = (Inr q, m)
   | Linux \<Rightarrow> (\<exists>u e. unit_dir m = (Inr u, m) \<and> e \<in> {''.socket'', ''.service''} \<and> q = path_join u (label s @ e)))"

lemma install_writes:
  assumes "install pl s program args m = (r, m')"
  shows "\<exists>new. m' = m\<lparr>asks := asks m @ new\<rparr> \<and> (\<forall>q. wrote q new \<longrightarrow> installed_file pl s m q)"
proof -
  let ?P = "\<lambda>act. \<forall>q. ((\<exists>c. act = Write_File q c) \<or> (\<exists>a. act = Write_Plist q a)) \<longrightarrow> installed_file pl s m q"
  have here: "f (m\<lparr>asks := h\<rparr>) = (Inr x, m\<lparr>asks := h'\<rparr>) \<Longrightarrow> timeless f \<Longrightarrow> f m = (Inr x, m)"
    for f :: "'b install_io" and x h h'
    using timeless_eq [where f = f and m = m and h = h and x = x and h' = "asks m"] by auto
  have "does 206 ?P m (case pl of Macos \<Rightarrow> macos_install s sock program args
      | Linux \<Rightarrow> linux_install s sock program args)" for sock
    by (rule does_platform_install)
      (use here [OF _ timeless_plist_path] here [OF _ timeless_unit_dir] in
        \<open>auto simp: installed_file_def\<close>)
  then have inner: "does 206 ?P m (if length sock > max_socket_path pl
      then fail (Socket_Path_Too_Long sock (max_socket_path pl))
      else (case pl of Macos \<Rightarrow> macos_install s sock program args
        | Linux \<Rightarrow> linux_install s sock program args))" for sock
    by (simp only: does_fail split: if_split) simp
  have "does 206 ?P m (install pl s program args)"
    unfolding install_def by (rule does_then [where b = 206, OF does_socket_path]) (rule inner, simp)
  from does_apply [OF this] assms obtain new where "m' = m\<lparr>asks := asks m @ new\<rparr>"
    and "list_all (\<lambda>x. ?P (fst x)) new" by auto
  then show ?thesis by (intro exI [of _ new]) (auto simp: wrote_def list_all_iff)
qed

lemma uninstall_ok:
  assumes "uninstall pl s m = (Inr (), m')"
  shows "\<exists>new sock. m' = m\<lparr>asks := asks m @ new\<rparr> \<and> socket_path pl s m = (Inr sock, m) \<and>
    removed sock new \<and> (\<forall>q. installed_file pl s m q \<longrightarrow> removed q new)"
proof -
  obtain m1 sock m2 where
    inner: "(case pl of Macos \<Rightarrow> macos_uninstall s | Linux \<Rightarrow> linux_uninstall s) m = (Inr (), m1)" and
    dir: "in_parent sock remove_socket_dir m2 = (Inr (), m')" and path: "socket_path pl s m1 = (Inr sock, m2)"
    using assms unfolding uninstall_def andThen_eq_Inr_iff by (elim exE conjE) simp
  have "\<exists>new sk. m1 = m\<lparr>asks := asks m @ new\<rparr> \<and> socket_path pl s m = (Inr sk, m) \<and> removed sk new \<and>
      (\<forall>q. installed_file pl s m q \<longrightarrow> removed q new)"
  proof (cases pl)
    case Macos
    with inner macos_uninstall_ok [of s m m1] show ?thesis by (auto simp: installed_file_def)
  next
    case Linux
    with inner linux_uninstall_ok [of s m m1] show ?thesis by (auto simp: installed_file_def)
  qed
  then obtain new sk where new: "m1 = m\<lparr>asks := asks m @ new\<rparr>" "socket_path pl s m = (Inr sk, m)"
    "removed sk new" "\<forall>q. installed_file pl s m q \<longrightarrow> removed q new" by blast
  have "m2 = m1" using timeless_eq [OF timeless_socket_path path [unfolded new(1)]] new(1) by simp
  moreover obtain n2 where "m' = m2\<lparr>asks := asks m2 @ n2\<rparr>"
    using does_Inr [OF does_in_parent [OF does_remove_dir [of "\<lambda>_. True"]] dir] by auto
  ultimately show ?thesis using new by (intro exI [of _ "new @ n2"] exI [of _ sk]) simp
qed

lemma installed_file_asks [simp]:
  "installed_file pl s (m\<lparr>asks := h\<rparr>) q \<longleftrightarrow> installed_file pl s m q"
proof -
  have m: "m\<lparr>asks := asks m\<rparr> = m" for m :: machine by simp
  have iff: "f (m\<lparr>asks := h\<rparr>) = (Inr x, m\<lparr>asks := h\<rparr>) \<longleftrightarrow> f m = (Inr x, m)" if "timeless f"
    for f :: "str install_io" and x
    using that m [of m] unfolding timeless_def by (metis prod.inject)
  show ?thesis by (cases pl) (simp_all add: installed_file_def iff timeless_plist_path timeless_unit_dir)
qed

text \<open>C31: An uninstall that succeeds undoes an install, on both platforms and even one that
  failed half-way: every unit or plist file the install wrote, and the socket, is removed
  or found missing.\<close>

theorem uninstall_undoes_install:
  assumes "install pl s program args m = (r, m1)" and "uninstall pl s m1 = (Inr (), m2)"
  shows "\<exists>made undone sock. asks m1 = asks m @ made \<and> asks m2 = asks m1 @ undone \<and>
     socket_path pl s m = (Inr sock, m) \<and> removed sock undone \<and>
     (\<forall>q. wrote q made \<longrightarrow> removed q undone)"
proof -
  obtain new where new: "m1 = m\<lparr>asks := asks m @ new\<rparr>" "\<forall>q. wrote q new \<longrightarrow> installed_file pl s m q"
    using install_writes [OF assms(1)] by blast
  obtain u sock where u: "m2 = m1\<lparr>asks := asks m1 @ u\<rparr>" "socket_path pl s m1 = (Inr sock, m1)"
    "removed sock u" "\<forall>q. installed_file pl s m1 q \<longrightarrow> removed q u"
    using uninstall_ok [OF assms(2)] by blast
  have "socket_path pl s m = (Inr sock, m)"
    using timeless_eq [OF timeless_socket_path u(2) [unfolded new(1)], where h' = "asks m"] by simp
  moreover have "wrote q new \<longrightarrow> removed q u" for q using new(2) u(4) by (simp add: new(1))
  ultimately show ?thesis using u(1,3) new(1)
    by (intro exI [of _ new] exI [of _ u] exI [of _ sock]) simp
qed

text \<open>A machine where the service is not installed\<close>

fun answer_missing :: "action \<Rightarrow> answer" where
  "answer_missing (Remove_File p) = Failed (Kind NotFound)"
| "answer_missing (Remove_Dir p) = Failed (Kind NotFound)"
| "answer_missing (Exists p) = Failed (Kind NotFound)"
| "answer_missing (Run c) = (if c \<noteq> [] \<and> hd c = ''systemctl'' then Exited True [] else Exited False [])"
| "answer_missing _ = Done"

text \<open>Uninstalling a service that is not installed succeeds: where every file and the
  socket's directory are missing and launchd does not know the job, the result is a
  success, with no service stopped, after six calls at most.\<close>

theorem uninstall_missing:
  assumes "\<And>h act. answers m h act = answer_missing act"
    and "socket_path pl s m = (Inr sock, m)" and "pl = Linux \<longrightarrow> unit_dir m = (Inr units, m)"
  shows "\<exists>new. uninstall pl s m = (Inr (), m\<lparr>asks := asks m @ new\<rparr>) \<and> length new \<le> 6 \<and>
     list_all (\<lambda>x. case fst x of Run c \<Rightarrow> c \<in> {[''launchctl'', ''print'', job s m], [''systemctl'', ''--user'', ''daemon-reload'']}
       | _ \<Rightarrow> True) new"
proof -
  let ?quiet = "\<lambda>new. length new \<le> 6 \<and> list_all (\<lambda>x. case fst x of
       Run c \<Rightarrow> c \<in> {[''launchctl'', ''print'', job s m], [''systemctl'', ''--user'', ''daemon-reload'']} | _ \<Rightarrow> True) new"
  have path: "socket_path pl s (m\<lparr>asks := h\<rparr>) = (Inr sock, m\<lparr>asks := h\<rparr>)" for h
    using timeless_eq [OF timeless_socket_path, where m = m and h = "asks m" and h' = h] assms(2) by simp
  have gone: "remove_if_present p (m\<lparr>asks := h\<rparr>) = (Inr (), m\<lparr>asks := h @ [(Remove_File p, Failed (Kind NotFound))]\<rparr>)" for p h
    by (simp add: remove_if_present_def ask_def assms(1) io_kind_def)
  obtain last where dir: "in_parent sock remove_socket_dir (m\<lparr>asks := h\<rparr>) = (Inr (), m\<lparr>asks := h @ last\<rparr>)"
    and last: "length last \<le> 1" "list_all (\<lambda>x. \<exists>d. fst x = Remove_Dir d) last" for h
  proof (cases "parent sock")
    case None
    with that [of "[]"] show ?thesis by (simp add: in_parent_def)
  next
    case (Some d)
    with that [of "[(Remove_Dir d, Failed (Kind NotFound))]"] show ?thesis
      by (simp add: in_parent_def remove_socket_dir_def ask_def assms(1) io_kind_def)
  qed
  have lastq: "list_all (\<lambda>x. case fst x of
       Run c \<Rightarrow> c \<in> {[''launchctl'', ''print'', job s m], [''systemctl'', ''--user'', ''daemon-reload'']} | _ \<Rightarrow> True) last"
    using last(2) by (auto simp: list_all_iff split: action.split)
  show ?thesis
  proof (cases pl)
    case Macos
    have "plist_path s m = (Inr p, m) \<Longrightarrow> plist_path s (m\<lparr>asks := h\<rparr>) = (Inr p, m\<lparr>asks := h\<rparr>)" for p h
      using timeless_eq [OF timeless_plist_path, where m = m and h = "asks m" and h' = h] by simp
    moreover obtain home where "absolute_env ''HOME'' m = (Inr home, m)"
      using assms(2) Macos
      by (auto simp: socket_path_def socket_dir_defs andThen_eq_Inr_iff absolute_env_Inr)
    then obtain p where "plist_path s m = (Inr p, m)" by (simp add: plist_path_def)
    ultimately have plist: "plist_path s (m\<lparr>asks := h\<rparr>) = (Inr p, m\<lparr>asks := h\<rparr>)" for h by blast
    have out: "bootout s m = (Inr (), m\<lparr>asks := asks m @ [(Run [''launchctl'', ''print'', job s m], Exited False [])]\<rparr>)"
      by (simp add: bootout_def andThen_def loaded_apply Let_def assms(1) says_loaded_def)
    let ?new = "[(Run [''launchctl'', ''print'', job s m], Exited False []),
      (Remove_File p, Failed (Kind NotFound)), (Remove_File sock, Failed (Kind NotFound))] @ last"
    have "uninstall pl s m = (Inr (), m\<lparr>asks := asks m @ ?new\<rparr>)"
      using Macos by (simp add: uninstall_def macos_uninstall_def out plist gone path [unfolded Macos] dir)
    moreover have "?quiet ?new" using last(1) lastq by simp
    ultimately show ?thesis by blast
  next
    case Linux
    then have units: "unit_dir m = (Inr units, m)" using assms(3) by simp
    have there: "exists q m = (Inr False, m\<lparr>asks := asks m @ [(Exists q, Failed (Kind NotFound))]\<rparr>)" for q
      by (simp add: exists_def ask_def assms(1))
    have reload: "run (systemctl [''daemon-reload'']) (m\<lparr>asks := h\<rparr>) =
        (Inr (), m\<lparr>asks := h @ [(Run [''systemctl'', ''--user'', ''daemon-reload''], Exited True [])]\<rparr>)" for h
      by (simp add: run_def ask_def assms(1) systemctl_def)
    let ?f = "\<lambda>n. path_join units (label s @ n)"
    let ?new = "[(Exists (?f ''.socket''), Failed (Kind NotFound)), (Remove_File (?f ''.socket''), Failed (Kind NotFound)),
      (Remove_File (?f ''.service''), Failed (Kind NotFound)), (Remove_File sock, Failed (Kind NotFound)),
      (Run [''systemctl'', ''--user'', ''daemon-reload''], Exited True [])] @ last"
    have "uninstall pl s m = (Inr (), m\<lparr>asks := asks m @ ?new\<rparr>)"
      using Linux by (simp add: uninstall_def linux_uninstall_def andThen_def units there gone path [unfolded Linux] reload dir)
    moreover have "?quiet ?new" using last(1) lastq by simp
    ultimately show ?thesis by blast
  qed
qed

section \<open>Witnesses\<close>

definition sample_service :: service where
  "sample_service = \<lparr>s_name = ''echo'', s_major = 2\<rparr>"

definition sample_vars :: "str \<Rightarrow> str option" where
  "sample_vars v = (if v = ''HOME'' then Some ''/home/u''
     else if v = ''XDG_RUNTIME_DIR'' then Some ''/run/user/7'' else None)"

fun answer_running :: "action \<Rightarrow> answer" where
  "answer_running (Run c) = Exited (c \<noteq> [''launchctl'', ''print'', ''gui/7/echo-v2'']) []"
| "answer_running (Stat p) = Is Socket 7"
| "answer_running _ = Done"

definition sample_machine :: "(action \<Rightarrow> answer) \<Rightarrow> machine" where
  "sample_machine f = \<lparr>vars = sample_vars, own_uid = 7, debug_text = concat,
     error_text = (\<lambda>e. []), answers = (\<lambda>h. f), asks = []\<rparr>"

theorem labels_identify_services_witness:
  "\<exists>p q. socket_path Linux sample_service (sample_machine answer_running) = (Inr p, sample_machine answer_running) \<and>
     socket_path Linux (sample_service\<lparr>s_major := 3\<rparr>) (sample_machine answer_running) = (Inr q, sample_machine answer_running) \<and>
     (p = q \<longleftrightarrow> sample_service = sample_service\<lparr>s_major := 3\<rparr>)"
proof (intro exI conjI)
  let ?m = "sample_machine answer_running"
  have env: "absolute_env ''XDG_RUNTIME_DIR'' ?m = (Inr ''/run/user/7'', ?m)"
    by (simp add: absolute_env_cases sample_machine_def sample_vars_def is_absolute_def)
  show a: "socket_path Linux sample_service ?m = (Inr (path_join (path_join ''/run/user/7'' ''echo'') (label sample_service @ ''.sock'')), ?m)"
    and b: "socket_path Linux (sample_service\<lparr>s_major := 3\<rparr>) ?m =
      (Inr (path_join (path_join ''/run/user/7'' ''echo'') (label (sample_service\<lparr>s_major := 3\<rparr>) @ ''.sock'')), ?m)"
    by (simp_all add: socket_path_def socket_dir_defs env sample_service_def)
  show "path_join (path_join ''/run/user/7'' ''echo'') (label sample_service @ ''.sock'') =
      path_join (path_join ''/run/user/7'' ''echo'') (label (sample_service\<lparr>s_major := 3\<rparr>) @ ''.sock'') \<longleftrightarrow>
      sample_service = sample_service\<lparr>s_major := 3\<rparr>"
    using labels_identify_services [OF _ _ a b] by (simp add: sample_service_def)
qed

theorem agent_ready_witness:
  "\<exists>after. asks (snd (install Macos sample_service ''/bin/echo'' [] (sample_machine answer_running))) =
     after @ [(Stat ''/home/u/Library/Application Support/echo/echo-v2.sock'', Is Socket 7)]"
proof -
  let ?m = "sample_machine answer_running"
  let ?i = "install Macos sample_service ''/bin/echo'' [] ?m"
  have "fst ?i = Inr ()" by code_simp
  then have run: "install Macos sample_service ''/bin/echo'' [] ?m = (Inr (), snd ?i)" by (metis prod.collapse)
  have path: "fst (socket_path Macos sample_service ?m) = Inr ''/home/u/Library/Application Support/echo/echo-v2.sock''"
    by code_simp
  have m: "own_uid ?m = 7" "asks ?m = []" by (simp_all add: sample_machine_def)
  from agent_ready [OF run] obtain sock before x y after where
    "socket_path Macos sample_service ?m = (Inr sock, ?m)"
    "asks (snd ?i) = asks ?m @ before @ [x, y] @ after @ [(Stat sock, Is Socket (own_uid ?m))]" by blast
  with path m show ?thesis by (intro exI [of _ "before @ [x, y] @ after"]) simp
qed

theorem uninstall_undoes_install_witness:
  "\<exists>undone. asks (snd (uninstall Linux sample_service
       (snd (install Linux sample_service ''/bin/echo'' [] (sample_machine answer_running))))) =
     asks (snd (install Linux sample_service ''/bin/echo'' [] (sample_machine answer_running))) @ undone \<and>
     removed ''/run/user/7/echo/echo-v2.sock'' undone"
proof -
  let ?m = "sample_machine answer_running"
  let ?i = "install Linux sample_service ''/bin/echo'' [] ?m"
  let ?u = "uninstall Linux sample_service (snd ?i)"
  have i: "install Linux sample_service ''/bin/echo'' [] ?m = (fst ?i, snd ?i)" by simp
  have "fst ?u = Inr ()" by code_simp
  then have u: "uninstall Linux sample_service (snd ?i) = (Inr (), snd ?u)" by (metis prod.collapse)
  have "fst (socket_path Linux sample_service ?m) = Inr ''/run/user/7/echo/echo-v2.sock''" by code_simp
  with uninstall_undoes_install [OF i u] show ?thesis by auto
qed

theorem uninstall_missing_witness:
  "\<exists>new. uninstall Linux sample_service (sample_machine answer_missing) =
     (Inr (), (sample_machine answer_missing)\<lparr>asks := asks (sample_machine answer_missing) @ new\<rparr>) \<and> length new \<le> 6"
proof -
  let ?m = "sample_machine answer_missing"
  have answers: "answers ?m h act = answer_missing act" for h act by (simp add: sample_machine_def)
  obtain p where path: "socket_path Linux sample_service ?m = (Inr p, ?m)"
    by (simp add: socket_path_def socket_dir_defs absolute_env_cases sample_machine_def sample_vars_def is_absolute_def)
  obtain u where units: "Linux = Linux \<longrightarrow> unit_dir ?m = (Inr u, ?m)"
    by (simp add: unit_dir_def absolute_env_cases sample_machine_def sample_vars_def is_absolute_def)
  from uninstall_missing [OF answers path units] show ?thesis by blast
qed


end
